(* ===== verification/Ocean_Prelude.thy ===== *)
theory Ocean_Prelude
  imports Main "HOL-Library.Word"
begin

text \<open>
  Shared vocabulary of the development: the machine integer types of
  \<^verbatim>\<open>kernel/include/ocean/types.h\<close>, the alignment macros of
  \<^verbatim>\<open>kernel/include/ocean/defs.h\<close>, generic facts on words, lists and options, and the
  interface of a bit array, which the memory bitmap, the capability space and the run
  queue all provide with 64-bit words.
\<close>

unbundle bit_operations_syntax

subsection \<open>Machine integers\<close>

type_synonym u8 = "8 word"
type_synonym u32 = "32 word"
type_synonym u64 = "64 word"

named_theorems ocean_const \<open>numeric constants of the C headers\<close>

definition PAGE_SHIFT :: nat where
  "PAGE_SHIFT = 12"

definition PAGE_SIZE :: u64 where
  "PAGE_SIZE = push_bit PAGE_SHIFT 1"

lemma PAGE_SIZE_val [ocean_const, code]: "PAGE_SIZE = 4096"
  by (simp add: PAGE_SIZE_def PAGE_SHIFT_def push_bit_eq_mult)

text \<open>The macros \<^verbatim>\<open>ALIGN_UP\<close>, \<^verbatim>\<open>ALIGN_DOWN\<close> and \<^verbatim>\<open>IS_ALIGNED\<close>; the
  addition of \<^verbatim>\<open>ALIGN_UP\<close> wraps at the width of the word, as in C.\<close>

definition ALIGN_UP :: "u64 \<Rightarrow> u64 \<Rightarrow> u64" where
  "ALIGN_UP x a = (x + (a - 1)) AND NOT (a - 1)"

definition ALIGN_DOWN :: "u64 \<Rightarrow> u64 \<Rightarrow> u64" where
  "ALIGN_DOWN x a = x AND NOT (a - 1)"

definition IS_ALIGNED :: "u64 \<Rightarrow> u64 \<Rightarrow> bool" where
  "IS_ALIGNED x a \<longleftrightarrow> x AND (a - 1) = 0"

abbreviation PAGE_ALIGN :: "u64 \<Rightarrow> u64" where
  "PAGE_ALIGN x \<equiv> ALIGN_UP x PAGE_SIZE"

abbreviation PAGE_ALIGN_DOWN :: "u64 \<Rightarrow> u64" where
  "PAGE_ALIGN_DOWN x \<equiv> ALIGN_DOWN x PAGE_SIZE"

lemma unat_u64_less: "unat (x :: u64) < 2 ^ 64"
  by (rule order_less_le_trans [OF unsigned_less]) simp

lemma unat_u32_less: "unat (x :: u32) < 2 ^ 32"
  by (rule order_less_le_trans [OF unsigned_less]) simp

lemma unat_u64_pow2: "n < 64 \<Longrightarrow> unat (2 ^ n :: u64) = 2 ^ n"
proof -
  assume "n < 64"
  then have "(2::nat) ^ n < 2 ^ 64" by (intro power_strict_increasing) auto
  then have "unat (of_nat (2 ^ n) :: u64) = 2 ^ n"
    by (simp only: unsigned_of_nat take_bit_eq_mod) simp
  then show ?thesis by simp
qed

lemma mask_word_conv: "2 ^ n - 1 = (mask n :: 'a::len word)"
  by (simp add: mask_eq_decr_exp)

lemma ALIGN_DOWN_pow2: "unat (ALIGN_DOWN x (2 ^ n)) = unat x div 2 ^ n * 2 ^ n"
proof -
  have "ALIGN_DOWN x (2 ^ n) = push_bit n (drop_bit n x)"
    unfolding ALIGN_DOWN_def mask_word_conv
    by (rule bit_word_eqI) (auto simp: bit_simps)
  moreover have "unat (push_bit n (drop_bit n x)) = take_bit 64 (push_bit n (drop_bit n (unat x)))"
    by (simp only: unsigned_push_bit_eq unsigned_drop_bit_eq)
      (use take_bit_nat_eq_self [of "unat x" 64] unat_u64_less [of x] in simp)
  moreover have "unat x div 2 ^ n * 2 ^ n < 2 ^ 64"
    by (rule order_le_less_trans [of _ "unat x"]) (use unat_u64_less [of x] in auto)
  ultimately show ?thesis
    by (simp only: push_bit_eq_mult drop_bit_eq_div take_bit_eq_mod mod_less)
qed

lemma ALIGN_UP_pow2:
  assumes "n < 64" "unat x + 2 ^ n - 1 < 2 ^ 64"
  shows "unat (ALIGN_UP x (2 ^ n)) = (unat x + 2 ^ n - 1) div 2 ^ n * 2 ^ n"
proof -
  have "ALIGN_UP x (2 ^ n) = ALIGN_DOWN (x + (2 ^ n - 1)) (2 ^ n)"
    by (simp add: ALIGN_UP_def ALIGN_DOWN_def)
  moreover have "unat (2 ^ n - 1 :: u64) = 2 ^ n - 1"
    using assms(1) by (simp add: unat_sub unat_u64_pow2 word_le_nat_alt)
  ultimately show ?thesis
    using assms(2) by (simp add: ALIGN_DOWN_pow2 unat_word_ariths)
qed

lemma IS_ALIGNED_pow2: "IS_ALIGNED x (2 ^ n) \<longleftrightarrow> 2 ^ n dvd unat x"
  by (simp add: IS_ALIGNED_def mask_word_conv and_mask_dvd_nat)

subsection \<open>Lists and options\<close>

lemma nth_upd: "xs[i := x] ! j = (if j = i \<and> i < length xs then x else xs ! j)"
  by (cases "i < length xs") (auto simp: nth_list_update list_update_beyond)

lemma length_concat_update:
  "i < length xss \<Longrightarrow>
   length (concat (xss[i := ys])) + length (xss ! i) = length (concat xss) + length ys"
proof (induction xss arbitrary: i)
  case (Cons zs xss)
  then show ?case by (cases i) fastforce+
qed simp

lemma in_concat_nth: "x \<in> set (concat xss) \<longleftrightarrow> (\<exists>i < length xss. x \<in> set (xss ! i))"
  by (metis (no_types, lifting) UN_iff in_set_conv_nth set_concat)

lemma set_concat_update:
  "i < length xss \<Longrightarrow>
   set (concat (xss[i := ys])) = set ys \<union> (\<Union>j \<in> {..<length xss} - {i}. set (xss ! j))"
  unfolding set_eq_iff in_concat_nth by (auto simp: nth_list_update split: if_splits)

lemma find_least:
  "find P [0..<n] = Some i \<longleftrightarrow> i < n \<and> P i \<and> (\<forall>j < i. \<not> P j)"
  by (auto simp: find_Some_iff intro: exI [of _ i])

lemma find_least_None: "find P [0..<n] = None \<longleftrightarrow> (\<forall>j < n. \<not> P j)"
  by (auto simp: find_None_iff)

lemma bind_eq_SomeE:
  assumes "Option.bind m f = Some r"
  obtains x where "m = Some x" "f x = Some r"
  using assms by (cases m) auto

subsection \<open>Bit arrays\<close>

text \<open>
  The interface: test, set and clear one bit of an array of \<open>nbits\<close> bits. A client may
  rely on reads seeing the last write and on writes leaving every other bit alone.
\<close>

locale bit_array =
  fixes test :: "'b \<Rightarrow> nat \<Rightarrow> bool"
    and setb :: "nat \<Rightarrow> 'b \<Rightarrow> 'b"
    and clear :: "nat \<Rightarrow> 'b \<Rightarrow> 'b"
    and nbits :: "'b \<Rightarrow> nat"
  assumes test_setb: "i < nbits b \<Longrightarrow> j < nbits b \<Longrightarrow> test (setb i b) j \<longleftrightarrow> j = i \<or> test b j"
    and test_clear: "i < nbits b \<Longrightarrow> j < nbits b \<Longrightarrow> test (clear i b) j \<longleftrightarrow> j \<noteq> i \<and> test b j"
    and nbits_setb: "nbits (setb i b) = nbits b"
    and nbits_clear: "nbits (clear i b) = nbits b"
begin

lemma nbits_fold_setb: "nbits (fold setb is b) = nbits b"
  by (induction "is" arbitrary: b) (auto simp: nbits_setb)

lemma nbits_fold_clear: "nbits (fold clear is b) = nbits b"
  by (induction "is" arbitrary: b) (auto simp: nbits_clear)

lemma test_fold_setb:
  "\<forall>i \<in> set is. i < nbits b \<Longrightarrow> j < nbits b \<Longrightarrow>
   test (fold setb is b) j \<longleftrightarrow> j \<in> set is \<or> test b j"
  by (induction "is" arbitrary: b) (auto simp: nbits_setb test_setb)

lemma test_fold_clear:
  "\<forall>i \<in> set is. i < nbits b \<Longrightarrow> j < nbits b \<Longrightarrow>
   test (fold clear is b) j \<longleftrightarrow> j \<notin> set is \<and> test b j"
  by (induction "is" arbitrary: b) (auto simp: nbits_clear test_clear)

lemma fold_setb_clear:
  "\<forall>i \<in> set is. i < nbits b \<Longrightarrow> \<forall>i \<in> set is. \<not> test b i \<Longrightarrow> j < nbits b \<Longrightarrow>
   test (fold clear is (fold setb is b)) j = test b j"
  by (auto simp: test_fold_clear test_fold_setb nbits_fold_setb)

lemma card_set_setb:
  "i < nbits b \<Longrightarrow> \<not> test b i \<Longrightarrow>
   card {j. j < nbits b \<and> test (setb i b) j} = Suc (card {j. j < nbits b \<and> test b j})"
proof -
  assume a: "i < nbits b" "\<not> test b i"
  then have "{j. j < nbits b \<and> test (setb i b) j} = insert i {j. j < nbits b \<and> test b j}"
    by (auto simp: test_setb)
  with a show ?thesis by simp
qed

lemma card_set_clear:
  "i < nbits b \<Longrightarrow> test b i \<Longrightarrow>
   Suc (card {j. j < nbits b \<and> test (clear i b) j}) = card {j. j < nbits b \<and> test b j}"
proof -
  assume a: "i < nbits b" "test b i"
  then have "{j. j < nbits b \<and> test (clear i b) j} = {j. j < nbits b \<and> test b j} - {i}"
    by (auto simp: test_clear)
  moreover have "i \<in> {j. j < nbits b \<and> test b j}" using a by simp
  ultimately show ?thesis
    by (metis card_Suc_Diff1 finite_Collect_conjI finite_Collect_less_nat)
qed

end

text \<open>The C idiom for one bit of a \<^verbatim>\<open>u64\<close> array: word \<open>i / 64\<close>, bit \<open>i % 64\<close>.\<close>

definition word_test :: "u64 list \<Rightarrow> nat \<Rightarrow> bool" where
  "word_test bs i \<longleftrightarrow> drop_bit (i mod 64) (bs ! (i div 64)) AND 1 \<noteq> 0"

definition word_set :: "nat \<Rightarrow> u64 list \<Rightarrow> u64 list" where
  "word_set i bs = bs[i div 64 := bs ! (i div 64) OR push_bit (i mod 64) 1]"

definition word_clear :: "nat \<Rightarrow> u64 list \<Rightarrow> u64 list" where
  "word_clear i bs = bs[i div 64 := bs ! (i div 64) AND NOT (push_bit (i mod 64) 1)]"

lemma or_and_same: "(a OR b) AND b = (b :: 'a :: len word)"
  by (rule bit_eqI) (auto simp: bit_simps)

lemma and_not_same: "(a AND NOT b) AND b = (0 :: 'a :: len word)"
  by (rule bit_eqI) (auto simp: bit_simps)

lemma drop_bit_and_1: "drop_bit n w AND 1 \<noteq> 0 \<longleftrightarrow> bit (w :: 'a::len word) n"
proof -
  have "drop_bit n w AND 1 = of_bool (odd (drop_bit n w))"
    by (simp add: and_one_eq mod_2_eq_odd)
  then show ?thesis by (simp add: bit_iff_odd_drop_bit)
qed

lemma and_push_bit_1: "w AND push_bit n 1 \<noteq> 0 \<longleftrightarrow> bit (w :: 'a::len word) n"
proof -
  have "w AND push_bit n 1 \<noteq> 0 \<longleftrightarrow> (\<exists>m. bit (w AND push_bit n 1) m)"
    by (metis bit_0_eq bot_apply bot_bool_def bit_word_eqI)
  also have "\<dots> \<longleftrightarrow> bit w n"
    by (auto simp: bit_simps dest: bit_imp_le_length) 
  finally show ?thesis .
qed

lemma word_test_bit: "word_test bs i \<longleftrightarrow> bit (bs ! (i div 64)) (i mod 64)"
  by (simp add: word_test_def drop_bit_and_1)

lemma length_word_set [simp]: "length (word_set i bs) = length bs"
  by (simp add: word_set_def)

lemma length_word_clear [simp]: "length (word_clear i bs) = length bs"
  by (simp add: word_clear_def)

lemma same_div_mod: "i div 64 = j div 64 \<Longrightarrow> i mod 64 = j mod 64 \<Longrightarrow> i = (j::nat)"
  by (metis div_mod_decomp)

lemma word_test_set:
  assumes "i < 64 * length bs"
  shows "word_test (word_set i bs) j \<longleftrightarrow> j = i \<or> word_test bs j"
proof (cases "j div 64 = i div 64")
  case True
  moreover have "i div 64 < length bs" using assms by auto
  ultimately show ?thesis
    using same_div_mod [of j i]
    by (auto simp: word_test_bit word_set_def bit_simps)
next
  case False
  then show ?thesis by (auto simp: word_test_bit word_set_def)
qed

lemma word_test_clear:
  assumes "i < 64 * length bs"
  shows "word_test (word_clear i bs) j \<longleftrightarrow> j \<noteq> i \<and> word_test bs j"
proof (cases "j div 64 = i div 64")
  case True
  moreover have "i div 64 < length bs" using assms by auto
  ultimately show ?thesis
    using same_div_mod [of j i]
    by (auto simp: word_test_bit word_clear_def bit_simps)
next
  case False
  then show ?thesis by (auto simp: word_test_bit word_clear_def)
qed

interpretation words: bit_array word_test word_set word_clear "\<lambda>bs. 64 * length bs"
  by unfold_locales (simp_all add: word_test_set word_test_clear)

end
