(* ===== verification/List_Head.thy ===== *)
theory List_Head
  imports Ocean_Prelude
begin

text \<open>
  The circular doubly linked lists of \<^verbatim>\<open>kernel/include/ocean/list.h\<close>, as operations on a
  store of \<^verbatim>\<open>struct list_head\<close> nodes, and the refinement that lets every other theory
  of the development treat such a list as a HOL list: \<open>is_list h head xs\<close> says that in store
  \<open>h\<close> the head \<open>head\<close> anchors exactly the nodes \<open>xs\<close>, in order, and each operation is
  shown to act on \<open>xs\<close> as the list function the other theories use. Node addresses are
  natural numbers and \<open>0\<close> is \<^verbatim>\<open>NULL\<close>.
\<close>

subsection \<open>The operations\<close>

record list_store =
  nxt :: "nat \<Rightarrow> nat"
  prv :: "nat \<Rightarrow> nat"

definition INIT_LIST_HEAD :: "list_store \<Rightarrow> nat \<Rightarrow> list_store" where
  "INIT_LIST_HEAD h l = h\<lparr>nxt := (nxt h)(l := l), prv := (prv h)(l := l)\<rparr>"

text \<open>\<^verbatim>\<open>__list_add\<close>: the four stores in the order of the source.\<close>

definition list_add_between :: "list_store \<Rightarrow> nat \<Rightarrow> nat \<Rightarrow> nat \<Rightarrow> list_store" where
  "list_add_between h new p n =
     (let h1 = h\<lparr>prv := (prv h)(n := new)\<rparr>;
          h2 = h1\<lparr>nxt := (nxt h1)(new := n)\<rparr>;
          h3 = h2\<lparr>prv := (prv h2)(new := p)\<rparr>
      in h3\<lparr>nxt := (nxt h3)(p := new)\<rparr>)"

definition list_add :: "list_store \<Rightarrow> nat \<Rightarrow> nat \<Rightarrow> list_store" where
  "list_add h new head = list_add_between h new head (nxt h head)"

definition list_add_tail :: "list_store \<Rightarrow> nat \<Rightarrow> nat \<Rightarrow> list_store" where
  "list_add_tail h new head = list_add_between h new (prv h head) head"

text \<open>\<^verbatim>\<open>__list_del\<close>.\<close>

definition list_del_between :: "list_store \<Rightarrow> nat \<Rightarrow> nat \<Rightarrow> list_store" where
  "list_del_between h p n =
     (let h1 = h\<lparr>prv := (prv h)(n := p)\<rparr> in h1\<lparr>nxt := (nxt h1)(p := n)\<rparr>)"

definition list_del :: "list_store \<Rightarrow> nat \<Rightarrow> list_store" where
  "list_del h e =
     (let h1 = list_del_between h (prv h e) (nxt h e)
      in h1\<lparr>nxt := (nxt h1)(e := 0), prv := (prv h1)(e := 0)\<rparr>)"

definition list_del_init :: "list_store \<Rightarrow> nat \<Rightarrow> list_store" where
  "list_del_init h e = INIT_LIST_HEAD (list_del_between h (prv h e) (nxt h e)) e"

definition list_replace :: "list_store \<Rightarrow> nat \<Rightarrow> nat \<Rightarrow> list_store" where
  "list_replace h old new =
     (let h1 = h\<lparr>nxt := (nxt h)(new := nxt h old)\<rparr>;
          h2 = h1\<lparr>prv := (prv h1)(nxt h1 new := new)\<rparr>;
          h3 = h2\<lparr>prv := (prv h2)(new := prv h2 old)\<rparr>
      in h3\<lparr>nxt := (nxt h3)(prv h3 new := new)\<rparr>)"

definition list_replace_init :: "list_store \<Rightarrow> nat \<Rightarrow> nat \<Rightarrow> list_store" where
  "list_replace_init h old new = INIT_LIST_HEAD (list_replace h old new) old"

definition list_move :: "list_store \<Rightarrow> nat \<Rightarrow> nat \<Rightarrow> list_store" where
  "list_move h l head = list_add (list_del_between h (prv h l) (nxt h l)) l head"

definition list_move_tail :: "list_store \<Rightarrow> nat \<Rightarrow> nat \<Rightarrow> list_store" where
  "list_move_tail h l head = list_add_tail (list_del_between h (prv h l) (nxt h l)) l head"

definition list_empty :: "list_store \<Rightarrow> nat \<Rightarrow> bool" where
  "list_empty h head \<longleftrightarrow> nxt h head = head"

definition list_is_singular :: "list_store \<Rightarrow> nat \<Rightarrow> bool" where
  "list_is_singular h head \<longleftrightarrow> \<not> list_empty h head \<and> nxt h head = prv h head"

text \<open>\<^verbatim>\<open>list_first_entry\<close> is the successor of the head.\<close>

definition list_first_entry :: "list_store \<Rightarrow> nat \<Rightarrow> nat" where
  "list_first_entry h head = nxt h head"

text \<open>
  The loop of \<^verbatim>\<open>list_for_each (pos, head)\<close>, returning the nodes it visits in order; \<open>None\<close>
  is a walk that never comes back to the head.
\<close>

partial_function (option) list_walk :: "list_store \<Rightarrow> nat \<Rightarrow> nat \<Rightarrow> nat list option" where
  "list_walk h head pos =
     (if pos = head then Some []
      else Option.bind (list_walk h head (nxt h pos)) (\<lambda>xs. Some (pos # xs)))"

definition list_for_each :: "list_store \<Rightarrow> nat \<Rightarrow> nat list option" where
  "list_for_each h head = list_walk h head (nxt h head)"

subsection \<open>The abstraction to HOL lists\<close>

definition linked :: "list_store \<Rightarrow> nat \<Rightarrow> nat \<Rightarrow> bool" where
  "linked h u v \<longleftrightarrow> nxt h u = v \<and> prv h v = u"

definition is_list :: "list_store \<Rightarrow> nat \<Rightarrow> nat list \<Rightarrow> bool" where
  "is_list h head xs \<longleftrightarrow> successively (linked h) (head # xs @ [head]) \<and> distinct (head # xs)"

lemma list_add_between_sel:
  "nxt (list_add_between h new p n) = (nxt h)(new := n, p := new)"
  "prv (list_add_between h new p n) = (prv h)(n := new, new := p)"
  by (simp_all add: list_add_between_def Let_def)

lemma list_del_between_sel:
  "nxt (list_del_between h p n) = (nxt h)(p := n)"
  "prv (list_del_between h p n) = (prv h)(n := p)"
  by (simp_all add: list_del_between_def Let_def)

lemma successively_frame:
  "\<lbrakk>successively P xs; \<And>u v. u \<in> set (butlast xs) \<Longrightarrow> v \<in> set (tl xs) \<Longrightarrow> P u v \<Longrightarrow> Q u v\<rbrakk>
   \<Longrightarrow> successively Q xs"
proof (induction xs rule: induct_list012)
  case (3 x y zs)
  have "successively Q (y # zs)"
    using 3 by (intro "3.IH"(2)) (auto dest: in_set_butlastD split: if_splits)
  with 3 show ?case by auto
qed auto

lemma last_notin_butlast: "distinct xs \<Longrightarrow> last xs \<notin> set (butlast xs)"
  by (cases xs rule: rev_cases) auto

text \<open>Cutting the cycle into the part before and the part after a point of change.\<close>

lemma is_list_cut:
  assumes "is_list h head (as @ bs)"
  shows "successively (linked h) (head # as)" "successively (linked h) (bs @ [head])"
    and "linked h (last (head # as)) (hd (bs @ [head]))"
  using assms by (auto simp: is_list_def successively_append_iff [of _ "head # as", simplified])

lemma cut_frame:
  assumes "distinct (head # as @ bs)" "p = last (head # as)" "n = hd (bs @ [head])"
  shows "u \<in> set (butlast (head # as)) \<Longrightarrow> u \<noteq> p" "v \<in> set as \<Longrightarrow> v \<noteq> n"
    and "u \<in> set bs \<Longrightarrow> u \<noteq> p" "v \<in> set (tl (bs @ [head])) \<Longrightarrow> v \<noteq> n"
proof -
  show "u \<in> set (butlast (head # as)) \<Longrightarrow> u \<noteq> p"
    using assms last_notin_butlast [of "head # as"] by auto
  show "v \<in> set as \<Longrightarrow> v \<noteq> n" using assms by (cases bs) auto
  show "u \<in> set bs \<Longrightarrow> u \<noteq> p" using assms by (cases as rule: rev_cases) auto
  show "v \<in> set (tl (bs @ [head])) \<Longrightarrow> v \<noteq> n" using assms by (cases bs) auto
qed

lemma is_list_insert:
  assumes l: "is_list h head (as @ bs)" and new: "new \<notin> set (head # as @ bs)"
  shows "is_list (list_add_between h new (last (head # as)) (hd (bs @ [head]))) head (as @ new # bs)"
proof -
  let ?p = "last (head # as)" and ?n = "hd (bs @ [head])"
  let ?h = "list_add_between h new ?p ?n"
  have d: "distinct (head # as @ bs)" using l by (simp add: is_list_def)
  note fr = cut_frame [OF d refl refl]
  have n: "?n \<in> set (head # bs)" by (cases bs) auto
  have p: "?p \<in> set (head # as)" by simp
  have t: "set (tl (bs @ [head])) \<subseteq> set (head # bs)" by (cases bs) auto
  have "successively (linked ?h) (head # as)"
    using is_list_cut(1) [OF l]
    by (rule successively_frame)
      (use new fr(1,2) in \<open>auto simp: linked_def list_add_between_sel dest: in_set_butlastD\<close>)
  moreover have "successively (linked ?h) (bs @ [head])"
    using is_list_cut(2) [OF l]
    by (rule successively_frame)
      (use new fr(3,4) t in \<open>auto simp: linked_def list_add_between_sel\<close>)
  moreover have "linked ?h ?p new" "linked ?h new ?n"
    using new n p by (auto simp: linked_def list_add_between_sel)
  ultimately have "successively (linked ?h) ((head # as) @ new # bs @ [head])"
    by (subst successively_append_iff) (auto simp: successively_Cons)
  then show ?thesis using d new by (auto simp: is_list_def)
qed

lemma is_list_remove:
  assumes l: "is_list h head (as @ x # bs)"
  shows "is_list (list_del_between h (prv h x) (nxt h x)) head (as @ bs)"
proof -
  let ?p = "last (head # as)" and ?n = "hd (bs @ [head])"
  have x: "prv h x = ?p" "nxt h x = ?n"
    using is_list_cut(3) [of h head as "x # bs"] is_list_cut(3) [of h head "as @ [x]" bs] l
    by (auto simp: linked_def)
  let ?h = "list_del_between h ?p ?n"
  have d: "distinct (head # as @ bs)" using l by (auto simp: is_list_def)
  note fr = cut_frame [OF d refl refl]
  have "successively (linked ?h) (head # as)"
    using is_list_cut(1) [OF l]
    by (rule successively_frame) (use fr(1,2) in \<open>auto simp: linked_def list_del_between_sel\<close>)
  moreover have "successively (linked ?h) (bs @ [head])"
    by (rule successively_frame [of "linked h"])
      (use is_list_cut(2) [of h head "as @ [x]" bs] l fr(3,4) in \<open>auto simp: linked_def list_del_between_sel\<close>)
  moreover have "linked ?h ?p ?n" by (simp add: linked_def list_del_between_sel)
  ultimately have "successively (linked ?h) ((head # as) @ bs @ [head])"
    by (subst successively_append_iff) auto
  then show ?thesis using d x by (auto simp: is_list_def)
qed

lemma is_list_frame:
  assumes "is_list h head xs"
    and "\<And>u. u \<in> set (head # xs) \<Longrightarrow> nxt h' u = nxt h u \<and> prv h' u = prv h u"
  shows "is_list h' head xs"
proof -
  have "successively (linked h') (head # xs @ [head])"
    by (rule successively_frame [of "linked h"])
      (use assms(1) [unfolded is_list_def] assms(2) in \<open>auto simp: linked_def butlast_append\<close>)
  with assms(1) show ?thesis by (simp add: is_list_def)
qed

subsection \<open>Each operation on the abstract list\<close>

lemma is_list_first: "is_list h head xs \<Longrightarrow> nxt h head = hd (xs @ [head])"
  using is_list_cut(3) [of h head "[]" xs] by (simp add: linked_def)

lemma is_list_last: "is_list h head xs \<Longrightarrow> prv h head = last (head # xs)"
  using is_list_cut(3) [of h head xs "[]"] by (simp add: linked_def)

lemma is_list_nxt: "is_list h head (as @ x # bs) \<Longrightarrow> nxt h x = hd (bs @ [head])"
  using is_list_cut(3) [of h head "as @ [x]" bs] by (simp add: linked_def)

lemma is_list_prv: "is_list h head (as @ x # bs) \<Longrightarrow> prv h x = last (head # as)"
  using is_list_cut(3) [of h head as "x # bs"] by (simp add: linked_def)

lemma INIT_LIST_HEAD_list: "is_list (INIT_LIST_HEAD h head) head []"
  by (simp add: is_list_def linked_def INIT_LIST_HEAD_def)

lemma list_add_list:
  "is_list h head xs \<Longrightarrow> new \<notin> set (head # xs) \<Longrightarrow> is_list (list_add h new head) head (new # xs)"
  using is_list_insert [of h head "[]" xs new] by (simp add: list_add_def is_list_first)

lemma list_add_after:
  "is_list h head (as @ x # bs) \<Longrightarrow> new \<notin> set (head # as @ x # bs) \<Longrightarrow>
   is_list (list_add h new x) head (as @ x # new # bs)"
  using is_list_insert [of h head "as @ [x]" bs new] is_list_nxt [of h head as x bs]
  by (simp add: list_add_def)

lemma list_add_tail_list:
  "is_list h head xs \<Longrightarrow> new \<notin> set (head # xs) \<Longrightarrow>
   is_list (list_add_tail h new head) head (xs @ [new])"
  using is_list_insert [of h head xs "[]" new] by (simp add: list_add_tail_def is_list_last)

lemma list_add_tail_before:
  "is_list h head (as @ x # bs) \<Longrightarrow> new \<notin> set (head # as @ x # bs) \<Longrightarrow>
   is_list (list_add_tail h new x) head (as @ new # x # bs)"
  using is_list_insert [of h head as "x # bs" new] is_list_prv [of h head as x bs]
  by (simp add: list_add_tail_def)

lemma list_del_list:
  assumes "is_list h head (as @ x # bs)"
  shows "is_list (list_del h x) head (as @ bs)"
  using is_list_remove [OF assms]
  by (rule is_list_frame) (use assms in \<open>auto simp: list_del_def Let_def is_list_def\<close>)

lemma list_del_init_list:
  assumes "is_list h head (as @ x # bs)"
  shows "is_list (list_del_init h x) head (as @ bs)" "list_empty (list_del_init h x) x"
proof -
  show "is_list (list_del_init h x) head (as @ bs)"
    using is_list_remove [OF assms]
    by (rule is_list_frame)
      (use assms in \<open>auto simp: list_del_init_def INIT_LIST_HEAD_def is_list_def\<close>)
  show "list_empty (list_del_init h x) x"
    by (simp add: list_empty_def list_del_init_def INIT_LIST_HEAD_def)
qed

lemma list_replace_list:
  assumes l: "is_list h head (as @ x # bs)" and new: "new \<notin> set (head # as @ x # bs)"
  shows "is_list (list_replace h x new) head (as @ new # bs)"
proof -
  have d: "distinct (head # as @ x # bs)" using l by (simp add: is_list_def)
  have x: "prv h x = last (head # as)" "nxt h x = hd (bs @ [head])"
    using is_list_prv [OF l] is_list_nxt [OF l] by auto
  have mem: "last (head # as) \<in> set (head # as)" "hd (bs @ [head]) \<in> set (head # bs)"
    by simp (cases bs, auto)
  have "is_list (list_add_between (list_del_between h (prv h x) (nxt h x)) new
      (last (head # as)) (hd (bs @ [head]))) head (as @ new # bs)"
    by (rule is_list_insert [OF is_list_remove [OF l]]) (use new in auto)
  then show ?thesis
    by (rule is_list_frame)
      (use d new mem x in \<open>auto simp: list_replace_def Let_def list_add_between_sel list_del_between_sel\<close>)
qed

lemma list_empty_list: "is_list h head xs \<Longrightarrow> list_empty h head \<longleftrightarrow> xs = []"
  by (cases xs) (auto simp: list_empty_def is_list_first is_list_def linked_def)

lemma linked_node_not_empty: "is_list h head xs \<Longrightarrow> x \<in> set xs \<Longrightarrow> \<not> list_empty h x"
proof -
  assume l: "is_list h head xs" and "x \<in> set xs"
  then obtain as bs where "xs = as @ x # bs" by (auto simp: in_set_conv_decomp)
  with l is_list_nxt [of h head as x bs] show ?thesis
    by (cases bs) (auto simp: list_empty_def is_list_def)
qed

lemma list_is_singular_list: "is_list h head xs \<Longrightarrow> list_is_singular h head \<longleftrightarrow> length xs = 1"
proof -
  assume l: "is_list h head xs"
  have "hd (xs @ [head]) = last (head # xs) \<longleftrightarrow> length xs = 1" if "xs \<noteq> []"
  proof (cases xs)
    case (Cons y ys)
    then show ?thesis using l last_in_set [of ys] by (auto simp: is_list_def)
  qed (use that in simp)
  with l show ?thesis
    by (auto simp: list_is_singular_def list_empty_list is_list_first is_list_last)
qed

lemma list_walk_list:
  "is_list h head (as @ bs) \<Longrightarrow> list_walk h head (hd (bs @ [head])) = Some bs"
proof (induction bs arbitrary: as)
  case Nil
  then show ?case by (simp add: list_walk.simps)
next
  case (Cons b bs)
  then have "list_walk h head (hd (bs @ [head])) = Some bs"
    using Cons.IH [of "as @ [b]"] by simp
  moreover have "b \<noteq> head" "nxt h b = hd (bs @ [head])"
    using Cons.prems is_list_nxt [OF Cons.prems] by (auto simp: is_list_def)
  ultimately show ?case by (simp add: list_walk.simps [of h head b])
qed

text \<open>On a well formed list the \<^verbatim>\<open>list_for_each\<close> loop of
  \<^verbatim>\<open>list.h\<close> terminates and visits exactly the nodes of the list, in order.\<close>

lemma list_for_each_visits_list:
  "is_list h head xs \<Longrightarrow> list_for_each h head = Some xs"
  using list_walk_list [of h head "[]" xs] by (simp add: list_for_each_def is_list_first)

lemma list_move_list:
  assumes "is_list h head (as @ x # bs)"
  shows "is_list (list_move h x head) head (x # as @ bs)"
    and "is_list (list_move_tail h x head) head (as @ bs @ [x])"
proof -
  have x: "x \<notin> set (head # as @ bs)" using assms by (auto simp: is_list_def)
  show "is_list (list_move h x head) head (x # as @ bs)"
    unfolding list_move_def using list_add_list [OF is_list_remove [OF assms] x] .
  show "is_list (list_move_tail h x head) head (as @ bs @ [x])"
    unfolding list_move_tail_def using list_add_tail_list [OF is_list_remove [OF assms] x] by simp
qed

subsection \<open>Operations on one list leave the others alone\<close>

lemma is_list_linked_in:
  assumes "is_list h head (as @ x # bs)"
  shows "prv h x \<in> set (head # as)" "nxt h x \<in> set (head # bs)"
  using is_list_prv [OF assms] is_list_nxt [OF assms] by (auto, cases bs, auto)

lemma list_add_tail_other:
  assumes "is_list h head xs" "is_list h other ys"
    and "set (head # xs) \<inter> set (other # ys) = {}" "new \<notin> set (other # ys)"
  shows "is_list (list_add_tail h new head) other ys"
proof -
  have "prv h head \<in> set (head # xs)" using is_list_last [OF assms(1)] by simp
  then have "prv h head \<notin> set (other # ys)" "head \<notin> set (other # ys)" using assms(3) by auto
  then show ?thesis
    by (intro is_list_frame [OF assms(2)])
      (use assms(4) in \<open>auto simp: list_add_tail_def list_add_between_sel\<close>)
qed

lemma list_del_init_other:
  assumes "is_list h head (as @ x # bs)" "is_list h other ys"
    and "set (head # as @ x # bs) \<inter> set (other # ys) = {}"
  shows "is_list (list_del_init h x) other ys"
  using assms(2)
  by (rule is_list_frame)
    (use assms(3) is_list_linked_in [OF assms(1)] in
      \<open>auto simp: list_del_init_def INIT_LIST_HEAD_def list_del_between_sel\<close>)

subsection \<open>The queue interface\<close>

text \<open>
  What the kernel relies on when it uses a list as a FIFO queue of nodes: appending at the
  tail, unlinking a node wherever it is, testing for emptiness and reading the first node.
\<close>

locale intrusive_queue =
  fixes rep :: "'h \<Rightarrow> 'a \<Rightarrow> 'a list \<Rightarrow> bool"
    and enq :: "'h \<Rightarrow> 'a \<Rightarrow> 'a \<Rightarrow> 'h"
    and unlink :: "'h \<Rightarrow> 'a \<Rightarrow> 'h"
    and emptyp :: "'h \<Rightarrow> 'a \<Rightarrow> bool"
    and first :: "'h \<Rightarrow> 'a \<Rightarrow> 'a"
  assumes rep_distinct: "rep h q xs \<Longrightarrow> distinct (q # xs)"
    and rep_enq: "rep h q xs \<Longrightarrow> x \<notin> set (q # xs) \<Longrightarrow> rep (enq h x q) q (xs @ [x])"
    and rep_unlink: "rep h q (as @ x # bs) \<Longrightarrow> rep (unlink h x) q (as @ bs)"
    and rep_emptyp: "rep h q xs \<Longrightarrow> emptyp h q \<longleftrightarrow> xs = []"
    and rep_first: "rep h q (x # xs) \<Longrightarrow> first h q = x"
begin

lemma rep_unlink_mem: "rep h q xs \<Longrightarrow> x \<in> set xs \<Longrightarrow> rep (unlink h x) q (remove1 x xs)"
proof -
  assume r: "rep h q xs" and "x \<in> set xs"
  then obtain as bs where xs: "xs = as @ x # bs" "x \<notin> set as"
    by (meson split_list_first)
  then have "remove1 x xs = as @ bs" by (simp add: remove1_append)
  with r xs rep_unlink show ?thesis by auto
qed

lemma rep_deq: "rep h q (x # xs) \<Longrightarrow> rep (unlink h (first h q)) q xs"
  using rep_unlink [of h q "[]" x xs] rep_first [of h q x xs] by simp

lemma rep_enq_list:
  "rep h q xs \<Longrightarrow> distinct ys \<Longrightarrow> set ys \<inter> set (q # xs) = {} \<Longrightarrow>
   rep (fold (\<lambda>y h. enq h y q) ys h) q (xs @ ys)"
proof (induction ys arbitrary: h xs)
  case (Cons y ys)
  have "rep (enq h y q) q (xs @ [y])"
    using Cons.prems by (intro rep_enq) auto
  then have "rep (fold (\<lambda>y h. enq h y q) ys (enq h y q)) q ((xs @ [y]) @ ys)"
    by (rule Cons.IH) (use Cons.prems in auto)
  then show ?case by simp
qed simp

text \<open>First in, first out: what was appended comes out in the same order.\<close>

lemma fifo:
  "rep h q [] \<Longrightarrow> distinct (q # y # ys) \<Longrightarrow>
   first (fold (\<lambda>y h. enq h y q) (y # ys) h) q = y"
  using rep_first rep_enq_list [of h q "[]" "y # ys"] by auto

end

interpretation lq: intrusive_queue is_list list_add_tail list_del_init list_empty list_first_entry
proof unfold_locales
  show "is_list h q xs \<Longrightarrow> distinct (q # xs)" for h q xs
    by (simp add: is_list_def)
  show "is_list h q (x # xs) \<Longrightarrow> list_first_entry h q = x" for h q x xs
    by (simp add: list_first_entry_def is_list_first)
qed (simp_all add: list_add_tail_list list_del_init_list list_empty_list)

subsection \<open>Properties\<close>

text \<open>
  C28: The pointer operations of \<^verbatim>\<open>list.h\<close> implement lists: on a circular list that represents
  \<open>xs\<close>, adding a node at the head or tail, deleting, reinitialising, replacing or moving a node
  change \<open>xs\<close> the way the operation's name says, the tests for an empty and a singular list
  are right, a node deleted with \<^verbatim>\<open>list_del_init\<close> tests empty itself while a linked one does not,
  and the \<^verbatim>\<open>list_for_each\<close> loop ends after visiting the nodes in order.
\<close>

theorem list_ops_refine:
  assumes "is_list h head xs"
  shows "list_for_each h head = Some xs \<and> (list_empty h head \<longleftrightarrow> xs = []) \<and>
    (list_is_singular h head \<longleftrightarrow> length xs = 1) \<and>
    (\<forall>x. x \<notin> set (head # xs) \<longrightarrow> is_list (list_add h x head) head (x # xs) \<and>
       is_list (list_add_tail h x head) head (xs @ [x])) \<and>
    (\<forall>as x bs. xs = as @ x # bs \<longrightarrow>
       is_list (list_del h x) head (as @ bs) \<and> is_list (list_del_init h x) head (as @ bs) \<and>
       list_empty (list_del_init h x) x \<and> \<not> list_empty h x \<and>
       is_list (list_move h x head) head (x # as @ bs) \<and>
       is_list (list_move_tail h x head) head (as @ bs @ [x]) \<and>
       (\<forall>y. y \<notin> set (head # xs) \<longrightarrow> is_list (list_replace h x y) head (as @ y # bs)))"
proof (intro conjI allI impI)
  show "list_for_each h head = Some xs" using list_for_each_visits_list [OF assms] .
  show "list_empty h head \<longleftrightarrow> xs = []" using list_empty_list [OF assms] .
  show "list_is_singular h head \<longleftrightarrow> length xs = 1" using list_is_singular_list [OF assms] .
  show "is_list (list_add h x head) head (x # xs)" "is_list (list_add_tail h x head) head (xs @ [x])"
    if "x \<notin> set (head # xs)" for x using list_add_list list_add_tail_list assms that by blast+
next
  fix as x bs assume xs: "xs = as @ x # bs"
  then have l: "is_list h head (as @ x # bs)" using assms by simp
  show "is_list (list_del h x) head (as @ bs)" "is_list (list_del_init h x) head (as @ bs)"
    using list_del_list [OF l] list_del_init_list [OF l] by blast+
  show "is_list (list_move h x head) head (x # as @ bs)" "is_list (list_move_tail h x head) head (as @ bs @ [x])"
    using list_move_list [OF l] by blast+
  show "list_empty (list_del_init h x) x" by (simp add: list_empty_def list_del_init_def INIT_LIST_HEAD_def)
  show "\<not> list_empty h x" using linked_node_not_empty [OF assms] xs by simp
  show "is_list (list_replace h x y) head (as @ y # bs)" if "y \<notin> set (head # xs)" for y
    using list_replace_list [OF l, of y] that xs by simp
qed

text \<open>An empty list at node 9 in a store with no other link.\<close>

definition ex_store :: list_store where
  "ex_store = INIT_LIST_HEAD \<lparr>nxt = (\<lambda>_. 0), prv = (\<lambda>_. 0)\<rparr> 9"

theorem list_ops_refine_witness:
  "is_list (list_add ex_store 4 9) 9 [4]"
  using list_ops_refine [OF INIT_LIST_HEAD_list, of "\<lparr>nxt = (\<lambda>_. 0), prv = (\<lambda>_. 0)\<rparr>" 9]
  by (simp add: ex_store_def)

end
