(* ===== verification/Sched.thy ===== *)
theory Sched
  imports List_Head
begin

text \<open>
  The scheduler of \<^verbatim>\<open>kernel/sched/core.c\<close>: 140 priority queues with a bitmap of the
  non-empty ones, the choice of the next thread, the context switch up to the change of
  stack, preemption counting, priorities, ticks, sleeping and waking. Thread structures are
  a store indexed by their address. A run queue list is the HOL list of the threads linked
  in it, and the test \<^verbatim>\<open>list_empty(&t->run_list)\<close> on a thread's own node is membership in
  no queue; both are justified by the refinement of \<open>List_Head\<close>. There is one run queue,
  because \<^verbatim>\<open>nr_cpus\<close> is 1 and never changes. The spin locks are not modelled: each
  operation is one atomic step.
\<close>

subsection \<open>State\<close>

datatype task_state = TASK_RUNNING | TASK_INTERRUPTIBLE | TASK_UNINTERRUPTIBLE
  | TASK_STOPPED | TASK_ZOMBIE | TASK_DEAD

definition TF_KTHREAD :: u32 where "TF_KTHREAD = 1"
definition TF_IDLE :: u32 where "TF_IDLE = 2"
definition TF_NEED_RESCHED :: u32 where "TF_NEED_RESCHED = 4"

definition MAX_PRIO :: nat where "MAX_PRIO = 140"
definition DEFAULT_PRIO :: int where "DEFAULT_PRIO = 120"
definition DEFAULT_TIME_SLICE :: u64 where "DEFAULT_TIME_SLICE = 10000000"
definition TICK_NS :: u64 where "TICK_NS = 10000000"

lemmas sched_const = MAX_PRIO_def DEFAULT_PRIO_def DEFAULT_TIME_SLICE_def TICK_NS_def

text \<open>A wait channel is any address: that of a wait object, or of the
  \<^verbatim>\<open>ipc_reply_pending\<close> field of a thread.\<close>

datatype wait_chan = Chan nat | Reply_pending_of nat

record thread =
  tid :: int
  t_process :: "nat option"
  t_state :: task_state
  t_flags :: u32
  priority :: int
  nice :: int
  time_slice :: u64
  kernel_stack :: u64
  kernel_stack_size :: u64
  system_time :: u64
  last_run :: u64
  wait_channel :: "wait_chan option"
  t_cpu :: int
  cpu_mask :: u64
  ipc_caller :: "nat option"
  ipc_reply_server :: "nat option"
  ipc_reply_pending :: int
  ipc_reply_result :: int
  ipc_reply_tag :: u64
  ipc_reply_regs :: "u64 list"

record run_queue =
  nr_running :: u64
  rqueue :: "nat list list"
  rbitmap :: "u64 list"
  rq_curr :: "nat option"
  rq_idle :: "nat option"
  switches :: u64
  total_time :: u64
  idle_time :: u64
  cpu_id :: int
  tick_count :: u64
  last_tick :: u64

text \<open>The globals of \<^verbatim>\<open>core.c\<close>, the thread and process fields it reads, and the per-CPU
  registers it writes when it switches.\<close>

record sched_state =
  threads :: "nat \<Rightarrow> thread"
  rq :: run_queue
  current_thread :: "nat option"
  preempt_cnt :: int
  global_ticks :: u64
  boot_time_ns :: u64
  all_threads :: "nat list"
  wait_queues :: "nat \<Rightarrow> nat list"
  process_mm :: "nat \<Rightarrow> nat option"
  mm_pml4_phys :: "nat \<Rightarrow> u64"
  cr3 :: u64
  current_as :: "nat option"
  percpu_kernel_rsp :: u64
  tss_rsp0 :: u64

definition upd_thread :: "sched_state \<Rightarrow> nat \<Rightarrow> (thread \<Rightarrow> thread) \<Rightarrow> sched_state" where
  "upd_thread s t f = s\<lparr>threads := (threads s)(t := f (threads s t))\<rparr>"

subsection \<open>Priority bitmap\<close>

definition bitmap_set :: "u64 list \<Rightarrow> nat \<Rightarrow> u64 list" where
  "bitmap_set bm b = bm[b div 64 := bm ! (b div 64) OR push_bit (b mod 64) 1]"

definition bitmap_clear :: "u64 list \<Rightarrow> nat \<Rightarrow> u64 list" where
  "bitmap_clear bm b = bm[b div 64 := bm ! (b div 64) AND NOT (push_bit (b mod 64) 1)]"

text \<open>\<^verbatim>\<open>__builtin_ctzll\<close>: the number of trailing zero bits of a non-zero word.\<close>

definition ctzll :: "u64 \<Rightarrow> nat" where
  "ctzll w = (case find (bit w) [0..<64] of Some n \<Rightarrow> n | None \<Rightarrow> 64)"

definition bitmap_ffs :: "u64 list \<Rightarrow> nat \<Rightarrow> int" where
  "bitmap_ffs bm nbits =
     (case find (\<lambda>i. bm ! i \<noteq> 0) [0..<(nbits + 63) div 64] of
        Some i \<Rightarrow> int (i * 64 + ctzll (bm ! i))
      | None \<Rightarrow> -1)"

subsection \<open>Run queue operations\<close>

definition cpu_rq :: "int \<Rightarrow> bool" where
  "cpu_rq cpu \<longleftrightarrow> \<not> (cpu < 0 \<or> cpu \<ge> 1)"

definition rq_init :: "int \<Rightarrow> run_queue" where
  "rq_init cpu = \<lparr>nr_running = 0, rqueue = replicate MAX_PRIO [], rbitmap = replicate 3 0,
     rq_curr = None, rq_idle = None, switches = 0, total_time = 0, idle_time = 0,
     cpu_id = cpu, tick_count = 0, last_tick = 0\<rparr>"

text \<open>\<^verbatim>\<open>!list_empty(&t->run_list)\<close> and \<^verbatim>\<open>list_del_init(&t->run_list)\<close>.\<close>

definition on_rq :: "run_queue \<Rightarrow> nat \<Rightarrow> bool" where
  "on_rq r t \<longleftrightarrow> list_ex (\<lambda>q. List.member q t) (rqueue r)"

definition unlink_run_list :: "nat \<Rightarrow> nat list list \<Rightarrow> nat list list" where
  "unlink_run_list t qs = map (remove1 t) qs"

definition clamp_prio :: "int \<Rightarrow> int" where
  "clamp_prio prio =
     (let p = (if prio < 0 then 0 else prio)
      in if p \<ge> int MAX_PRIO then int MAX_PRIO - 1 else p)"

definition enqueue_thread_locked :: "sched_state \<Rightarrow> nat \<Rightarrow> sched_state" where
  "enqueue_thread_locked s t =
     (if on_rq (rq s) t then s
      else let prio = nat (clamp_prio (priority (threads s t)));
               r = rq s
           in upd_thread
                (s\<lparr>rq := r\<lparr>rqueue := (rqueue r)[prio := rqueue r ! prio @ [t]],
                          rbitmap := bitmap_set (rbitmap r) prio,
                          nr_running := nr_running r + 1\<rparr>\<rparr>)
                t (\<lambda>th. th\<lparr>t_cpu := cpu_id r\<rparr>))"

definition sched_add :: "sched_state \<Rightarrow> nat \<Rightarrow> sched_state" where
  "sched_add s t =
     enqueue_thread_locked (upd_thread s t (\<lambda>th. th\<lparr>t_state := TASK_RUNNING\<rparr>)) t"

definition sched_remove :: "sched_state \<Rightarrow> nat \<Rightarrow> sched_state" where
  "sched_remove s t =
     (if \<not> cpu_rq (t_cpu (threads s t)) then s
      else if on_rq (rq s) t
      then let r = rq s;
               r1 = r\<lparr>rqueue := unlink_run_list t (rqueue r), nr_running := nr_running r - 1\<rparr>;
               prio = nat (priority (threads s t))
           in s\<lparr>rq := (if rqueue r1 ! prio = []
                        then r1\<lparr>rbitmap := bitmap_clear (rbitmap r1) prio\<rparr> else r1)\<rparr>
      else s)"

text \<open>
  The last branch of \<open>pick_next_thread\<close> is the case of a set bit over an empty queue, where
  the source would take the list head for a thread; \<open>rq_ok\<close> below excludes it.
\<close>

definition pick_next_thread :: "sched_state \<Rightarrow> nat option \<times> sched_state" where
  "pick_next_thread s =
     (let r = rq s; prio = bitmap_ffs (rbitmap r) MAX_PRIO
      in if prio < 0 then (rq_idle r, s)
         else case rqueue r ! nat prio of
                next # _ \<Rightarrow>
                  let r1 = r\<lparr>rqueue := unlink_run_list next (rqueue r),
                            nr_running := nr_running r - 1\<rparr>;
                      r2 = (if rqueue r1 ! nat prio = []
                            then r1\<lparr>rbitmap := bitmap_clear (rbitmap r1) (nat prio)\<rparr> else r1)
                  in (Some next, s\<lparr>rq := r2\<rparr>)
              | [] \<Rightarrow> (None, s))"

subsection \<open>Switching\<close>

text \<open>\<^verbatim>\<open>paging_switch\<close> of \<^verbatim>\<open>kernel/arch/x86_64/mm/paging.c\<close>.\<close>

definition paging_switch :: "sched_state \<Rightarrow> nat option \<Rightarrow> sched_state" where
  "paging_switch s mm =
     (case mm of
        Some a \<Rightarrow> (if mm_pml4_phys s a \<noteq> 0
                    then s\<lparr>cr3 := mm_pml4_phys s a, current_as := Some a\<rparr> else s)
      | None \<Rightarrow> s)"

text \<open>\<^verbatim>\<open>switch_to\<close> up to the call of \<^verbatim>\<open>switch_context\<close>, after which \<open>next\<close> runs.\<close>

definition switch_to :: "sched_state \<Rightarrow> nat \<Rightarrow> nat \<Rightarrow> sched_state" where
  "switch_to s prev next =
     (let s1 = s\<lparr>rq := (rq s)\<lparr>rq_curr := Some next\<rparr>, current_thread := Some next\<rparr>;
          np = t_process (threads s next);
          s2 = (if t_process (threads s prev) \<noteq> np
                then (case np of
                        Some p \<Rightarrow> (if process_mm s1 p \<noteq> None
                                    then paging_switch s1 (process_mm s1 p) else s1)
                      | None \<Rightarrow> s1)
                else s1);
          ks = kernel_stack (threads s next); sz = kernel_stack_size (threads s next);
          s3 = (if ks \<noteq> 0 then s2\<lparr>percpu_kernel_rsp := ks + sz - 8, tss_rsp0 := ks + sz\<rparr>
                else s2);
          s4 = s3\<lparr>rq := (rq s3)\<lparr>switches := switches (rq s3) + 1\<rparr>\<rparr>
      in upd_thread s4 next
           (\<lambda>th. th\<lparr>last_run := global_ticks s4, t_flags := t_flags th AND NOT TF_NEED_RESCHED\<rparr>))"

definition preempt_disable :: "sched_state \<Rightarrow> sched_state" where
  "preempt_disable s = s\<lparr>preempt_cnt := preempt_cnt s + 1\<rparr>"

text \<open>\<^verbatim>\<open>preempt_enable\<close> is its decrement followed by the test whether to call
  \<^verbatim>\<open>schedule\<close> again.\<close>

definition preempt_dec :: "sched_state \<Rightarrow> sched_state" where
  "preempt_dec s = (if preempt_cnt s > 0 then s\<lparr>preempt_cnt := preempt_cnt s - 1\<rparr> else s)"

definition need_resched :: "sched_state \<Rightarrow> bool" where
  "need_resched s \<longleftrightarrow> preempt_cnt s = 0 \<and>
     (case current_thread s of
        Some t \<Rightarrow> t_flags (threads s t) AND TF_NEED_RESCHED \<noteq> 0
      | None \<Rightarrow> False)"

text \<open>The body of \<^verbatim>\<open>schedule\<close> before the switch: the new state, \<open>prev\<close> and \<open>next\<close>.\<close>

definition schedule_pick :: "sched_state \<Rightarrow> sched_state \<times> nat option \<times> nat option" where
  "schedule_pick s =
     (let s0 = (if current_thread s = None
                then s\<lparr>current_thread := rq_idle (rq s),
                       rq := (rq s)\<lparr>rq_curr := rq_idle (rq s)\<rparr>\<rparr>
                else s);
          prev = current_thread s0;
          s1 = preempt_disable s0;
          s2 = (case prev of
                  Some p \<Rightarrow> (if t_state (threads s1 p) = TASK_RUNNING \<and> rq_idle (rq s1) \<noteq> Some p
                              then enqueue_thread_locked s1 p else s1)
                | None \<Rightarrow> s1);
          (next, s3) = pick_next_thread s2
      in (s3, prev, next))"

text \<open>
  \<^verbatim>\<open>schedule\<close>: \<open>Sched_ret\<close> is the state in which the chosen thread continues, either after
  the switch or, when the caller was chosen again, after \<^verbatim>\<open>preempt_enable\<close>, which may call
  \<^verbatim>\<open>schedule\<close> once more; \<open>Sched_fault\<close> is a switch from or to \<^verbatim>\<open>NULL\<close>, and \<open>None\<close> a call
  that does not return.
\<close>

datatype sched_result = Sched_ret sched_state | Sched_fault

partial_function (option) schedule :: "sched_state \<Rightarrow> sched_result option" where
  "schedule s =
     (case schedule_pick s of
        (s1, prev, next) \<Rightarrow>
          if next \<noteq> prev
          then (case (prev, next) of
                  (Some p, Some n) \<Rightarrow> Some (Sched_ret (switch_to s1 p n))
                | _ \<Rightarrow> Some Sched_fault)
          else let s2 = preempt_dec s1
               in if need_resched s2 then schedule s2 else Some (Sched_ret s2))"

declare schedule.simps [code]

definition preempt_enable :: "sched_state \<Rightarrow> sched_result option" where
  "preempt_enable s =
     (let s1 = preempt_dec s in if need_resched s1 then schedule s1 else Some (Sched_ret s1))"

definition sched_yield :: "sched_state \<Rightarrow> sched_result option" where
  "sched_yield s =
     (case current_thread s of
        Some t \<Rightarrow> schedule (upd_thread s t (\<lambda>th. th\<lparr>t_flags := t_flags th OR TF_NEED_RESCHED\<rparr>))
      | None \<Rightarrow> Some Sched_fault)"

subsection \<open>Ticks, wake-ups and priorities\<close>

definition sched_tick :: "sched_state \<Rightarrow> sched_state" where
  "sched_tick s =
     (let s1 = s\<lparr>rq := (rq s)\<lparr>tick_count := tick_count (rq s) + 1\<rparr>,
                 global_ticks := global_ticks s + 1\<rparr>;
          curr = current_thread s1; r = rq s1
      in if curr = None \<or> curr = rq_idle r
         then let s2 = s1\<lparr>rq := r\<lparr>idle_time := idle_time r + TICK_NS\<rparr>\<rparr>
              in (if nr_running r > 0
                  then (case curr of
                          Some t \<Rightarrow> upd_thread s2 t (\<lambda>th. th\<lparr>t_flags := t_flags th OR TF_NEED_RESCHED\<rparr>)
                        | None \<Rightarrow> s2)
                  else s2)
         else case curr of
                Some t \<Rightarrow>
                  let s2 = upd_thread s1 t
                             (\<lambda>th. if time_slice th > TICK_NS
                                   then th\<lparr>time_slice := time_slice th - TICK_NS\<rparr>
                                   else th\<lparr>time_slice := DEFAULT_TIME_SLICE,
                                           t_flags := t_flags th OR TF_NEED_RESCHED\<rparr>);
                      s3 = upd_thread s2 t (\<lambda>th. th\<lparr>system_time := system_time th + TICK_NS\<rparr>)
                  in s3\<lparr>rq := (rq s3)\<lparr>total_time := total_time (rq s3) + TICK_NS\<rparr>\<rparr>
              | None \<Rightarrow> s1)"

definition sched_wakeup :: "sched_state \<Rightarrow> nat \<Rightarrow> sched_state" where
  "sched_wakeup s t =
     (if t_state (threads s t) = TASK_RUNNING then s
      else let s1 = upd_thread s t
                      (\<lambda>th. th\<lparr>t_state := TASK_RUNNING, time_slice := DEFAULT_TIME_SLICE\<rparr>)
           in if current_thread s1 = Some t then s1 else sched_add s1 t)"

definition sched_set_priority :: "sched_state \<Rightarrow> nat \<Rightarrow> int \<Rightarrow> sched_state" where
  "sched_set_priority s t prio0 =
     (let prio = clamp_prio prio0; old = nat (priority (threads s t)); r = rq s
      in if on_rq r t
         then let r1 = r\<lparr>rqueue := unlink_run_list t (rqueue r)\<rparr>;
                  r2 = (if rqueue r1 ! old = []
                        then r1\<lparr>rbitmap := bitmap_clear (rbitmap r1) old\<rparr> else r1);
                  s1 = upd_thread s t (\<lambda>th. th\<lparr>priority := prio\<rparr>)
              in s1\<lparr>rq := r2\<lparr>rqueue := (rqueue r2)[nat prio := rqueue r2 ! nat prio @ [t]],
                              rbitmap := bitmap_set (rbitmap r2) (nat prio)\<rparr>\<rparr>
         else upd_thread s t (\<lambda>th. th\<lparr>priority := prio\<rparr>))"

definition sched_set_nice :: "sched_state \<Rightarrow> nat \<Rightarrow> int \<Rightarrow> sched_state" where
  "sched_set_nice s t nice0 =
     (let n1 = (if nice0 < -20 then -20 else nice0);
          n = (if n1 > 19 then 19 else n1);
          s1 = upd_thread s t (\<lambda>th. th\<lparr>nice := n\<rparr>)
      in sched_set_priority s1 t (n + DEFAULT_PRIO))"

definition get_time_ns :: "sched_state \<Rightarrow> u64" where
  "get_time_ns s = boot_time_ns s + global_ticks s * TICK_NS"

subsection \<open>Sleeping and wait queues\<close>

text \<open>
  \<^verbatim>\<open>thread_sleep\<close> and \<^verbatim>\<open>wait_event\<close> in two halves: up to the call of \<^verbatim>\<open>schedule\<close>, and what
  the thread does when it runs again.
\<close>

definition thread_sleep_prepare :: "sched_state \<Rightarrow> nat \<Rightarrow> wait_chan \<Rightarrow> sched_state" where
  "thread_sleep_prepare s t ch =
     sched_remove
       (upd_thread s t (\<lambda>th. th\<lparr>wait_channel := Some ch, t_state := TASK_INTERRUPTIBLE\<rparr>)) t"

definition thread_sleep :: "sched_state \<Rightarrow> wait_chan \<Rightarrow> sched_result option" where
  "thread_sleep s ch =
     (case current_thread s of
        None \<Rightarrow> Some (Sched_ret s)
      | Some t \<Rightarrow> schedule (thread_sleep_prepare s t ch))"

definition thread_sleep_resume :: "sched_state \<Rightarrow> nat \<Rightarrow> sched_state" where
  "thread_sleep_resume s t = upd_thread s t (\<lambda>th. th\<lparr>wait_channel := None\<rparr>)"

definition thread_wakeup_one :: "wait_chan \<Rightarrow> nat \<Rightarrow> sched_state \<Rightarrow> sched_state" where
  "thread_wakeup_one ch t s =
     (if wait_channel (threads s t) = Some ch \<and>
         (t_state (threads s t) = TASK_INTERRUPTIBLE \<or>
          t_state (threads s t) = TASK_UNINTERRUPTIBLE)
      then sched_wakeup s t else s)"

definition thread_wakeup :: "sched_state \<Rightarrow> wait_chan \<Rightarrow> sched_state" where
  "thread_wakeup s ch = fold (thread_wakeup_one ch) (all_threads s) s"

definition wait_event_prepare :: "sched_state \<Rightarrow> nat \<Rightarrow> nat \<Rightarrow> sched_state" where
  "wait_event_prepare s wq t =
     sched_remove
       (upd_thread (s\<lparr>wait_queues := (wait_queues s)(wq := wait_queues s wq @ [t])\<rparr>) t
          (\<lambda>th. th\<lparr>t_state := TASK_INTERRUPTIBLE\<rparr>)) t"

definition wait_event_resume :: "sched_state \<Rightarrow> nat \<Rightarrow> nat \<Rightarrow> sched_state" where
  "wait_event_resume s wq t =
     s\<lparr>wait_queues := (wait_queues s)(wq := remove1 t (wait_queues s wq))\<rparr>"

definition wake_up :: "sched_state \<Rightarrow> nat \<Rightarrow> sched_state" where
  "wake_up s wq =
     (case wait_queues s wq of
        [] \<Rightarrow> s
      | t # ts \<Rightarrow> sched_wakeup (s\<lparr>wait_queues := (wait_queues s)(wq := ts)\<rparr>) t)"

function wake_up_all :: "sched_state \<Rightarrow> nat \<Rightarrow> sched_state" where
  "wake_up_all s wq =
     (case wait_queues s wq of
        [] \<Rightarrow> s
      | t # ts \<Rightarrow> wake_up_all (sched_wakeup (s\<lparr>wait_queues := (wait_queues s)(wq := ts)\<rparr>) t) wq)"
  by pat_completeness auto

lemma upd_thread_sel [simp]:
  "rq (upd_thread s t f) = rq s" "current_thread (upd_thread s t f) = current_thread s"
  "preempt_cnt (upd_thread s t f) = preempt_cnt s" "wait_queues (upd_thread s t f) = wait_queues s"
  "all_threads (upd_thread s t f) = all_threads s" "global_ticks (upd_thread s t f) = global_ticks s"
  "threads (upd_thread s t f) = (threads s)(t := f (threads s t))"
  by (simp_all add: upd_thread_def)

lemma enqueue_sel [simp]:
  "current_thread (enqueue_thread_locked s t) = current_thread s"
  "preempt_cnt (enqueue_thread_locked s t) = preempt_cnt s"
  "wait_queues (enqueue_thread_locked s t) = wait_queues s"
  "all_threads (enqueue_thread_locked s t) = all_threads s"
  "rq_idle (rq (enqueue_thread_locked s t)) = rq_idle (rq s)"
  by (simp_all add: enqueue_thread_locked_def Let_def)

lemma sched_wakeup_sel [simp]:
  "current_thread (sched_wakeup s t) = current_thread s"
  "wait_queues (sched_wakeup s t) = wait_queues s"
  "all_threads (sched_wakeup s t) = all_threads s"
  "rq_idle (rq (sched_wakeup s t)) = rq_idle (rq s)"
  by (simp_all add: sched_wakeup_def sched_add_def Let_def)

termination wake_up_all
  by (relation "measure (\<lambda>(s, wq). length (wait_queues s wq))") auto

declare wake_up_all.simps [simp del]

subsection \<open>Initialisation\<close>

definition create_idle_thread :: "int \<Rightarrow> thread" where
  "create_idle_thread cpu =
     \<lparr>tid = -1 - cpu, t_process = None, t_state = TASK_RUNNING, t_flags = TF_KTHREAD OR TF_IDLE,
      priority = int MAX_PRIO - 1, nice = 0, time_slice = 0, kernel_stack = 0,
      kernel_stack_size = 0, system_time = 0, last_run = 0, wait_channel = None, t_cpu = cpu,
      cpu_mask = push_bit (nat cpu) 1, ipc_caller = None, ipc_reply_server = None,
      ipc_reply_pending = 0, ipc_reply_result = 0, ipc_reply_tag = 0,
      ipc_reply_regs = replicate 8 0\<rparr>"

text \<open>\<^verbatim>\<open>sched_init\<close>, given what its allocation of the idle thread returns; the run queue array
  itself is allocated.\<close>

definition sched_init :: "sched_state \<Rightarrow> nat option \<Rightarrow> sched_state" where
  "sched_init s idle_ptr =
     (let s1 = s\<lparr>rq := rq_init 0\<rparr>
      in case idle_ptr of
           None \<Rightarrow> s1
         | Some i \<Rightarrow>
             s1\<lparr>threads := (threads s1)(i := create_idle_thread 0),
                rq := (rq s1)\<lparr>rq_idle := Some i, rq_curr := Some i\<rparr>,
                current_thread := Some i\<rparr>)"

subsection \<open>The bitmap finds the first non-empty queue\<close>

lemma bitmap_set_word: "bitmap_set bm i = word_set i bm"
  by (simp add: bitmap_set_def word_set_def)

lemma bitmap_clear_word: "bitmap_clear bm i = word_clear i bm"
  by (simp add: bitmap_clear_def word_clear_def)

interpretation rqbits: bit_array word_test "\<lambda>i bm. bitmap_set bm i" "\<lambda>i bm. bitmap_clear bm i"
  "\<lambda>bm. 64 * length bm"
  unfolding bitmap_set_word bitmap_clear_word by (rule words.bit_array_axioms)

lemma length_bitmap [simp]:
  "length (bitmap_set bm i) = length bm" "length (bitmap_clear bm i) = length bm"
  by (simp_all add: bitmap_set_def bitmap_clear_def)

lemma ctzll_least:
  assumes "w \<noteq> 0"
  shows "ctzll w < 64 \<and> bit w (ctzll w) \<and> (\<forall>j < ctzll w. \<not> bit w j)"
proof -
  from assms obtain n where n: "bit w n"
    by (metis bit_0_eq bit_word_eqI bot_apply bot_bool_def)
  then have "n < 64" using bit_imp_le_length [OF n] by simp
  with n obtain m where m: "find (bit w) [0..<64] = Some m"
    by (cases "find (bit w) [0..<64]") (auto simp: find_least_None)
  then have "ctzll w = m" by (simp add: ctzll_def)
  then show ?thesis using m by (simp add: find_least)
qed

lemma bitmap_ffs_None:
  assumes "bitmap_ffs bm nbits < 0" "length bm = (nbits + 63) div 64" "p < 64 * length bm"
  shows "\<not> word_test bm p"
proof -
  have "\<forall>i < (nbits + 63) div 64. bm ! i = 0"
    using assms(1) by (auto simp: bitmap_ffs_def find_least_None split: option.splits)
  moreover have "p div 64 < length bm" using assms(3) by auto
  ultimately show ?thesis using assms(2) by (simp add: word_test_bit)
qed

lemma bitmap_ffs_Some:
  assumes "\<not> bitmap_ffs bm nbits < 0" "length bm = (nbits + 63) div 64"
  shows "nat (bitmap_ffs bm nbits) < 64 * length bm"
    and "word_test bm (nat (bitmap_ffs bm nbits))"
    and "p < nat (bitmap_ffs bm nbits) \<Longrightarrow> \<not> word_test bm p"
proof -
  obtain i where i: "find (\<lambda>i. bm ! i \<noteq> 0) [0..<(nbits + 63) div 64] = Some i"
    using assms(1) by (auto simp: bitmap_ffs_def split: option.splits)
  then have lt: "i < length bm" and nz: "bm ! i \<noteq> 0" and z: "\<forall>j < i. bm ! j = 0"
    using assms(2) by (auto simp: find_least)
  note c = ctzll_least [OF nz]
  have v: "nat (bitmap_ffs bm nbits) = i * 64 + ctzll (bm ! i)"
    using i by (simp add: bitmap_ffs_def)
  show "nat (bitmap_ffs bm nbits) < 64 * length bm" using v c lt by auto
  show "word_test bm (nat (bitmap_ffs bm nbits))" using v c by (simp add: word_test_bit)
  assume p: "p < nat (bitmap_ffs bm nbits)"
  show "\<not> word_test bm p"
  proof (cases "p div 64 < i")
    case True
    then show ?thesis using z by (simp add: word_test_bit)
  next
    case False
    then have "p div 64 = i" using p v c by auto
    moreover have "p mod 64 < ctzll (bm ! i)"
      using p v calculation div_mult_mod_eq [of p 64] by linarith
    moreover note z
    ultimately have "p div 64 = i" and "p mod 64 < ctzll (bm ! i)" by blast+
    then show ?thesis using c by (simp add: word_test_bit)
  qed
qed

subsection \<open>The run queue invariant\<close>

text \<open>Queues and bitmap agree: bit \<open>p\<close> is set exactly when queue \<open>p\<close> has a thread, and no
  thread is linked twice.\<close>

definition qb_ok :: "nat list list \<Rightarrow> u64 list \<Rightarrow> bool" where
  "qb_ok q b \<longleftrightarrow> length q = MAX_PRIO \<and> length b = 3 \<and>
     (\<forall>p < 192. word_test b p \<longleftrightarrow> p < MAX_PRIO \<and> q ! p \<noteq> []) \<and>
     (\<forall>p < MAX_PRIO. distinct (q ! p)) \<and>
     (\<forall>p < MAX_PRIO. \<forall>r < MAX_PRIO. p \<noteq> r \<longrightarrow> set (q ! p) \<inter> set (q ! r) = {})"

text \<open>\<open>rq_core\<close> is what holds also in the middle of \<^verbatim>\<open>schedule\<close>, when the running thread may
  be queued; between operations, in \<open>rq_ok\<close>, it is not.\<close>

definition queued_ok :: "sched_state \<Rightarrow> nat \<Rightarrow> nat \<Rightarrow> bool" where
  "queued_ok s p t \<longleftrightarrow> priority (threads s t) = int p \<and> t_cpu (threads s t) = 0 \<and>
     t_state (threads s t) = TASK_RUNNING \<and> rq_idle (rq s) \<noteq> Some t"

definition rq_core :: "sched_state \<Rightarrow> bool" where
  "rq_core s \<longleftrightarrow> qb_ok (rqueue (rq s)) (rbitmap (rq s)) \<and>
     cpu_id (rq s) = 0 \<and>
     nr_running (rq s) = of_nat (length (concat (rqueue (rq s)))) \<and>
     (\<forall>p < MAX_PRIO. \<forall>t \<in> set (rqueue (rq s) ! p). queued_ok s p t) \<and>
     (\<forall>t. 0 \<le> priority (threads s t) \<and> priority (threads s t) < int MAX_PRIO)"

definition rq_ok :: "sched_state \<Rightarrow> bool" where
  "rq_ok s \<longleftrightarrow> rq_core s \<and> (\<forall>t. current_thread s = Some t \<longrightarrow> \<not> on_rq (rq s) t)"

lemma rq_coreI:
  assumes "qb_ok (rqueue (rq s)) (rbitmap (rq s))" "cpu_id (rq s) = 0"
    and "nr_running (rq s) = of_nat (length (concat (rqueue (rq s))))"
    and "\<And>p t. p < MAX_PRIO \<Longrightarrow> t \<in> set (rqueue (rq s) ! p) \<Longrightarrow> queued_ok s p t"
    and "\<And>t. 0 \<le> priority (threads s t)" "\<And>t. priority (threads s t) < int MAX_PRIO"
  shows "rq_core s"
  using assms by (simp add: rq_core_def)

lemma rq_coreD:
  assumes "rq_core s"
  shows "qb_ok (rqueue (rq s)) (rbitmap (rq s))" "cpu_id (rq s) = 0"
    and "nr_running (rq s) = of_nat (length (concat (rqueue (rq s))))"
    and "p < MAX_PRIO \<Longrightarrow> t \<in> set (rqueue (rq s) ! p) \<Longrightarrow> queued_ok s p t"
    and "0 \<le> priority (threads s t)" "priority (threads s t) < int MAX_PRIO"
  using assms by (simp_all add: rq_core_def)

lemma on_rq_iff: "on_rq r t \<longleftrightarrow> t \<in> set (concat (rqueue r))"
  by (auto simp: on_rq_def list_ex_iff)

lemma qb_enq:
  assumes "qb_ok q b" "p < MAX_PRIO" "t \<notin> set (concat q)"
  shows "qb_ok (q[p := q ! p @ [t]]) (bitmap_set b p)"
proof -
  have p: "p < 192" "p < length q" using assms by (auto simp: qb_ok_def MAX_PRIO_def)
  have t: "\<And>i. i < MAX_PRIO \<Longrightarrow> t \<notin> set (q ! i)"
    using assms(1,3) by (auto simp: qb_ok_def)
  have "word_test (bitmap_set b p) i \<longleftrightarrow> i = p \<or> word_test b i" if "i < 192" for i
    using rqbits.test_setb [of p b i] that p(1) assms(1) by (simp add: qb_ok_def)
  with assms p t show ?thesis
    by (auto simp: qb_ok_def nth_list_update)
qed

lemma qb_unique:
  "qb_ok q b \<Longrightarrow> p < MAX_PRIO \<Longrightarrow> r < MAX_PRIO \<Longrightarrow> t \<in> set (q ! p) \<Longrightarrow> t \<in> set (q ! r) \<Longrightarrow> p = r"
  unfolding qb_ok_def by blast

lemma unlink_run_list_nth:
  assumes "qb_ok q b" "p < MAX_PRIO" "t \<in> set (q ! p)"
  shows "unlink_run_list t q = q[p := remove1 t (q ! p)]"
proof (rule nth_equalityI)
  show "length (unlink_run_list t q) = length (q[p := remove1 t (q ! p)])"
    by (simp add: unlink_run_list_def)
  fix i assume "i < length (unlink_run_list t q)"
  then have "i < MAX_PRIO" using assms(1) by (simp add: unlink_run_list_def qb_ok_def)
  moreover have "i \<noteq> p \<Longrightarrow> t \<notin> set (q ! i)" using assms calculation qb_unique by blast
  ultimately show "unlink_run_list t q ! i = q[p := remove1 t (q ! p)] ! i"
    using assms by (auto simp: unlink_run_list_def qb_ok_def nth_list_update remove1_idem)
qed

lemma qb_replace:
  assumes q: "qb_ok q b" and p: "p < MAX_PRIO" and ys: "distinct ys" "set ys \<subseteq> set (q ! p)"
    and b: "length b' = 3" "\<And>i. i < 192 \<Longrightarrow> word_test b' i \<longleftrightarrow> (if i = p then ys \<noteq> [] else word_test b i)"
  shows "qb_ok (q[p := ys]) b'"
proof -
  have l: "p < length q" using q p by (simp add: qb_ok_def)
  have sub: "set (q[p := ys] ! i) \<subseteq> set (q ! i)" for i
    using ys l by (cases "i = p") auto
  have "set (q[p := ys] ! i) \<inter> set (q[p := ys] ! j) = {}"
    if "i < MAX_PRIO" "j < MAX_PRIO" "i \<noteq> j" for i j
    using q that sub [of i] sub [of j] unfolding qb_ok_def by blast
  moreover have "distinct (q[p := ys] ! i)" if "i < MAX_PRIO" for i
    using q that ys l by (cases "i = p") (auto simp: qb_ok_def)
  moreover have "word_test b' i \<longleftrightarrow> i < MAX_PRIO \<and> q[p := ys] ! i \<noteq> []" if "i < 192" for i
    using q that b p l by (auto simp: qb_ok_def nth_list_update)
  ultimately show ?thesis using q b(1) by (simp add: qb_ok_def)
qed

lemma qb_del_ok:
  assumes "qb_ok q b" "p < MAX_PRIO" "t \<in> set (q ! p)"
  shows "qb_ok (unlink_run_list t q)
           (if unlink_run_list t q ! p = [] then bitmap_clear b p else b)"
proof -
  note u = unlink_run_list_nth [OF assms]
  have p: "p < 192" "p < length q" using assms by (auto simp: qb_ok_def MAX_PRIO_def)
  have up: "unlink_run_list t q ! p = remove1 t (q ! p)" using p by (simp add: u)
  have b: "length b = 3" "word_test b p" "distinct (q ! p)"
    using assms p(1) by (auto simp: qb_ok_def)
  have c: "word_test (bitmap_clear b p) i \<longleftrightarrow> i \<noteq> p \<and> word_test b i" if "i < 192" for i
    using rqbits.test_clear [of p b i] that p(1) b(1) by simp
  show ?thesis
    unfolding up
    by (subst u, rule qb_replace [OF assms(1,2)])
      (use b c in \<open>auto simp: set_remove1_subset split: if_splits\<close>)
qed

lemma qb_del_notin:
  assumes "qb_ok q b" "p < MAX_PRIO" "t \<in> set (q ! p)"
  shows "t \<notin> set (concat (unlink_run_list t q))"
proof
  assume "t \<in> set (concat (unlink_run_list t q))"
  then obtain i where i: "i < length q" "t \<in> set (remove1 t (q ! i))"
    unfolding in_concat_nth by (auto simp: unlink_run_list_def)
  then have "i < MAX_PRIO" "distinct (q ! i)" using assms(1) by (auto simp: qb_ok_def)
  with i(2) show False by simp
qed

lemma qb_del_length:
  assumes "qb_ok q b" "p < MAX_PRIO" "t \<in> set (q ! p)"
  shows "length (concat q) = Suc (length (concat (unlink_run_list t q)))"
proof -
  have "p < length q" using assms by (simp add: qb_ok_def)
  then have "length (concat (unlink_run_list t q)) + length (q ! p) =
      length (concat q) + length (remove1 t (q ! p))"
    by (simp only: unlink_run_list_nth [OF assms] length_concat_update)
  moreover have "length (q ! p) = Suc (length (remove1 t (q ! p)))"
    using assms(3) by (simp add: length_remove1) (metis Suc_pred length_pos_if_in_set)
  ultimately show ?thesis by simp
qed

lemma qb_del_subset: "set (unlink_run_list t q ! i) \<subseteq> set (q ! i)" if "i < length q"
  using that by (simp add: unlink_run_list_def set_remove1_subset)

lemma set_unlink_other:
  "u \<noteq> t \<Longrightarrow> u \<in> set (concat (unlink_run_list t q)) \<longleftrightarrow> u \<in> set (concat q)"
  by (simp add: unlink_run_list_def)

lemma set_enq:
  assumes "p < length q"
  shows "u \<in> set (concat (q[p := q ! p @ [t]])) \<longleftrightarrow> u = t \<or> u \<in> set (concat q)"
  using assms unfolding in_concat_nth by (simp add: nth_list_update) (metis in_set_conv_decomp)

lemmas qb_del = qb_del_ok qb_del_notin qb_del_length

subsection \<open>Every operation keeps the invariant\<close>

lemma on_rq_prio:
  assumes "rq_core s" "on_rq (rq s) t"
  shows "nat (priority (threads s t)) < MAX_PRIO"
    and "t \<in> set (rqueue (rq s) ! nat (priority (threads s t)))"
    and "t_cpu (threads s t) = 0" "t_state (threads s t) = TASK_RUNNING" "rq_idle (rq s) \<noteq> Some t"
proof -
  obtain p where "p < MAX_PRIO" "t \<in> set (rqueue (rq s) ! p)"
    using assms unfolding on_rq_iff in_concat_nth rq_core_def qb_ok_def by auto
  then show "nat (priority (threads s t)) < MAX_PRIO"
    "t \<in> set (rqueue (rq s) ! nat (priority (threads s t)))"
    "t_cpu (threads s t) = 0" "t_state (threads s t) = TASK_RUNNING" "rq_idle (rq s) \<noteq> Some t"
    using assms(1) by (auto simp: rq_core_def queued_ok_def)
qed

lemma mem_queue_on_rq:
  "rq_core s \<Longrightarrow> p < MAX_PRIO \<Longrightarrow> t \<in> set (rqueue (rq s) ! p) \<Longrightarrow> on_rq (rq s) t"
  unfolding on_rq_iff in_concat_nth rq_core_def qb_ok_def by auto

lemma clamp_prio_range: "0 \<le> clamp_prio p \<and> clamp_prio p < int MAX_PRIO"
  by (simp add: clamp_prio_def MAX_PRIO_def Let_def)

lemma clamp_prio_id: "0 \<le> p \<Longrightarrow> p < int MAX_PRIO \<Longrightarrow> clamp_prio p = p"
  by (simp add: clamp_prio_def Let_def)

lemma rq_core_upd_thread:
  assumes "rq_core s" "priority (f (threads s t)) = priority (threads s t)"
    and "t_cpu (f (threads s t)) = t_cpu (threads s t)"
    and "t_state (f (threads s t)) = t_state (threads s t) \<or> \<not> on_rq (rq s) t"
  shows "rq_core (upd_thread s t f)"
proof -
  have "t_state (f (threads s t)) = TASK_RUNNING" if "p < MAX_PRIO" "t \<in> set (rqueue (rq s) ! p)" for p
    using assms(1,4) that mem_queue_on_rq [OF assms(1) that] by (auto simp: rq_core_def queued_ok_def)
  then show ?thesis using assms(1-3) by (auto simp: rq_core_def queued_ok_def)
qed

lemma rq_core_fields:
  "rq_core s \<Longrightarrow> threads s' = threads s \<Longrightarrow> rqueue (rq s') = rqueue (rq s) \<Longrightarrow>
   rbitmap (rq s') = rbitmap (rq s) \<Longrightarrow> cpu_id (rq s') = cpu_id (rq s) \<Longrightarrow>
   nr_running (rq s') = nr_running (rq s) \<Longrightarrow> rq_idle (rq s') = rq_idle (rq s) \<Longrightarrow> rq_core s'"
  by (simp add: rq_core_def queued_ok_def)

lemma on_rq_fields: "rqueue r' = rqueue r \<Longrightarrow> on_rq r' t = on_rq r t"
  by (simp add: on_rq_def)

lemma enqueue_core:
  assumes s: "rq_core s" and run: "t_state (threads s t) = TASK_RUNNING"
    and idle: "rq_idle (rq s) \<noteq> Some t"
  shows "rq_core (enqueue_thread_locked s t)"
    and "on_rq (rq (enqueue_thread_locked s t)) u \<longleftrightarrow> u = t \<or> on_rq (rq s) u"
proof -
  let ?p = "nat (priority (threads s t))" and ?q = "rqueue (rq s)"
  have "0 \<le> priority (threads s t)" "priority (threads s t) < int MAX_PRIO"
    using s by (simp_all add: rq_core_def)
  then have pr: "clamp_prio (priority (threads s t)) = priority (threads s t)" "?p < MAX_PRIO"
    by (simp_all add: clamp_prio_id nat_less_iff)
  have l: "?p < length ?q" using s pr by (simp add: rq_core_def qb_ok_def)
  show "rq_core (enqueue_thread_locked s t)"
  proof (cases "on_rq (rq s) t")
    case True
    then show ?thesis using s by (simp add: enqueue_thread_locked_def)
  next
    case False
    let ?s' = "enqueue_thread_locked s t"
    have f: "rqueue (rq ?s') = ?q[?p := ?q ! ?p @ [t]]" "rbitmap (rq ?s') = bitmap_set (rbitmap (rq s)) ?p"
      "nr_running (rq ?s') = nr_running (rq s) + 1" "cpu_id (rq ?s') = cpu_id (rq s)"
      "threads ?s' = (threads s)(t := (threads s t)\<lparr>t_cpu := cpu_id (rq s)\<rparr>)"
      using False pr(1) by (simp_all add: enqueue_thread_locked_def Let_def)
    show ?thesis
    proof (rule rq_coreI)
      show "qb_ok (rqueue (rq ?s')) (rbitmap (rq ?s'))"
        unfolding f using rq_coreD(1) [OF s] False pr by (simp add: qb_enq on_rq_iff)
      show "nr_running (rq ?s') = of_nat (length (concat (rqueue (rq ?s'))))"
        using length_concat_update [OF l, of "?q ! ?p @ [t]"] rq_coreD(3) [OF s] by (simp add: f)
      fix p u assume p: "p < MAX_PRIO" and u: "u \<in> set (rqueue (rq ?s') ! p)"
      have "u = t \<and> p = ?p \<or> u \<in> set (?q ! p)"
        using u l by (cases "p = ?p") (auto simp: f)
      then have "u = t \<and> p = ?p \<or> queued_ok s p u" using rq_coreD(4) [OF s p] by blast
      then show "queued_ok ?s' p u"
        using rq_coreD(2) [OF s] run idle \<open>0 \<le> priority (threads s t)\<close>
        by (elim disjE) (auto simp: f queued_ok_def)
    next
      show "0 \<le> priority (threads ?s' u)" "priority (threads ?s' u) < int MAX_PRIO" for u
        using rq_coreD(5,6) [OF s] by (simp_all add: f)
    qed (use rq_coreD(2) [OF s] in \<open>simp add: f\<close>)
  qed
  show "on_rq (rq (enqueue_thread_locked s t)) u \<longleftrightarrow> u = t \<or> on_rq (rq s) u"
    using set_enq [OF l] by (cases "on_rq (rq s) t")
      (auto simp: enqueue_thread_locked_def Let_def on_rq_iff pr simp del: set_concat)
qed

lemma unlink_core:
  assumes s: "rq_core s" and t: "on_rq (rq s) t"
    and s': "threads s' = threads s" "rqueue (rq s') = unlink_run_list t (rqueue (rq s))"
      "nr_running (rq s') = nr_running (rq s) - 1" "cpu_id (rq s') = cpu_id (rq s)"
      "rq_idle (rq s') = rq_idle (rq s)"
      "rbitmap (rq s') = (if unlink_run_list t (rqueue (rq s)) ! nat (priority (threads s t)) = []
         then bitmap_clear (rbitmap (rq s)) (nat (priority (threads s t))) else rbitmap (rq s))"
  shows "rq_core s'" and "on_rq (rq s') u \<longleftrightarrow> u \<noteq> t \<and> on_rq (rq s) u"
proof -
  note m = on_rq_prio [OF s t]
  have q: "qb_ok (rqueue (rq s)) (rbitmap (rq s))" using s by (simp add: rq_core_def)
  note d = qb_del [OF q m(1,2)]
  show "rq_core s'"
  proof (rule rq_coreI)
    show "qb_ok (rqueue (rq s')) (rbitmap (rq s'))" unfolding s' using d(1) .
    show "nr_running (rq s') = of_nat (length (concat (rqueue (rq s'))))"
      using d(3) rq_coreD(3) [OF s] by (simp add: s')
    fix p u assume p: "p < MAX_PRIO" and u: "u \<in> set (rqueue (rq s') ! p)"
    have "u \<in> set (rqueue (rq s) ! p)"
      using u qb_del_subset [of p "rqueue (rq s)" t] p q by (auto simp: s' qb_ok_def)
    then show "queued_ok s' p u" using rq_coreD(4) [OF s p] by (simp add: queued_ok_def s')
  qed (use rq_coreD(2,5,6) [OF s] in \<open>simp_all add: s'\<close>)
  show "on_rq (rq s') u \<longleftrightarrow> u \<noteq> t \<and> on_rq (rq s) u"
    using d(2) set_unlink_other [of u t] unfolding on_rq_iff s'(2) by (cases "u = t") simp_all
qed

lemma rq_core_current: "rq_core s \<Longrightarrow> rq_core (s\<lparr>current_thread := c\<rparr>)"
  by (erule rq_core_fields) simp_all

lemma running_upd_core:
  "rq_core s \<Longrightarrow> rq_core (upd_thread s t (\<lambda>th. th\<lparr>t_state := TASK_RUNNING\<rparr>))"
  by (rule rq_core_upd_thread) (auto dest: on_rq_prio)

lemma sched_add_core:
  assumes "rq_core s" "rq_idle (rq s) \<noteq> Some t"
  shows "rq_core (sched_add s t)"
    and "on_rq (rq (sched_add s t)) u \<longleftrightarrow> u = t \<or> on_rq (rq s) u"
  using enqueue_core [OF running_upd_core [OF assms(1), of t], of t] assms(2)
  by (simp_all add: sched_add_def)

lemma sched_remove_core:
  assumes s: "rq_core s"
  shows "rq_core (sched_remove s t)"
    and "on_rq (rq (sched_remove s t)) u \<longleftrightarrow> u \<noteq> t \<and> on_rq (rq s) u"
    and "threads (sched_remove s t) = threads s" "current_thread (sched_remove s t) = current_thread s"
    and "rq_idle (rq (sched_remove s t)) = rq_idle (rq s)"
proof -
  have "rq_core (sched_remove s t) \<and> (on_rq (rq (sched_remove s t)) u \<longleftrightarrow> u \<noteq> t \<and> on_rq (rq s) u)"
  proof (cases "on_rq (rq s) t")
    case True
    then have "cpu_rq (t_cpu (threads s t))" using on_rq_prio [OF s] by (simp add: cpu_rq_def)
    then show ?thesis
      using unlink_core [OF s True, of "sched_remove s t"] True by (simp add: sched_remove_def Let_def)
  next
    case False
    then show ?thesis using s by (auto simp: sched_remove_def)
  qed
  then show "rq_core (sched_remove s t)"
    and "on_rq (rq (sched_remove s t)) u \<longleftrightarrow> u \<noteq> t \<and> on_rq (rq s) u" by blast+
qed (simp_all add: sched_remove_def Let_def)

text \<open>A change of priority of a queued thread is its removal, the change and its insertion.\<close>

lemma set_priority_core_upd:
  assumes "rq_core s" "\<not> on_rq (rq s) t" "0 \<le> p" "p < int MAX_PRIO"
  shows "rq_core (upd_thread s t (\<lambda>th. th\<lparr>priority := p\<rparr>))"
proof -
  have "u \<noteq> t" if "r < MAX_PRIO" "u \<in> set (rqueue (rq s) ! r)" for r u
    using mem_queue_on_rq [OF assms(1) that] assms(2) by blast
  then show ?thesis using assms by (auto simp: rq_core_def queued_ok_def)
qed

lemma sched_set_priority_queued:
  assumes s: "rq_core s" and t: "on_rq (rq s) t"
  shows "sched_set_priority s t prio =
    enqueue_thread_locked
      (upd_thread (sched_remove s t) t (\<lambda>th. th\<lparr>priority := clamp_prio prio\<rparr>)) t"
proof -
  note m = on_rq_prio [OF s t] and c = clamp_prio_range [of prio]
  have cpu: "cpu_rq (t_cpu (threads s t))" "cpu_id (rq s) = t_cpu (threads s t)"
    using m rq_coreD(2) [OF s] by (simp_all add: cpu_rq_def)
  have "\<not> on_rq (rq (sched_remove s t)) t" using sched_remove_core(2) [OF s] by simp
  then show ?thesis
    using cpu t clamp_prio_id [of "clamp_prio prio"] c
    by (auto simp: sched_set_priority_def enqueue_thread_locked_def sched_remove_def Let_def upd_thread_def)
qed

lemma sched_set_priority_core:
  assumes s: "rq_core s"
  shows "rq_core (sched_set_priority s t prio)"
    and "on_rq (rq (sched_set_priority s t prio)) u \<longleftrightarrow> on_rq (rq s) u"
proof -
  note c = clamp_prio_range [of prio]
  have "rq_core (sched_set_priority s t prio) \<and>
    (on_rq (rq (sched_set_priority s t prio)) u \<longleftrightarrow> on_rq (rq s) u)"
  proof (cases "on_rq (rq s) t")
    case True
    let ?s = "upd_thread (sched_remove s t) t (\<lambda>th. th\<lparr>priority := clamp_prio prio\<rparr>)"
    note r = sched_remove_core [OF s, of t]
    have "rq_core ?s" using set_priority_core_upd r(1,2) c by blast
    then show ?thesis
      using enqueue_core [of ?s t] on_rq_prio [OF s True] True r
      by (auto simp: sched_set_priority_queued [OF s True])
  next
    case False
    then show ?thesis
      using set_priority_core_upd [OF s False] c by (simp add: sched_set_priority_def Let_def)
  qed
  then show "rq_core (sched_set_priority s t prio)"
    and "on_rq (rq (sched_set_priority s t prio)) u \<longleftrightarrow> on_rq (rq s) u" by blast+
qed

subsection \<open>The choice of the next thread\<close>

lemma pick_next_empty:
  assumes s: "rq_core s" and ffs: "bitmap_ffs (rbitmap (rq s)) MAX_PRIO < 0"
  shows "pick_next_thread s = (rq_idle (rq s), s)" "\<not> on_rq (rq s) t"
proof -
  have "rqueue (rq s) ! p = []" if "p < MAX_PRIO" for p
    using bitmap_ffs_None [OF ffs, of p] rq_coreD(1) [OF s] that by (simp add: qb_ok_def MAX_PRIO_def)
  then show "\<not> on_rq (rq s) t"
    unfolding on_rq_iff in_concat_nth using rq_coreD(1) [OF s] by (auto simp: qb_ok_def)
  show "pick_next_thread s = (rq_idle (rq s), s)" using ffs by (simp add: pick_next_thread_def Let_def)
qed

lemma pick_next_Some:
  assumes s: "rq_core s" and ffs: "\<not> bitmap_ffs (rbitmap (rq s)) MAX_PRIO < 0"
  obtains n s' ts where "pick_next_thread s = (Some n, s')" "on_rq (rq s) n"
    "rqueue (rq s) ! nat (priority (threads s n)) = n # ts"
    "rq_core s'" "\<And>u. on_rq (rq s') u \<longleftrightarrow> u \<noteq> n \<and> on_rq (rq s) u"
    "\<And>u. on_rq (rq s) u \<Longrightarrow> priority (threads s n) \<le> priority (threads s u)"
    "threads s' = threads s" "current_thread s' = current_thread s"
    "rq_idle (rq s') = rq_idle (rq s)" "preempt_cnt s' = preempt_cnt s"
    "rqueue (rq s') = unlink_run_list n (rqueue (rq s))"
proof -
  let ?q = "rqueue (rq s)" and ?p = "nat (bitmap_ffs (rbitmap (rq s)) MAX_PRIO)"
  have q: "qb_ok ?q (rbitmap (rq s))" using rq_coreD(1) [OF s] .
  then have len: "length (rbitmap (rq s)) = (MAX_PRIO + 63) div 64" by (simp add: qb_ok_def MAX_PRIO_def)
  note b = bitmap_ffs_Some [OF ffs len]
  have p: "?p < MAX_PRIO" "?q ! ?p \<noteq> []" "\<And>r. r < ?p \<Longrightarrow> ?q ! r = []"
    using b q len by (auto simp: qb_ok_def MAX_PRIO_def)
  then obtain n ts where n: "?q ! ?p = n # ts" by (cases "?q ! ?p") auto
  have on: "on_rq (rq s) n" using mem_queue_on_rq [OF s p(1)] n by simp
  have pn: "nat (priority (threads s n)) = ?p" "priority (threads s n) = int ?p"
    using rq_coreD(4) [OF s p(1)] n by (simp_all add: queued_ok_def)
  define s' where "s' = snd (pick_next_thread s)"
  have pick: "pick_next_thread s = (Some n, s')"
    using ffs n by (simp add: pick_next_thread_def Let_def s'_def)
  have f: "threads s' = threads s" "current_thread s' = current_thread s" "preempt_cnt s' = preempt_cnt s"
    "rqueue (rq s') = unlink_run_list n ?q" "nr_running (rq s') = nr_running (rq s) - 1"
    "cpu_id (rq s') = cpu_id (rq s)" "rq_idle (rq s') = rq_idle (rq s)"
    "rbitmap (rq s') = (if unlink_run_list n ?q ! nat (priority (threads s n)) = []
       then bitmap_clear (rbitmap (rq s)) (nat (priority (threads s n))) else rbitmap (rq s))"
    using ffs n pn(1) by (simp_all add: s'_def pick_next_thread_def Let_def)
  have least: "priority (threads s n) \<le> priority (threads s u)" if "on_rq (rq s) u" for u
    using on_rq_prio [OF s that] p(3) [of "nat (priority (threads s u))"] rq_coreD(5) [OF s, of u]
    by (cases "nat (priority (threads s u)) < ?p") (auto simp: pn(2))
  show ?thesis
    using that pick on n pn(1) unlink_core [OF s on f(1,4,5,6,7,8)] least f by simp
qed

text \<open>The threads that want the processor: the queued ones, and the running one unless it is the
  idle thread or about to sleep.\<close>

definition runnable :: "sched_state \<Rightarrow> nat \<Rightarrow> bool" where
  "runnable s t \<longleftrightarrow> on_rq (rq s) t \<or>
     current_thread s = Some t \<and> t_state (threads s t) = TASK_RUNNING \<and> rq_idle (rq s) \<noteq> Some t"

text \<open>What \<open>schedule_pick\<close> leaves: the chosen thread is off the queue, has a priority no queued thread
  beats, is the caller only if it beats all others, and no runnable thread is lost. \<open>pick_ok s s1 n\<close> states it for the state \<open>s1\<close> before the
  switch.\<close>

definition pick_ok :: "sched_state \<Rightarrow> sched_state \<Rightarrow> nat \<Rightarrow> bool" where
  "pick_ok s s1 n \<longleftrightarrow> rq_core s1 \<and> \<not> on_rq (rq s1) n \<and> rq_idle (rq s1) = rq_idle (rq s) \<and>
     (\<forall>u. on_rq (rq s1) u \<longrightarrow> rq_idle (rq s1) \<noteq> Some n \<and> priority (threads s1 n) \<le> priority (threads s1 u)) \<and>
     (\<forall>u. current_thread s = Some n \<and> on_rq (rq s) u \<longrightarrow> priority (threads s n) < priority (threads s u)) \<and>
     (\<forall>u. runnable s u \<longleftrightarrow> on_rq (rq s1) u \<or> u = n \<and> rq_idle (rq s1) \<noteq> Some n) \<and>
     (\<forall>u. t_state (threads s1 u) = t_state (threads s u)) \<and>
     (\<forall>u. t_flags (threads s1 u) = t_flags (threads s u)) \<and>
     (\<forall>u. priority (threads s1 u) = priority (threads s u)) \<and>
     preempt_cnt s1 = preempt_cnt s + 1"

lemma enqueue_thread_fields [simp]:
  "t_state (threads (enqueue_thread_locked s t) u) = t_state (threads s u)"
  "t_flags (threads (enqueue_thread_locked s t) u) = t_flags (threads s u)"
  "priority (threads (enqueue_thread_locked s t) u) = priority (threads s u)"
  by (simp_all add: enqueue_thread_locked_def Let_def)

lemma enqueue_last:
  assumes s: "rq_core s" and t: "\<not> on_rq (rq s) t"
  shows "rqueue (rq (enqueue_thread_locked s t)) ! nat (priority (threads s t)) =
    rqueue (rq s) ! nat (priority (threads s t)) @ [t]"
  using rq_coreD(1) [OF s] rq_coreD(5,6) [OF s, of t] t
  by (simp add: enqueue_thread_locked_def Let_def clamp_prio_id qb_ok_def nat_less_iff)

text \<open>A thread that goes back to its queue is chosen at once only if it beats every other one.\<close>

lemma enqueue_head:
  assumes s: "rq_core s" and t: "\<not> on_rq (rq s) t" and u: "on_rq (rq s) u"
    and hd: "rqueue (rq (enqueue_thread_locked s t)) ! nat (priority (threads s t)) = t # ts"
  shows "priority (threads s u) \<noteq> priority (threads s t)"
proof
  assume eq: "priority (threads s u) = priority (threads s t)"
  note m = on_rq_prio [OF s u]
  have "rqueue (rq s) ! nat (priority (threads s t)) @ [t] = t # ts"
    using enqueue_last [OF s t] hd by simp
  moreover have "t \<notin> set (rqueue (rq s) ! nat (priority (threads s t)))"
    using mem_queue_on_rq [OF s] m(1) t eq by auto
  ultimately have "rqueue (rq s) ! nat (priority (threads s t)) = []"
    by (metis append_eq_Cons_conv list.set_intros(1))
  then show False using m(2) eq by simp
qed

lemma pick_next_ok:
  assumes s: "rq_core s" and i: "rq_idle (rq s) = Some i"
  obtains n s' where "pick_next_thread s = (Some n, s')" "rq_core s'" "\<not> on_rq (rq s') n"
    "\<And>u. on_rq (rq s) u \<longleftrightarrow> on_rq (rq s') u \<or> u = n \<and> n \<noteq> i"
    "\<And>u. on_rq (rq s') u \<Longrightarrow> n \<noteq> i \<and> priority (threads s n) \<le> priority (threads s u)"
    "threads s' = threads s" "current_thread s' = current_thread s"
    "rq_idle (rq s') = Some i" "preempt_cnt s' = preempt_cnt s"
    "n \<noteq> i \<Longrightarrow> \<exists>ts. rqueue (rq s) ! nat (priority (threads s n)) = n # ts"
proof (cases "bitmap_ffs (rbitmap (rq s)) MAX_PRIO < 0")
  case True
  show ?thesis using that [of i s] pick_next_empty [OF s True] s i by simp
next
  case False
  show ?thesis
  proof (rule pick_next_Some [OF s False])
    fix n s' ts assume n: "pick_next_thread s = (Some n, s')" "on_rq (rq s) n" "rq_core s'"
      "\<And>u. on_rq (rq s') u \<longleftrightarrow> u \<noteq> n \<and> on_rq (rq s) u"
      "\<And>u. on_rq (rq s) u \<Longrightarrow> priority (threads s n) \<le> priority (threads s u)"
      "threads s' = threads s" "current_thread s' = current_thread s"
      "rq_idle (rq s') = rq_idle (rq s)" "preempt_cnt s' = preempt_cnt s"
      "rqueue (rq s) ! nat (priority (threads s n)) = n # ts"
    have "n \<noteq> i" using on_rq_prio(5) [OF s n(2)] i by auto
    moreover have "on_rq (rq s) u \<longleftrightarrow> on_rq (rq s') u \<or> u = n" for u using n(2,4) by blast
    ultimately show ?thesis using n(1,3,5-10) n(4) [of n] n(4) i by (intro that [of n s']) simp_all
  qed
qed

lemma schedule_pick_ok:
  assumes s: "rq_ok s" and i: "rq_idle (rq s) = Some i"
  obtains n s1 where
    "schedule_pick s = (s1, Some (case current_thread s of Some p \<Rightarrow> p | None \<Rightarrow> i), Some n)"
    "pick_ok s s1 n" "current_thread s1 = Some (case current_thread s of Some p \<Rightarrow> p | None \<Rightarrow> i)"
proof -
  define p where "p = (case current_thread s of Some p \<Rightarrow> p | None \<Rightarrow> i)"
  define s0 where "s0 = preempt_disable (if current_thread s = None
    then s\<lparr>current_thread := Some i, rq := (rq s)\<lparr>rq_curr := Some i\<rparr>\<rparr> else s)"
  define s2 where "s2 = (if t_state (threads s0 p) = TASK_RUNNING \<and> i \<noteq> p
    then enqueue_thread_locked s0 p else s0)"
  have c: "rq_core s" using s by (simp add: rq_ok_def)
  have s0: "threads s0 = threads s" "current_thread s0 = Some p" "rq_idle (rq s0) = Some i"
    "preempt_cnt s0 = preempt_cnt s + 1" "rqueue (rq s0) = rqueue (rq s)"
    using i by (auto simp: s0_def p_def preempt_disable_def)
  have c0: "rq_core s0" by (rule rq_core_fields [OF c]) (auto simp: s0_def preempt_disable_def)
  have on0: "on_rq (rq s0) u = on_rq (rq s) u" for u using on_rq_fields [OF s0(5)] .
  have c2: "rq_core s2" and on2: "on_rq (rq s2) u \<longleftrightarrow> runnable s u" for u
    using enqueue_core [OF c0, of p] c0 s0 i on0
    by (auto simp: s2_def runnable_def p_def split: option.splits)
  have s2: "current_thread s2 = Some p" "rq_idle (rq s2) = Some i" "preempt_cnt s2 = preempt_cnt s + 1"
    "\<And>u. t_state (threads s2 u) = t_state (threads s u)" "\<And>u. t_flags (threads s2 u) = t_flags (threads s u)"
    "\<And>u. priority (threads s2 u) = priority (threads s u)"
    using s0 by (simp_all add: s2_def)
  have eq: "schedule_pick s = (case pick_next_thread s2 of (n, s3) \<Rightarrow> (s3, Some p, n))"
    using i by (cases "current_thread s")
      (auto simp: schedule_pick_def s2_def s0_def p_def preempt_disable_def Let_def split: prod.splits)
  show ?thesis
  proof (rule pick_next_ok [OF c2 s2(2)])
    fix n s' assume *: "pick_next_thread s2 = (Some n, s')" "rq_core s'" "\<not> on_rq (rq s') n"
      "\<And>u. on_rq (rq s2) u \<longleftrightarrow> on_rq (rq s') u \<or> u = n \<and> n \<noteq> i"
      "\<And>u. on_rq (rq s') u \<Longrightarrow> n \<noteq> i \<and> priority (threads s2 n) \<le> priority (threads s2 u)"
      "threads s' = threads s2" "current_thread s' = current_thread s2"
      "rq_idle (rq s') = Some i" "preempt_cnt s' = preempt_cnt s2"
      "n \<noteq> i \<Longrightarrow> \<exists>ts. rqueue (rq s2) ! nat (priority (threads s2 n)) = n # ts"
    have strict: "priority (threads s n) < priority (threads s u)"
      if n: "current_thread s = Some n" and u: "on_rq (rq s) u" for u
    proof -
      have np: "n = p" "\<not> on_rq (rq s0) n" using n s on0 by (auto simp: p_def rq_ok_def)
      have u1: "on_rq (rq s') u" using u on2 *(4) np on0 by (auto simp: runnable_def)
      then have ni: "n \<noteq> i" "on_rq (rq s2) n" using *(4,5) by blast+
      then have "s2 = enqueue_thread_locked s0 p" using np by (auto simp: s2_def split: if_splits)
      then have "priority (threads s u) \<noteq> priority (threads s n)"
        using *(10) [OF ni(1)] enqueue_head [OF c0 np(2), of u] u on0 s0(1) s2(6) np(1) by auto
      then show ?thesis using *(5) [OF u1] s2(6) by simp
    qed
    then have "pick_ok s s' n" using *(2-9) s2 on2 i unfolding pick_ok_def by auto
    then show ?thesis using that [of s' n] eq * s2 by (simp add: p_def)
  qed
qed

lemma switch_to_rq [simp]:
  "current_thread (switch_to s p n) = Some n" "rqueue (rq (switch_to s p n)) = rqueue (rq s)"
  "rbitmap (rq (switch_to s p n)) = rbitmap (rq s)" "nr_running (rq (switch_to s p n)) = nr_running (rq s)"
  "cpu_id (rq (switch_to s p n)) = cpu_id (rq s)" "rq_idle (rq (switch_to s p n)) = rq_idle (rq s)"
  "preempt_cnt (switch_to s p n) = preempt_cnt s"
  "priority (threads (switch_to s p n) u) = priority (threads s u)"
  "t_cpu (threads (switch_to s p n) u) = t_cpu (threads s u)"
  "t_state (threads (switch_to s p n) u) = t_state (threads s u)"
  by (simp_all add: switch_to_def paging_switch_def Let_def split: option.split)

subsection \<open>Schedule\<close>

text \<open>The states \<^verbatim>\<open>schedule\<close> may leave: the invariant holds, the same threads are runnable, and the
  running one beats every queued one.\<close>

definition sched_done :: "sched_state \<Rightarrow> sched_state \<Rightarrow> bool" where
  "sched_done s s' \<longleftrightarrow> rq_ok s' \<and> rq_idle (rq s') = rq_idle (rq s) \<and> (\<forall>u. runnable s' u \<longleftrightarrow> runnable s u) \<and>
     (\<exists>n. current_thread s' = Some n \<and>
        (rq_idle (rq s) = Some n \<or> runnable s n) \<and>
        (\<forall>u. on_rq (rq s') u \<longrightarrow> rq_idle (rq s) \<noteq> Some n \<and>
           priority (threads s' n) \<le> priority (threads s' u)))"

lemma pick_ok_done:
  assumes pk: "pick_ok s s1 n" and s: "rq_ok s" and i: "rq_idle (rq s) = Some i"
    and s': "current_thread s' = Some n" "rq_core s'" "\<And>u. on_rq (rq s') u = on_rq (rq s1) u"
      "rq_idle (rq s') = rq_idle (rq s1)" "\<And>u. priority (threads s' u) = priority (threads s1 u)"
      "\<And>u. t_state (threads s' u) = t_state (threads s1 u)"
  shows "sched_done s s'"
proof -
  have run: "t_state (threads s u) = TASK_RUNNING" if "runnable s u" for u
    using that s on_rq_prio(4) [of s u] by (auto simp: runnable_def rq_ok_def)
  have r: "runnable s' u \<longleftrightarrow> runnable s u" for u
    using pk run [of n] s' i by (auto simp: pick_ok_def runnable_def [of s'])
  show ?thesis
    unfolding sched_done_def using pk s' r i by (auto simp: pick_ok_def rq_ok_def)
qed

lemma preempt_dec_sel [simp]:
  "threads (preempt_dec s) = threads s" "rq (preempt_dec s) = rq s"
  "current_thread (preempt_dec s) = current_thread s"
  by (simp_all add: preempt_dec_def)

lemma sched_done_trans: "sched_done s s1 \<Longrightarrow> sched_done s1 s2 \<Longrightarrow> sched_done s s2"
  by (auto simp: sched_done_def)

lemma schedule_pick_switch:
  assumes s: "rq_ok s" "rq_idle (rq s) = Some i" and p: "schedule_pick s = (s1, prev, next)"
  shows "\<exists>p n. prev = Some p \<and> next = Some n \<and> sched_done s (switch_to s1 p n) \<and>
    (n = p \<longrightarrow> sched_done s (preempt_dec s1))"
proof (rule schedule_pick_ok [OF s])
  fix n s1'
  define p where "p = (case current_thread s of Some p \<Rightarrow> p | None \<Rightarrow> i)"
  assume "schedule_pick s = (s1', Some (case current_thread s of Some p \<Rightarrow> p | None \<Rightarrow> i), Some n)"
    "pick_ok s s1' n" "current_thread s1' = Some (case current_thread s of Some p \<Rightarrow> p | None \<Rightarrow> i)"
  then have *: "s1' = s1" "prev = Some p" "next = Some n" "pick_ok s s1 n" "current_thread s1 = Some p"
    using p by (simp_all add: p_def)
  have c: "rq_core s1" using *(4) by (simp add: pick_ok_def)
  have "rq_core (switch_to s1 p n)" using c by (simp add: rq_core_def queued_ok_def)
  then have "sched_done s (switch_to s1 p n)"
    by (intro pick_ok_done [OF *(4) s]) (simp_all add: on_rq_def)
  moreover have "sched_done s (preempt_dec s1)" if "n = p"
    using that *(5) rq_core_fields [OF c, of "preempt_dec s1"]
    by (intro pick_ok_done [OF *(4) s]) simp_all
  ultimately show ?thesis using * by blast
qed

lemma schedule_done:
  assumes "schedule s = Some r"
  shows "rq_ok s \<longrightarrow> rq_idle (rq s) = Some i \<longrightarrow> (\<exists>s'. r = Sched_ret s' \<and> sched_done s s')"
proof (rule schedule.raw_induct [OF _ assms, where P =
    "\<lambda>s r. rq_ok s \<longrightarrow> rq_idle (rq s) = Some i \<longrightarrow> (\<exists>s'. r = Sched_ret s' \<and> sched_done s s')"], intro impI)
  fix sch s r
  assume IH: "\<And>s r. sch s = Some r \<Longrightarrow>
      rq_ok s \<longrightarrow> rq_idle (rq s) = Some i \<longrightarrow> (\<exists>s'. r = Sched_ret s' \<and> sched_done s s')"
    and body: "(case schedule_pick s of (s1, prev, next) \<Rightarrow>
          if next \<noteq> prev
          then (case (prev, next) of (Some p, Some n) \<Rightarrow> Some (Sched_ret (switch_to s1 p n))
                | _ \<Rightarrow> Some Sched_fault)
          else let s2 = preempt_dec s1 in if need_resched s2 then sch s2 else Some (Sched_ret s2)) = Some r"
    and s: "rq_ok s" "rq_idle (rq s) = Some i"
  obtain s1 prev nxt where p: "schedule_pick s = (s1, prev, nxt)" by (metis prod_cases3)
  from schedule_pick_switch [OF s p] obtain p n where
    pn: "prev = Some p" "nxt = Some n" "sched_done s (switch_to s1 p n)"
      "n = p \<longrightarrow> sched_done s (preempt_dec s1)" by auto
  show "\<exists>s'. r = Sched_ret s' \<and> sched_done s s'"
  proof (cases "n = p \<and> need_resched (preempt_dec s1)")
    case True
    then have d: "sched_done s (preempt_dec s1)" and "sch (preempt_dec s1) = Some r"
      using body p pn by simp_all
    then obtain s' where "r = Sched_ret s'" "sched_done (preempt_dec s1) s'"
      using IH [of "preempt_dec s1" r] s(2) by (auto simp: sched_done_def)
    then show ?thesis using sched_done_trans [OF d] by blast
  next
    case False
    then show ?thesis using body p pn by (auto simp: Let_def split: if_splits)
  qed
qed

text \<open>The states in which \<^verbatim>\<open>schedule\<close> calls itself for ever: the caller wants to reschedule, is not
  protected by a preemption count, and no other thread may take the processor from it.\<close>

definition sched_stuck :: "sched_state \<Rightarrow> bool" where
  "sched_stuck s \<longleftrightarrow> need_resched s \<and>
     (case current_thread s of
        None \<Rightarrow> False
      | Some p \<Rightarrow> (runnable s p \<or> rq_idle (rq s) = Some p) \<and>
          (\<forall>u. on_rq (rq s) u \<longrightarrow> rq_idle (rq s) \<noteq> Some p \<and>
             priority (threads s p) < priority (threads s u)))"

lemma pick_ok_need_resched:
  assumes "pick_ok s s1 p" "current_thread s = Some p" "current_thread s1 = Some p" "0 \<le> preempt_cnt s"
  shows "need_resched (preempt_dec s1) = need_resched s"
  using assms by (simp add: pick_ok_def need_resched_def preempt_dec_def)

lemma stuck_pick:
  assumes s: "rq_ok s" "rq_idle (rq s) = Some i" "sched_stuck s" and pk: "pick_ok s s1 n"
    and p: "current_thread s = Some p"
  shows "n = p"
proof (rule ccontr)
  assume ne: "n \<noteq> p"
  have st: "runnable s p \<or> i = p" "\<And>u. on_rq (rq s) u \<Longrightarrow> i \<noteq> p \<and> priority (threads s p) < priority (threads s u)"
    using s(2,3) p by (auto simp: sched_stuck_def)
  have on: "on_rq (rq s) u \<longleftrightarrow> runnable s u" if "u \<noteq> p" for u using that p by (auto simp: runnable_def)
  have rn: "runnable s n \<longleftrightarrow> i \<noteq> n" using pk s(2) by (auto simp: pick_ok_def)
  have "i \<noteq> p" using st(2) [of n] rn on [OF ne] ne by auto
  then have "on_rq (rq s1) p" using st(1) pk ne by (auto simp: pick_ok_def)
  then have "i \<noteq> n \<and> priority (threads s n) \<le> priority (threads s p)"
    using pk s(2) by (auto simp: pick_ok_def)
  then show False using st(2) [of n] on [OF ne] rn by auto
qed

lemma stuck_again:
  assumes s: "rq_ok s" "rq_idle (rq s) = Some i" "sched_stuck s" and pk: "pick_ok s s1 p"
    and p: "current_thread s = Some p" "current_thread s1 = Some p"
  shows "sched_stuck (preempt_dec s1)"
proof -
  have cnt: "preempt_cnt s = 0" and nr: "need_resched s" using s(3) by (simp_all add: sched_stuck_def need_resched_def)
  then have "need_resched (preempt_dec s1)" using pick_ok_need_resched [OF pk p] by simp
  moreover have "runnable s1 p \<or> i = p"
    using s pk p by (auto simp: sched_stuck_def pick_ok_def runnable_def rq_ok_def)
  moreover have "on_rq (rq s) u" if "on_rq (rq s1) u" for u
    using that pk p s(1) by (auto simp: pick_ok_def runnable_def)
  ultimately show ?thesis using s(2,3) pk p by (auto simp: sched_stuck_def pick_ok_def runnable_def)
qed

lemma schedule_stuck:
  assumes "schedule s = Some r"
  shows "rq_ok s \<longrightarrow> rq_idle (rq s) = Some i \<longrightarrow> \<not> sched_stuck s"
proof (rule schedule.raw_induct [OF _ assms, where P =
    "\<lambda>s r. rq_ok s \<longrightarrow> rq_idle (rq s) = Some i \<longrightarrow> \<not> sched_stuck s"], intro impI notI)
  fix sch s r
  assume IH: "\<And>s r. sch s = Some r \<Longrightarrow> rq_ok s \<longrightarrow> rq_idle (rq s) = Some i \<longrightarrow> \<not> sched_stuck s"
    and body: "(case schedule_pick s of (s1, prev, next) \<Rightarrow>
          if next \<noteq> prev
          then (case (prev, next) of (Some p, Some n) \<Rightarrow> Some (Sched_ret (switch_to s1 p n))
                | _ \<Rightarrow> Some Sched_fault)
          else let s2 = preempt_dec s1 in if need_resched s2 then sch s2 else Some (Sched_ret s2)) = Some r"
    and s: "rq_ok s" "rq_idle (rq s) = Some i" "sched_stuck s"
  from s(3) obtain p where p: "current_thread s = Some p" "need_resched s"
    by (auto simp: sched_stuck_def split: option.splits)
  show False
  proof (rule schedule_pick_ok [OF s(1,2)], unfold p option.case)
    fix n s1 assume *: "schedule_pick s = (s1, Some p, Some n)" "pick_ok s s1 n" "current_thread s1 = Some p"
    have n: "n = p" using stuck_pick [OF s *(2) p(1)] .
    have st: "sched_stuck (preempt_dec s1)" using stuck_again [OF s _ p(1) *(3)] *(2) n by blast
    then have "sch (preempt_dec s1) = Some r" using body * n by (simp add: sched_stuck_def)
    moreover have "sched_done s (preempt_dec s1)"
      using schedule_pick_switch [OF s(1,2) *(1)] n by simp
    ultimately show False using IH st s(2) by (auto simp: sched_done_def)
  qed
qed

lemma schedule_returns:
  assumes s: "rq_ok s" "rq_idle (rq s) = Some i" "current_thread s = Some p" "0 \<le> preempt_cnt s"
    and none: "schedule s = None"
  shows "sched_stuck s"
proof (rule schedule_pick_ok [OF s(1,2)], unfold s option.case)
  fix n s1 assume *: "schedule_pick s = (s1, Some p, Some n)" "pick_ok s s1 n" "current_thread s1 = Some p"
  have n: "n = p" and "need_resched (preempt_dec s1)"
    using none * by (subst (asm) (1) schedule.simps; simp add: Let_def split: if_splits)+
  then have "need_resched s" using pick_ok_need_resched [OF _ s(3) _ s(4)] * by simp
  moreover have "on_rq (rq s) u \<Longrightarrow> runnable s u" for u by (simp add: runnable_def)
  ultimately show ?thesis using *(2) n s by (auto simp: sched_stuck_def pick_ok_def)
qed

subsection \<open>Sleeping and waking\<close>

lemma sched_wakeup_core:
  assumes s: "rq_core s" and t: "rq_idle (rq s) \<noteq> Some t"
  shows "rq_core (sched_wakeup s t)"
    and "on_rq (rq (sched_wakeup s t)) u \<longleftrightarrow>
      on_rq (rq s) u \<or> u = t \<and> t_state (threads s t) \<noteq> TASK_RUNNING \<and> current_thread s \<noteq> Some t"
proof -
  let ?s = "upd_thread s t (\<lambda>th. th\<lparr>t_state := TASK_RUNNING, time_slice := DEFAULT_TIME_SLICE\<rparr>)"
  have c: "rq_core ?s" by (rule rq_core_upd_thread [OF s]) (auto dest: on_rq_prio [OF s])
  show "rq_core (sched_wakeup s t)"
    using s c sched_add_core(1) [OF c, of t] t by (simp add: sched_wakeup_def Let_def)
  show "on_rq (rq (sched_wakeup s t)) u \<longleftrightarrow>
      on_rq (rq s) u \<or> u = t \<and> t_state (threads s t) \<noteq> TASK_RUNNING \<and> current_thread s \<noteq> Some t"
    using sched_add_core(2) [OF c, of t u] t by (auto simp: sched_wakeup_def Let_def)
qed

lemma sched_wakeup_state:
  "t_state (threads (sched_wakeup s t) u) = (if u = t then TASK_RUNNING else t_state (threads s u))"
  "wait_channel (threads (sched_wakeup s t) u) = wait_channel (threads s u)"
  by (simp_all add: sched_wakeup_def sched_add_def Let_def enqueue_thread_locked_def)

lemma rq_ok_wakeup: "rq_ok s \<Longrightarrow> rq_idle (rq s) \<noteq> Some t \<Longrightarrow> rq_ok (sched_wakeup s t)"
  using sched_wakeup_core [of s t] by (auto simp: rq_ok_def)

definition sleeping_on :: "sched_state \<Rightarrow> wait_chan \<Rightarrow> nat \<Rightarrow> bool" where
  "sleeping_on s ch t \<longleftrightarrow> wait_channel (threads s t) = Some ch \<and>
     (t_state (threads s t) = TASK_INTERRUPTIBLE \<or> t_state (threads s t) = TASK_UNINTERRUPTIBLE)"

lemma wakeup_one_eq:
  "thread_wakeup_one ch t s = (if sleeping_on s ch t then sched_wakeup s t else s)"
  by (simp add: thread_wakeup_one_def sleeping_on_def)

lemma fold_wakeup_sel [simp]:
  "current_thread (fold (thread_wakeup_one ch) ts s) = current_thread s"
  "all_threads (fold (thread_wakeup_one ch) ts s) = all_threads s"
  "wait_queues (fold (thread_wakeup_one ch) ts s) = wait_queues s"
  "rq_idle (rq (fold (thread_wakeup_one ch) ts s)) = rq_idle (rq s)"
  by (induction ts arbitrary: s) (simp_all add: wakeup_one_eq)

lemma fold_wakeup:
  assumes "rq_ok s" "\<forall>t \<in> set ts. rq_idle (rq s) \<noteq> Some t"
  shows "rq_ok (fold (thread_wakeup_one ch) ts s) \<and>
    t_state (threads (fold (thread_wakeup_one ch) ts s) u) =
      (if u \<in> set ts \<and> sleeping_on s ch u then TASK_RUNNING else t_state (threads s u)) \<and>
    (on_rq (rq (fold (thread_wakeup_one ch) ts s)) u \<longleftrightarrow>
      on_rq (rq s) u \<or> u \<in> set ts \<and> sleeping_on s ch u \<and> current_thread s \<noteq> Some u)"
  using assms
proof (induction ts arbitrary: s)
  case (Cons t ts)
  let ?s = "thread_wakeup_one ch t s"
  have c: "rq_core s" using Cons.prems by (simp add: rq_ok_def)
  have p: "rq_ok ?s" "\<forall>t \<in> set ts. rq_idle (rq ?s) \<noteq> Some t" "current_thread ?s = current_thread s"
    using Cons.prems rq_ok_wakeup by (simp_all add: wakeup_one_eq)
  have sl: "sleeping_on ?s ch u \<longleftrightarrow> sleeping_on s ch u \<and> u \<noteq> t"
    by (auto simp: wakeup_one_eq sleeping_on_def sched_wakeup_state)
  have st: "t_state (threads ?s u) =
      (if u = t \<and> sleeping_on s ch u then TASK_RUNNING else t_state (threads s u))"
    by (auto simp: wakeup_one_eq sched_wakeup_state)
  have "on_rq (rq ?s) u \<longleftrightarrow> on_rq (rq s) u \<or> u = t \<and> sleeping_on s ch t \<and> current_thread s \<noteq> Some t"
    using sched_wakeup_core(2) [OF c, of t u] Cons.prems(2) by (auto simp: wakeup_one_eq sleeping_on_def)
  then show ?case using Cons.IH [OF p(1,2)] sl st p(3) by auto
qed simp

text \<open>The same for \<^verbatim>\<open>wake_up_all\<close>: it empties the queue.\<close>

lemma wake_up_all_ok:
  assumes "rq_ok s" "\<forall>t \<in> set (wait_queues s wq). rq_idle (rq s) \<noteq> Some t"
  shows "rq_ok (wake_up_all s wq) \<and> current_thread (wake_up_all s wq) = current_thread s \<and>
    rq_idle (rq (wake_up_all s wq)) = rq_idle (rq s) \<and> all_threads (wake_up_all s wq) = all_threads s \<and>
    wait_queues (wake_up_all s wq) = (wait_queues s)(wq := []) \<and>
    t_state (threads (wake_up_all s wq) u) =
      (if u \<in> set (wait_queues s wq) then TASK_RUNNING else t_state (threads s u))"
  using assms
proof (induction s wq rule: wake_up_all.induct)
  case (1 s wq)
  show ?case
  proof (cases "wait_queues s wq")
    case Nil
    then show ?thesis using 1(2) by (subst (1 2 3 4 5 6) wake_up_all.simps) (simp add: fun_upd_idem)
  next
    case (Cons t ts)
    let ?s0 = "s\<lparr>wait_queues := (wait_queues s)(wq := ts)\<rparr>"
    have "rq_ok ?s0" using 1(2) rq_core_fields [of s ?s0] by (simp add: rq_ok_def)
    then have ok: "rq_ok (sched_wakeup ?s0 t)" using 1(3) Cons rq_ok_wakeup by simp
    show ?thesis
      using 1(1) [OF Cons ok] 1(3) Cons
      by (subst (1 2 3 4 5 6) wake_up_all.simps) (auto simp: sched_wakeup_state)
  qed
qed

subsection \<open>All sequences of operations\<close>

text \<open>
  The steps of the running scheduler, with the conditions its callers keep: a thread is added
  when it is neither running nor the idle thread, the idle thread neither sleeps nor waits, and
  it is in no list of threads. Time passes by \<open>Tick\<close>.
\<close>

inductive sched_step :: "sched_state \<Rightarrow> sched_state \<Rightarrow> bool" where
  Add: "current_thread s \<noteq> Some t \<Longrightarrow> rq_idle (rq s) \<noteq> Some t \<Longrightarrow> sched_step s (sched_add s t)"
| Remove: "sched_step s (sched_remove s t)"
| Schedule: "schedule s = Some (Sched_ret s') \<Longrightarrow> sched_step s s'"
| Yield: "sched_yield s = Some (Sched_ret s') \<Longrightarrow> sched_step s s'"
| Disable: "sched_step s (preempt_disable s)"
| Enable: "preempt_enable s = Some (Sched_ret s') \<Longrightarrow> sched_step s s'"
| Tick: "sched_step s (sched_tick s)"
| Wakeup: "rq_idle (rq s) \<noteq> Some t \<Longrightarrow> sched_step s (sched_wakeup s t)"
| Set_priority: "sched_step s (sched_set_priority s t prio)"
| Set_nice: "sched_step s (sched_set_nice s t nc)"
| Sleep: "current_thread s \<noteq> rq_idle (rq s) \<Longrightarrow> thread_sleep s ch = Some (Sched_ret s') \<Longrightarrow> sched_step s s'"
| Sleep_resume: "sched_step s (thread_sleep_resume s t)"
| Wakeup_chan: "sched_step s (thread_wakeup s ch)"
| Wait: "current_thread s = Some t \<Longrightarrow> rq_idle (rq s) \<noteq> Some t \<Longrightarrow>
    schedule (wait_event_prepare s wq t) = Some (Sched_ret s') \<Longrightarrow> sched_step s s'"
| Wait_resume: "sched_step s (wait_event_resume s wq t)"
| Wake_up: "sched_step s (wake_up s wq)"
| Wake_up_all: "sched_step s (wake_up_all s wq)"

definition sched_inv :: "nat \<Rightarrow> sched_state \<Rightarrow> bool" where
  "sched_inv i s \<longleftrightarrow> rq_ok s \<and> rq_idle (rq s) = Some i \<and> i \<notin> set (all_threads s) \<and>
     (\<forall>wq. i \<notin> set (wait_queues s wq))"

lemma switch_to_frame [simp]:
  "all_threads (switch_to s p n) = all_threads s" "wait_queues (switch_to s p n) = wait_queues s"
  by (simp_all add: switch_to_def paging_switch_def Let_def split: option.split)

lemma schedule_pick_frame:
  "schedule_pick s = (s1, p, n) \<Longrightarrow> all_threads s1 = all_threads s \<and> wait_queues s1 = wait_queues s"
  by (auto simp: schedule_pick_def pick_next_thread_def preempt_disable_def Let_def
    split: if_splits option.splits list.splits)

lemma preempt_dec_frame [simp]:
  "all_threads (preempt_dec s) = all_threads s" "wait_queues (preempt_dec s) = wait_queues s"
  by (simp_all add: preempt_dec_def)

lemma schedule_frame:
  assumes "schedule s = Some r"
  shows "\<forall>s'. r = Sched_ret s' \<longrightarrow> all_threads s' = all_threads s \<and> wait_queues s' = wait_queues s"
  by (rule schedule.raw_induct [OF _ assms, where P = "\<lambda>s r. \<forall>s'. r = Sched_ret s' \<longrightarrow>
      all_threads s' = all_threads s \<and> wait_queues s' = wait_queues s"])
    (fastforce simp: Let_def dest: schedule_pick_frame split: prod.splits if_splits option.splits)

lemma schedule_inv:
  assumes "schedule s = Some (Sched_ret s')" "rq_ok s" "rq_idle (rq s) = Some i"
    "i \<notin> set (all_threads s)" "\<forall>wq. i \<notin> set (wait_queues s wq)"
  shows "sched_inv i s'"
  using schedule_done [OF assms(1), of i] schedule_frame [OF assms(1)] assms
  by (auto simp: sched_inv_def sched_done_def)

lemma rq_ok_upd_flags:
  "rq_ok s \<Longrightarrow> (\<And>th. priority (f th) = priority th \<and> t_cpu (f th) = t_cpu th \<and> t_state (f th) = t_state th) \<Longrightarrow>
   rq_ok (upd_thread s t f)"
  unfolding rq_ok_def using rq_core_upd_thread [of s f t] by simp

lemma rq_ok_fields:
  assumes "rq_ok s" "threads s' = threads s" "rqueue (rq s') = rqueue (rq s)"
   "rbitmap (rq s') = rbitmap (rq s)" "cpu_id (rq s') = cpu_id (rq s)"
   "nr_running (rq s') = nr_running (rq s)" "rq_idle (rq s') = rq_idle (rq s)"
   "current_thread s' = current_thread s"
  shows "rq_ok s'"
  using assms rq_core_fields [of s s'] by (simp add: rq_ok_def on_rq_fields [OF assms(3)])

lemma rq_ok_cong:
  assumes "rq_ok s"
    and "\<And>u. priority (threads s' u) = priority (threads s u) \<and> t_cpu (threads s' u) = t_cpu (threads s u) \<and>
      t_state (threads s' u) = t_state (threads s u)"
    and "rqueue (rq s') = rqueue (rq s)"
   "rbitmap (rq s') = rbitmap (rq s)" "cpu_id (rq s') = cpu_id (rq s)"
   "nr_running (rq s') = nr_running (rq s)" "rq_idle (rq s') = rq_idle (rq s)"
   "current_thread s' = current_thread s"
  shows "rq_ok s'"
  using assms by (simp add: rq_ok_def rq_core_def queued_ok_def on_rq_fields [OF assms(3)])

lemma set_priority_sel [simp]:
  "current_thread (sched_set_priority s t p) = current_thread s"
  "all_threads (sched_set_priority s t p) = all_threads s"
  "wait_queues (sched_set_priority s t p) = wait_queues s"
  "rq_idle (rq (sched_set_priority s t p)) = rq_idle (rq s)"
  by (simp_all add: sched_set_priority_def Let_def)

lemma rq_ok_set_priority: "rq_ok s \<Longrightarrow> rq_ok (sched_set_priority s t p)"
  using sched_set_priority_core by (simp add: rq_ok_def)

lemma sched_remove_sel [simp]:
  "all_threads (sched_remove s t) = all_threads s" "wait_queues (sched_remove s t) = wait_queues s"
  "current_thread (sched_remove s t) = current_thread s"
  "rq_idle (rq (sched_remove s t)) = rq_idle (rq s)"
  by (simp_all add: sched_remove_def Let_def)

lemma rq_ok_remove: "rq_ok s \<Longrightarrow> rq_ok (sched_remove s t)"
  using sched_remove_core(1,2) [of s t] by (simp add: rq_ok_def)

lemma rq_ok_sleep:
  assumes "rq_ok s" "current_thread s = Some t"
  shows "rq_ok (upd_thread s t (\<lambda>th. th\<lparr>wait_channel := c, t_state := st\<rparr>))"
    and "rq_ok (upd_thread s t (\<lambda>th. th\<lparr>t_state := st\<rparr>))"
  using assms rq_core_upd_thread [of s "\<lambda>th. th\<lparr>wait_channel := c, t_state := st\<rparr>" t]
    rq_core_upd_thread [of s "\<lambda>th. th\<lparr>t_state := st\<rparr>" t]
  by (simp_all add: rq_ok_def)

lemma sched_tick_ok:
  "rq_ok s \<Longrightarrow> rq_ok (sched_tick s)" "rq_idle (rq (sched_tick s)) = rq_idle (rq s)"
  "all_threads (sched_tick s) = all_threads s" "wait_queues (sched_tick s) = wait_queues s"
  by (erule rq_ok_cong; simp add: sched_tick_def Let_def split: option.split)
    (simp_all add: sched_tick_def Let_def split: option.split)

lemma wake_up_ok:
  assumes "rq_ok s" "\<forall>t \<in> set (wait_queues s wq). rq_idle (rq s) \<noteq> Some t"
  shows "rq_ok (wake_up s wq)"
proof -
  have "rq_ok (s\<lparr>wait_queues := f\<rparr>)" for f by (rule rq_ok_fields [OF assms(1)]) simp_all
  then show ?thesis using assms rq_ok_wakeup
    by (auto simp: wake_up_def split: list.split)
qed

lemma wake_up_sel:
  "current_thread (wake_up s wq) = current_thread s" "rq_idle (rq (wake_up s wq)) = rq_idle (rq s)"
  "all_threads (wake_up s wq) = all_threads s" "set (wait_queues (wake_up s wq) w) \<subseteq> set (wait_queues s w)"
  by (auto simp: wake_up_def split: list.split if_splits)

lemma sched_step_inv_sched:
  assumes "sched_inv i s"
  shows "schedule s = Some (Sched_ret s') \<Longrightarrow> sched_inv i s'"
    and "sched_yield s = Some (Sched_ret s') \<Longrightarrow> sched_inv i s'"
    and "preempt_enable s = Some (Sched_ret s') \<Longrightarrow> sched_inv i s'"
proof -
  note s = assms [unfolded sched_inv_def]
  show "schedule s = Some (Sched_ret s') \<Longrightarrow> sched_inv i s'" using s schedule_inv by blast
  show "sched_inv i s'" if y: "sched_yield s = Some (Sched_ret s')"
  proof -
    obtain t where "schedule (upd_thread s t (\<lambda>th. th\<lparr>t_flags := t_flags th OR TF_NEED_RESCHED\<rparr>)) =
        Some (Sched_ret s')"
      using y by (auto simp: sched_yield_def split: option.splits)
    then show ?thesis by (rule schedule_inv) (use s in \<open>simp_all add: rq_ok_upd_flags\<close>)
  qed
  have "rq_ok (preempt_dec s)" using s rq_ok_fields [of s "preempt_dec s"] by simp
  then show "preempt_enable s = Some (Sched_ret s') \<Longrightarrow> sched_inv i s'"
    using s schedule_inv [of "preempt_dec s" s' i]
    by (auto simp: preempt_enable_def Let_def sched_inv_def split: if_splits)
qed

lemma sched_step_inv_sleep:
  assumes "sched_inv i s" "current_thread s = Some t" "t \<noteq> i"
  shows "schedule (thread_sleep_prepare s t ch) = Some (Sched_ret s') \<Longrightarrow> sched_inv i s'"
    and "schedule (wait_event_prepare s wq t) = Some (Sched_ret s') \<Longrightarrow> sched_inv i s'"
proof -
  note s = assms(1) [unfolded sched_inv_def]
  let ?w = "s\<lparr>wait_queues := (wait_queues s)(wq := wait_queues s wq @ [t])\<rparr>"
  have w: "rq_ok ?w" by (rule rq_ok_fields [of s]) (use s in simp_all)
  have "rq_ok (thread_sleep_prepare s t ch)" "rq_ok (wait_event_prepare s wq t)"
    using rq_ok_remove rq_ok_sleep [of s t] rq_ok_sleep(2) [OF w] s assms(2)
    by (simp_all add: thread_sleep_prepare_def wait_event_prepare_def)
  moreover have "all_threads (thread_sleep_prepare s t ch) = all_threads s"
    "all_threads (wait_event_prepare s wq t) = all_threads s"
    "wait_queues (thread_sleep_prepare s t ch) = wait_queues s"
    "wait_queues (wait_event_prepare s wq t) = (wait_queues s)(wq := wait_queues s wq @ [t])"
    "rq_idle (rq (thread_sleep_prepare s t ch)) = Some i" "rq_idle (rq (wait_event_prepare s wq t)) = Some i"
    using s by (simp_all add: thread_sleep_prepare_def wait_event_prepare_def)
  ultimately show "schedule (thread_sleep_prepare s t ch) = Some (Sched_ret s') \<Longrightarrow> sched_inv i s'"
    "schedule (wait_event_prepare s wq t) = Some (Sched_ret s') \<Longrightarrow> sched_inv i s'"
    using s assms(3) by (auto elim!: schedule_inv split: if_splits)
qed

lemma sched_step_inv:
  assumes "sched_step s s'" "sched_inv i s"
  shows "sched_inv i s'"
  using assms
proof (induction rule: sched_step.induct)
  case (Add s t)
  then have "rq_ok (sched_add s t)"
    using sched_add_core [of s t] by (auto simp: sched_inv_def rq_ok_def sched_add_def)
  with Add show ?case by (simp add: sched_inv_def sched_add_def)
next
  case (Sleep s ch s')
  then show ?case using sched_step_inv_sleep(1) [of i s _ ch s']
    by (cases "current_thread s") (auto simp: thread_sleep_def sched_inv_def)
next
  case (Wait s t wq s')
  then show ?case using sched_step_inv_sleep(2) [of i s t wq s'] by (auto simp: sched_inv_def)
next
  case (Set_nice s t nc)
  then show ?case by (auto simp: sched_set_nice_def Let_def sched_inv_def intro!: rq_ok_set_priority rq_ok_upd_flags)
next
  case (Wakeup_chan s ch)
  then show ?case using fold_wakeup [of s "all_threads s" ch] by (auto simp: thread_wakeup_def sched_inv_def)
next
  case (Wait_resume s wq t)
  then show ?case using rq_ok_fields [of s "wait_event_resume s wq t"]
    by (auto simp: wait_event_resume_def sched_inv_def dest: notin_set_remove1)
next
  case (Wake_up s wq)
  then show ?case using wake_up_ok [of s wq] wake_up_sel [of s wq] by (auto simp: sched_inv_def)
next
  case (Wake_up_all s wq)
  then have "\<forall>t \<in> set (wait_queues s wq). rq_idle (rq s) \<noteq> Some t" by (auto simp: sched_inv_def)
  then show ?case using wake_up_all_ok [of s wq] Wake_up_all by (auto simp: sched_inv_def)
next
  case (Disable s)
  then show ?case using rq_ok_fields [of s "preempt_disable s"] by (simp add: preempt_disable_def sched_inv_def)
next
  case (Sleep_resume s t)
  then show ?case by (simp add: thread_sleep_resume_def sched_inv_def rq_ok_upd_flags)
next
  case (Schedule s s')
  then show ?case using sched_step_inv_sched(1) by blast
next
  case (Yield s s')
  then show ?case using sched_step_inv_sched(2) by blast
next
  case (Enable s s')
  then show ?case using sched_step_inv_sched(3) by blast
qed (simp_all add: sched_inv_def rq_ok_remove rq_ok_set_priority rq_ok_wakeup sched_tick_ok)

text \<open>What \<^verbatim>\<open>sched_init\<close> sets up, given threads with legal priorities.\<close>

lemma sched_init_inv:
  assumes "\<And>t. 0 \<le> priority (threads s t) \<and> priority (threads s t) < int MAX_PRIO"
    "i \<notin> set (all_threads s)" "\<And>wq. i \<notin> set (wait_queues s wq)"
  shows "sched_inv i (sched_init s (Some i))"
proof -
  let ?s = "sched_init s (Some i)"
  have f: "rqueue (rq ?s) = replicate MAX_PRIO []" "rbitmap (rq ?s) = replicate 3 0"
    "cpu_id (rq ?s) = 0" "nr_running (rq ?s) = 0"
    by (simp_all add: sched_init_def rq_init_def Let_def)
  have "qb_ok (rqueue (rq ?s)) (rbitmap (rq ?s))"
    unfolding f by (auto simp: qb_ok_def word_test_bit MAX_PRIO_def)
  moreover have "0 \<le> priority (threads ?s t)" "priority (threads ?s t) < int MAX_PRIO" for t
    using assms(1) by (auto simp: sched_init_def create_idle_thread_def MAX_PRIO_def Let_def)
  ultimately have "rq_core ?s"
    by (intro rq_coreI) (simp_all add: f)
  then show ?thesis
    using assms by (simp add: sched_inv_def rq_ok_def on_rq_def list_ex_iff f)
      (simp add: sched_init_def Let_def MAX_PRIO_def)
qed

subsection \<open>Properties\<close>

text \<open>The state the examples start from: the idle thread 0 runs, no thread is queued, and all threads
  have the default priority.\<close>

definition ex_thread :: thread where
  "ex_thread = (create_idle_thread 0)\<lparr>priority := DEFAULT_PRIO, t_flags := 0, t_state := TASK_INTERRUPTIBLE,
     wait_channel := Some (Chan 7)\<rparr>"

definition ex_raw :: sched_state where
  "ex_raw = \<lparr>threads = (\<lambda>_. ex_thread), rq = rq_init 0, current_thread = None, preempt_cnt = 0,
     global_ticks = 0, boot_time_ns = 0, all_threads = [1, 2], wait_queues = (\<lambda>_. []),
     process_mm = (\<lambda>_. None), mm_pml4_phys = (\<lambda>_. 0), cr3 = 0, current_as = None,
     percpu_kernel_rsp = 0, tss_rsp0 = 0\<rparr>"

definition ex_boot :: sched_state where
  "ex_boot = sched_init ex_raw (Some 0)"

lemma ex_boot_inv: "sched_inv 0 ex_boot"
  unfolding ex_boot_def
  by (rule sched_init_inv) (simp_all add: ex_raw_def ex_thread_def sched_const)

lemma ex_add_inv: "sched_inv 0 (sched_add ex_boot 1)"
  by (rule sched_step_inv [OF sched_step.Add ex_boot_inv])
    (simp_all add: ex_boot_def sched_init_def Let_def)

text \<open>
  C11: Whenever \<^verbatim>\<open>schedule\<close> returns, it has not faulted and keeps the run queue invariant; exactly
  the threads that wanted the processor before still want it, none is lost or queued twice;
  and the thread that runs is one of them, with a priority no queued thread beats, or the
  idle thread when nothing is queued.
\<close>

theorem schedule_picks_best:
  assumes "sched_inv i s" "schedule s = Some r"
  shows "\<exists>s' n. r = Sched_ret s' \<and> sched_inv i s' \<and> current_thread s' = Some n \<and>
    (n = i \<or> runnable s n) \<and>
    (\<forall>u. on_rq (rq s') u \<longrightarrow> n \<noteq> i \<and> priority (threads s' n) \<le> priority (threads s' u)) \<and>
    (\<forall>u. runnable s' u \<longleftrightarrow> runnable s u)"
proof -
  obtain s' where s': "r = Sched_ret s'" "sched_done s s'"
    using schedule_done [OF assms(2)] assms(1) by (auto simp: sched_inv_def)
  then have "sched_inv i s'" using sched_step_inv_sched(1) assms by blast
  then show ?thesis using s' assms(1) by (auto simp: sched_done_def sched_inv_def)
qed

theorem schedule_picks_best_witness:
  "\<exists>s' n. schedule (sched_add ex_boot 1) = Some (Sched_ret s') \<and> sched_inv 0 s' \<and>
     current_thread s' = Some n \<and> n = 1"
proof -
  have r: "map_option (\<lambda>r. case r of Sched_ret s' \<Rightarrow> current_thread s' | Sched_fault \<Rightarrow> None)
      (schedule (sched_add ex_boot 1)) = Some (Some 1)" by code_simp
  then obtain x where x: "schedule (sched_add ex_boot 1) = Some x" by (auto simp: map_option_case split: option.splits)
  show ?thesis using schedule_picks_best [OF ex_add_inv x] r x by auto
qed

text \<open>
  C13: \<^verbatim>\<open>schedule\<close> fails to return in exactly one situation: its caller is marked
  \<^verbatim>\<open>TF_NEED_RESCHED\<close> with a preemption count of 0 and every queued thread has a worse priority.
  Then the caller is chosen again, the mark is not cleared because no switch happens, and
  \<^verbatim>\<open>preempt_enable\<close> calls \<^verbatim>\<open>schedule\<close> again without end. In every other state the call returns.
\<close>

theorem schedule_returns_iff:
  assumes "sched_inv i s" "current_thread s = Some p" "0 \<le> preempt_cnt s"
  shows "schedule s = None \<longleftrightarrow> need_resched s \<and> (runnable s p \<or> p = i) \<and>
    (\<forall>u. on_rq (rq s) u \<longrightarrow> p \<noteq> i \<and> priority (threads s p) < priority (threads s u))"
proof -
  have s: "rq_ok s" "rq_idle (rq s) = Some i" using assms(1) by (simp_all add: sched_inv_def)
  have "schedule s = None \<longleftrightarrow> sched_stuck s"
    using schedule_returns [OF s assms(2,3)] schedule_stuck [of s _ i] s by (cases "schedule s") auto
  then show ?thesis using s(2) assms(2) by (auto simp: sched_stuck_def)
qed

theorem schedule_returns_iff_witness:
  "schedule (sched_add ex_boot 1) \<noteq> None"
proof -
  have c: "current_thread (sched_add ex_boot 1) = Some 0" "preempt_cnt (sched_add ex_boot 1) = 0"
    "on_rq (rq (sched_add ex_boot 1)) 1" by code_simp+
  then show ?thesis using schedule_returns_iff [OF ex_add_inv c(1)] by auto
qed

text \<open>The case of \<^verbatim>\<open>sched_yield\<close> called by the only runnable thread.\<close>

lemma sched_yield_alone:
  assumes "sched_inv i s" "current_thread s = Some p" "preempt_cnt s = 0" "p \<noteq> i"
    "t_state (threads s p) = TASK_RUNNING" "\<And>u. \<not> on_rq (rq s) u"
  shows "sched_yield s = None"
proof -
  let ?s = "upd_thread s p (\<lambda>th. th\<lparr>t_flags := t_flags th OR TF_NEED_RESCHED\<rparr>)"
  have "rq_ok ?s" using assms(1) by (intro rq_ok_upd_flags) (simp_all add: sched_inv_def)
  moreover have "(t_flags (threads s p) OR TF_NEED_RESCHED) AND TF_NEED_RESCHED \<noteq> 0"
    by (simp add: or_and_same TF_NEED_RESCHED_def)
  ultimately show ?thesis
    using assms schedule_stuck [of ?s _ i]
    by (cases "schedule ?s") (auto simp: sched_yield_def sched_stuck_def need_resched_def runnable_def sched_inv_def)
qed

text \<open>
  C12: Starting from what \<^verbatim>\<open>sched_init\<close> sets up, no sequence of scheduler operations breaks the
  run queue invariant: the bitmap names exactly the non-empty queues, no thread is queued
  twice, queued threads are runnable, are in the queue of their priority, and are neither the
  running nor the idle thread, and \<^verbatim>\<open>nr_running\<close> is their number.
\<close>

theorem sched_invariant:
  assumes "\<And>t. 0 \<le> priority (threads s t) \<and> priority (threads s t) < int MAX_PRIO"
    "i \<notin> set (all_threads s)" "\<And>wq. i \<notin> set (wait_queues s wq)"
    "sched_step\<^sup>*\<^sup>* (sched_init s (Some i)) s'"
  shows "sched_inv i s'"
  using assms(4) by induction (use sched_init_inv [OF assms(1-3)] sched_step_inv in blast)+

theorem sched_invariant_witness:
  "sched_inv 0 (sched_tick (sched_add (sched_init ex_raw (Some 0)) 1))"
proof (rule sched_invariant)
  have "sched_step (sched_init ex_raw (Some 0)) (sched_add (sched_init ex_raw (Some 0)) 1)"
    by (rule sched_step.Add) (simp_all add: sched_init_def Let_def)
  then show "sched_step\<^sup>*\<^sup>* (sched_init ex_raw (Some 0)) (sched_tick (sched_add (sched_init ex_raw (Some 0)) 1))"
    by (rule converse_rtranclp_into_rtranclp) (rule r_into_rtranclp, rule sched_step.Tick)
qed (simp_all add: ex_raw_def ex_thread_def sched_const)

text \<open>
  C30: \<^verbatim>\<open>thread_wakeup\<close> on a channel makes runnable exactly the threads of the thread list that sleep
  on this channel, and changes the state of no other thread.
\<close>

theorem thread_wakeup_exact:
  assumes "sched_inv i s"
  shows "t_state (threads (thread_wakeup s ch) u) =
      (if u \<in> set (all_threads s) \<and> sleeping_on s ch u then TASK_RUNNING else t_state (threads s u)) \<and>
    (runnable (thread_wakeup s ch) u \<longleftrightarrow>
       runnable s u \<or> u \<in> set (all_threads s) \<and> sleeping_on s ch u)"
proof -
  have "\<forall>t \<in> set (all_threads s). rq_idle (rq s) \<noteq> Some t" "rq_ok s"
    using assms by (auto simp: sched_inv_def)
  note f = fold_wakeup [OF this(2,1), of ch u]
  then show ?thesis
    using assms by (auto simp: thread_wakeup_def runnable_def sched_inv_def)
qed

theorem thread_wakeup_exact_witness:
  "runnable (thread_wakeup ex_boot (Chan 7)) 2"
  using thread_wakeup_exact [OF ex_boot_inv, of "Chan 7" 2]
  by (simp add: ex_boot_def ex_raw_def sched_init_def sleeping_on_def ex_thread_def Let_def)

text \<open>
  C29: Round robin: when the best non-empty queue is that of the running thread's own priority,
  \<^verbatim>\<open>schedule\<close> gives the processor to the thread that has waited longest there and puts the
  caller behind all others.
\<close>

theorem schedule_round_robin:
  assumes inv: "sched_inv i s" and c: "current_thread s = Some c" "t_state (threads s c) = TASK_RUNNING" "c \<noteq> i"
    and q: "rqueue (rq s) ! nat (priority (threads s c)) = n # ts"
    and best: "\<And>u. on_rq (rq s) u \<Longrightarrow> priority (threads s c) \<le> priority (threads s u)"
  shows "\<exists>s'. schedule s = Some (Sched_ret s') \<and> current_thread s' = Some n \<and>
    rqueue (rq s') ! nat (priority (threads s c)) = ts @ [c]"
proof -
  let ?p = "nat (priority (threads s c))" and ?s0 = "preempt_disable s"
  let ?s2 = "enqueue_thread_locked ?s0 c"
  have s: "rq_core s" "rq_idle (rq s) = Some i" "\<not> on_rq (rq s) c" using inv c by (auto simp: sched_inv_def rq_ok_def)
  have d: "threads ?s0 = threads s" "rq ?s0 = rq s" by (simp_all add: preempt_disable_def)
  have c0: "rq_core ?s0" by (rule rq_core_fields [OF s(1)]) (simp_all add: preempt_disable_def)
  have c2: "rq_core ?s2" and on2: "\<And>u. on_rq (rq ?s2) u \<longleftrightarrow> u = c \<or> on_rq (rq s) u"
    using enqueue_core [OF c0, of c] c s(2) d by auto
  have p: "?p < MAX_PRIO" using rq_coreD(5,6) [OF s(1), of c] by (simp add: nat_less_iff)
  have n: "on_rq (rq s) n" "priority (threads s n) = priority (threads s c)"
    using mem_queue_on_rq [OF s(1) p] rq_coreD(4) [OF s(1) p] rq_coreD(5) [OF s(1), of c] q
    by (auto simp: queued_ok_def)
  have q2: "rqueue (rq ?s2) ! ?p = n # ts @ [c]" using enqueue_last [OF c0, of c] s(3) d q by simp
  have ffs: "\<not> bitmap_ffs (rbitmap (rq ?s2)) MAX_PRIO < 0" using pick_next_empty(2) [OF c2, of c] on2 by blast
  show ?thesis
  proof (rule pick_next_Some [OF c2 ffs])
    fix m s' us assume m: "pick_next_thread ?s2 = (Some m, s')" "on_rq (rq ?s2) m"
      "rqueue (rq ?s2) ! nat (priority (threads ?s2 m)) = m # us"
      "\<And>u. on_rq (rq ?s2) u \<Longrightarrow> priority (threads ?s2 m) \<le> priority (threads ?s2 u)"
      "rqueue (rq s') = unlink_run_list m (rqueue (rq ?s2))"
    have "priority (threads s m) = priority (threads s c)"
      using m(4) [of c] m(2) on2 best [of m] d by force
    then have mn: "m = n" using m(3) q2 d by simp
    have "schedule_pick s = (s', Some c, Some n)"
      using c s(2) m(1) mn by (simp add: schedule_pick_def Let_def preempt_disable_def split: if_splits)
    then have "schedule s = Some (Sched_ret (switch_to s' c n))"
      using n(1) s(3) by (subst schedule.simps) auto
    moreover have "rqueue (rq s') ! ?p = ts @ [c]"
      using m(5) q2 mn p rq_coreD(1) [OF c2] by (simp add: unlink_run_list_def qb_ok_def)
    ultimately show ?thesis by simp
  qed
qed

text \<open>Two threads of the same priority: the idle thread is replaced by thread 1, then 2 is added.\<close>

definition ex_two :: sched_state where
  "ex_two = (case schedule (sched_add ex_boot 1) of
     Some (Sched_ret s) \<Rightarrow> sched_add s 2 | _ \<Rightarrow> ex_boot)"

lemma ex_two_inv: "sched_inv 0 ex_two"
proof -
  have c: "case schedule (sched_add ex_boot 1) of Some (Sched_ret s) \<Rightarrow> current_thread s = Some 1 | _ \<Rightarrow> False"
    by code_simp
  then obtain s where s: "schedule (sched_add ex_boot 1) = Some (Sched_ret s)" "current_thread s = Some 1"
    by (auto split: option.splits sched_result.splits)
  have i: "sched_inv 0 s" using sched_step_inv_sched(1) [OF ex_add_inv s(1)] .
  then have "sched_inv 0 (sched_add s 2)"
    using s(2) by (intro sched_step_inv [OF sched_step.Add]) (auto simp: sched_inv_def)
  then show ?thesis unfolding ex_two_def s by simp
qed

theorem schedule_round_robin_witness:
  "\<exists>s'. schedule ex_two = Some (Sched_ret s') \<and> current_thread s' = Some 2 \<and>
     rqueue (rq s') ! 120 = [1]"
proof -
  have e: "current_thread ex_two = Some 1" "t_state (threads ex_two 1) = TASK_RUNNING"
    "rqueue (rq ex_two) ! nat (priority (threads ex_two 1)) = 2 # []"
    "priority (threads ex_two 1) = 120" "priority (threads ex_two 2) = 120"
    "concat (rqueue (rq ex_two)) = [2]" by code_simp+
  then have "on_rq (rq ex_two) u \<longleftrightarrow> u = 2" for u by (simp add: on_rq_iff del: set_concat)
  then show ?thesis
    using schedule_round_robin [OF ex_two_inv e(1,2) _ e(3)] e by auto
qed

end
