(* ===== verification/Capability.thy ===== *)
theory Capability
  imports Ocean_Prelude "HOL-Library.Monad_Syntax"
begin

text \<open>
  The capability spaces of \<^verbatim>\<open>kernel/ipc/capability.c\<close>. A capability space is a record with the
  slot array and the bitmap of used slots, either of which is \<open>None\<close> when it is a null pointer.
  Spaces live in a store indexed by address, because \<^verbatim>\<open>cap_copy\<close> and \<^verbatim>\<open>cap_mint\<close> take two that
  may be the same one. An operation returns \<open>None\<close> when it dereferences a null or out-of-range
  pointer, and otherwise the new store with its integer result. Allocation is an argument:
  whether each \<^verbatim>\<open>kmalloc\<close> succeeds. Locks and messages are not modelled.
\<close>

subsection \<open>State\<close>

definition CAP_TYPE_NONE :: u32 where "CAP_TYPE_NONE = 0"
definition CAP_TYPE_ENDPOINT :: u32 where "CAP_TYPE_ENDPOINT = 1"
definition CAP_TYPE_NOTIFICATION :: u32 where "CAP_TYPE_NOTIFICATION = 7"
definition CAP_RIGHT_GRANT :: u32 where "CAP_RIGHT_GRANT = 4"
definition CAP_RIGHT_REVOKE :: u32 where "CAP_RIGHT_REVOKE = 8"
definition CSPACE_SIZE :: u32 where "CSPACE_SIZE = 256"

lemmas cap_const = CAP_TYPE_NONE_def CAP_TYPE_ENDPOINT_def CAP_TYPE_NOTIFICATION_def
  CAP_RIGHT_GRANT_def CAP_RIGHT_REVOKE_def CSPACE_SIZE_def

record capability =
  cap_type :: u32
  rights :: u32
  object :: u64
  badge :: u64
  cap_generation :: u32
  cap_slot :: u32

record cspace =
  slots :: "capability list option"
  cs_size :: u32
  used :: u32
  cs_bitmap :: "u64 list option"
  generation :: u32

type_synonym cspaces = "nat \<Rightarrow> cspace"
type_synonym 'a cap_result = "(cspaces \<times> 'a) option"

definition zero_cap :: capability where
  "zero_cap = \<lparr>cap_type = CAP_TYPE_NONE, rights = 0, object = 0, badge = 0,
     cap_generation = 0, cap_slot = 0\<rparr>"

text \<open>Reading \<^verbatim>\<open>cs->slots[i]\<close> and writing it.\<close>

definition slot_at :: "cspace \<Rightarrow> u32 \<Rightarrow> capability option" where
  "slot_at cs i =
     (case slots cs of
        None \<Rightarrow> None
      | Some xs \<Rightarrow> if unat i < length xs then Some (xs ! unat i) else None)"

definition put_slot :: "cspace \<Rightarrow> u32 \<Rightarrow> capability \<Rightarrow> cspace" where
  "put_slot cs i c = cs\<lparr>slots := map_option (\<lambda>xs. xs[unat i := c]) (slots cs)\<rparr>"

subsection \<open>Operations\<close>

definition cspace_init :: "cspaces \<Rightarrow> nat option \<Rightarrow> bool \<Rightarrow> bool \<Rightarrow> cspaces" where
  "cspace_init st p slots_ok bitmap_ok =
     (case p of
        None \<Rightarrow> st
      | Some a \<Rightarrow>
          let cs = (st a)\<lparr>cs_size := CSPACE_SIZE\<rparr>
          in if \<not> slots_ok then st(a := cs\<lparr>slots := None\<rparr>)
             else let cs1 = cs\<lparr>slots := Some (replicate (unat (cs_size cs)) zero_cap)\<rparr>
                  in if \<not> bitmap_ok then st(a := cs1\<lparr>cs_bitmap := None, slots := None\<rparr>)
                     else st(a := cs1\<lparr>cs_bitmap := Some (replicate ((unat (cs_size cs) + 63) div 64) 0),
                                      used := 0, generation := 1\<rparr>))"

definition cspace_destroy :: "cspaces \<Rightarrow> nat option \<Rightarrow> cspaces option" where
  "cspace_destroy st p =
     (case p of
        None \<Rightarrow> Some st
      | Some a \<Rightarrow>
          let cs = st a
          in if slots cs = None \<and> cs_size cs \<noteq> 0 then None
             else Some (st(a := cs\<lparr>slots := None, cs_bitmap := None, cs_size := 0, used := 0\<rparr>)))"

text \<open>The scan for the first clear bit; the result is \<open>-1\<close> when there is none.\<close>

definition cspace_find_free_slot :: "cspace \<Rightarrow> int option" where
  "cspace_find_free_slot cs =
     (if cs_size cs = 0 then Some (-1)
      else do {
        bm \<leftarrow> cs_bitmap cs;
        Some (case find (\<lambda>i. bm ! (i div 64) AND push_bit (i mod 64) 1 = 0) [0..<unat (cs_size cs)] of
                Some i \<Rightarrow> int i
              | None \<Rightarrow> -1)
      })"

definition cspace_mark_used :: "cspace \<Rightarrow> u32 \<Rightarrow> cspace option" where
  "cspace_mark_used cs slot = do {
     bm \<leftarrow> cs_bitmap cs;
     let i = unat slot;
     Some (cs\<lparr>cs_bitmap := Some (bm[i div 64 := bm ! (i div 64) OR push_bit (i mod 64) 1]),
             used := used cs + 1\<rparr>)
   }"

definition cspace_mark_free :: "cspace \<Rightarrow> u32 \<Rightarrow> cspace option" where
  "cspace_mark_free cs slot = do {
     bm \<leftarrow> cs_bitmap cs;
     let i = unat slot;
     Some (cs\<lparr>cs_bitmap := Some (bm[i div 64 := bm ! (i div 64) AND NOT (push_bit (i mod 64) 1)]),
             used := used cs - 1\<rparr>)
   }"

definition cap_insert :: "cspaces \<Rightarrow> nat option \<Rightarrow> capability option \<Rightarrow> int cap_result" where
  "cap_insert st p c =
     (case (p, c) of
        (Some a, Some cap) \<Rightarrow> do {
          let cs = st a;
          slot \<leftarrow> cspace_find_free_slot cs;
          if slot < 0 then Some (st, -1)
          else do {
            let s = of_int slot;
            slot_at cs s;
            cs1 \<leftarrow> cspace_mark_used
              (put_slot cs s (cap\<lparr>cap_slot := s, cap_generation := generation cs\<rparr>)) s;
            Some (st(a := cs1), slot)
          }
        }
      | _ \<Rightarrow> Some (st, -1))"

text \<open>The result of a lookup is the capability the returned pointer points to.\<close>

definition cap_lookup :: "cspaces \<Rightarrow> nat option \<Rightarrow> u32 \<Rightarrow> capability option option" where
  "cap_lookup st p slot =
     (case p of
        None \<Rightarrow> Some None
      | Some a \<Rightarrow>
          if slot \<ge> cs_size (st a) then Some None
          else do {
            c \<leftarrow> slot_at (st a) slot;
            Some (if cap_type c \<noteq> CAP_TYPE_NONE then Some c else None)
          })"

definition cap_delete :: "cspaces \<Rightarrow> nat option \<Rightarrow> u32 \<Rightarrow> int cap_result" where
  "cap_delete st p slot =
     (case p of
        None \<Rightarrow> Some (st, -1)
      | Some a \<Rightarrow>
          if slot \<ge> cs_size (st a) then Some (st, -1)
          else do {
            c \<leftarrow> slot_at (st a) slot;
            if cap_type c = CAP_TYPE_NONE then Some (st, -1)
            else do {
              cs1 \<leftarrow> cspace_mark_free (put_slot (st a) slot zero_cap) slot;
              Some (st(a := cs1), 0)
            }
          })"

text \<open>The choice of the destination slot in \<^verbatim>\<open>cap_copy\<close> and \<^verbatim>\<open>cap_mint\<close>; \<open>Some None\<close> is
  \<^verbatim>\<open>goto out\<close>.\<close>

definition cap_dst_slot :: "cspace \<Rightarrow> u32 \<Rightarrow> u32 option option" where
  "cap_dst_slot cs dst_slot =
     (if dst_slot = -1
      then do {
        free \<leftarrow> cspace_find_free_slot cs;
        Some (if free < 0 then None else Some (of_int free))
      }
      else if dst_slot \<ge> cs_size cs then Some None
      else do {
        d \<leftarrow> slot_at cs dst_slot;
        Some (if cap_type d \<noteq> CAP_TYPE_NONE then None else Some dst_slot)
      })"

definition cap_copy :: "cspaces \<Rightarrow> nat option \<Rightarrow> u32 \<Rightarrow> nat option \<Rightarrow> u32 \<Rightarrow> int cap_result" where
  "cap_copy st dst dst_slot src src_slot =
     (case (dst, src) of
        (Some d, Some s) \<Rightarrow>
          if src_slot \<ge> cs_size (st s) then Some (st, -1)
          else do {
            c \<leftarrow> slot_at (st s) src_slot;
            if cap_type c = CAP_TYPE_NONE then Some (st, -1)
            else if rights c AND CAP_RIGHT_GRANT = 0 then Some (st, -1)
            else do {
              actual \<leftarrow> cap_dst_slot (st d) dst_slot;
              case actual of
                None \<Rightarrow> Some (st, -1)
              | Some a \<Rightarrow> do {
                  slot_at (st d) a;
                  cs1 \<leftarrow> cspace_mark_used
                    (put_slot (st d) a (c\<lparr>cap_slot := a, cap_generation := generation (st d)\<rparr>)) a;
                  Some (st(d := cs1), sint a)
                }
            }
          }
      | _ \<Rightarrow> Some (st, -1))"

definition cap_mint :: "cspaces \<Rightarrow> nat option \<Rightarrow> u32 \<Rightarrow> nat option \<Rightarrow> u32 \<Rightarrow> u32 \<Rightarrow> u64 \<Rightarrow>
    int cap_result" where
  "cap_mint st dst dst_slot src src_slot new_rights bdg =
     (case (dst, src) of
        (Some d, Some s) \<Rightarrow>
          if src_slot \<ge> cs_size (st s) then Some (st, -1)
          else do {
            c \<leftarrow> slot_at (st s) src_slot;
            if cap_type c = CAP_TYPE_NONE then Some (st, -1)
            else if rights c AND CAP_RIGHT_GRANT = 0 then Some (st, -1)
            else do {
              let allowed_rights = rights c AND new_rights;
              actual \<leftarrow> cap_dst_slot (st d) dst_slot;
              case actual of
                None \<Rightarrow> Some (st, -1)
              | Some a \<Rightarrow> do {
                  slot_at (st d) a;
                  cs1 \<leftarrow> cspace_mark_used
                    (put_slot (st d) a
                       (c\<lparr>cap_slot := a, rights := allowed_rights, badge := bdg,
                          cap_generation := generation (st d)\<rparr>)) a;
                  Some (st(d := cs1), sint a)
                }
            }
          }
      | _ \<Rightarrow> Some (st, -1))"

definition cap_revoke :: "cspaces \<Rightarrow> nat option \<Rightarrow> u32 \<Rightarrow> int cap_result" where
  "cap_revoke st p slot =
     (case p of
        None \<Rightarrow> Some (st, -1)
      | Some a \<Rightarrow>
          if slot \<ge> cs_size (st a) then Some (st, -1)
          else do {
            c \<leftarrow> slot_at (st a) slot;
            if cap_type c = CAP_TYPE_NONE then Some (st, -1)
            else if rights c AND CAP_RIGHT_REVOKE = 0 then Some (st, -1)
            else Some (st(a := (st a)\<lparr>generation := generation (st a) + 1\<rparr>), 0)
          })"

definition cap_create_endpoint :: "cspaces \<Rightarrow> nat option \<Rightarrow> u64 \<Rightarrow> u32 \<Rightarrow> int cap_result" where
  "cap_create_endpoint st p ep rts =
     cap_insert st p (Some \<lparr>cap_type = CAP_TYPE_ENDPOINT, rights = rts, object = ep, badge = 0,
       cap_generation = 0, cap_slot = 0\<rparr>)"

definition cap_create_notification :: "cspaces \<Rightarrow> nat option \<Rightarrow> u64 \<Rightarrow> u32 \<Rightarrow> int cap_result" where
  "cap_create_notification st p ntfn rts =
     cap_insert st p (Some \<lparr>cap_type = CAP_TYPE_NOTIFICATION, rights = rts, object = ntfn, badge = 0,
       cap_generation = 0, cap_slot = 0\<rparr>)"

definition cap_check_rights :: "capability option \<Rightarrow> u32 \<Rightarrow> int" where
  "cap_check_rights c required =
     (case c of
        None \<Rightarrow> -1
      | Some cap \<Rightarrow> if rights cap AND required \<noteq> required then -1 else 0)"

definition cap_get_endpoint :: "cspaces \<Rightarrow> nat option \<Rightarrow> u32 \<Rightarrow> u64 option" where
  "cap_get_endpoint st p slot = do {
     c \<leftarrow> cap_lookup st p slot;
     Some (case c of
             None \<Rightarrow> 0
           | Some cap \<Rightarrow> if cap_type cap \<noteq> CAP_TYPE_ENDPOINT then 0 else object cap)
   }"

subsection \<open>Well-formed spaces as partial maps\<close>

text \<open>The capabilities a space holds, by slot number.\<close>

definition caps :: "cspace \<Rightarrow> nat \<Rightarrow> capability option" where
  "caps cs i =
     (case slots cs of
        None \<Rightarrow> None
      | Some xs \<Rightarrow> if i < length xs \<and> cap_type (xs ! i) \<noteq> CAP_TYPE_NONE then Some (xs ! i) else None)"

definition cs_wf :: "capability list \<Rightarrow> u64 list \<Rightarrow> u32 \<Rightarrow> bool" where
  "cs_wf xs bm n \<longleftrightarrow> length xs = 256 \<and> length bm = 4 \<and>
     (\<forall>i < 256. word_test bm i \<longleftrightarrow> cap_type (xs ! i) \<noteq> CAP_TYPE_NONE) \<and>
     (\<forall>i < 256. cap_type (xs ! i) \<noteq> CAP_TYPE_NONE \<longrightarrow> cap_slot (xs ! i) = of_nat i) \<and>
     n = of_nat (card {i. i < 256 \<and> word_test bm i})"

definition cs_ok :: "cspace \<Rightarrow> bool" where
  "cs_ok cs \<longleftrightarrow> cs_size cs = CSPACE_SIZE \<and>
     (case (slots cs, cs_bitmap cs) of
        (Some xs, Some bm) \<Rightarrow> cs_wf xs bm (used cs)
      | _ \<Rightarrow> False)"

lemma cs_ok_generation: "cs_ok (cs\<lparr>generation := g\<rparr>) = cs_ok cs"
  by (simp add: cs_ok_def split: option.split)

lemma cs_okE:
  assumes "cs_ok cs"
  obtains xs bm where "slots cs = Some xs" "cs_bitmap cs = Some bm" "cs_wf xs bm (used cs)"
    "cs_size cs = CSPACE_SIZE"
  using assms by (auto simp: cs_ok_def split: option.splits)

lemma cs_wf_put:
  assumes wf: "cs_wf xs bm n" and i: "i < 256" "cap_type (xs ! i) = CAP_TYPE_NONE"
    and c: "cap_type c \<noteq> CAP_TYPE_NONE" "cap_slot c = of_nat i"
  shows "cs_wf (xs[i := c]) (word_set i bm) (n + 1)"
proof -
  have b: "64 * length bm = 256" "\<not> word_test bm i" using wf i by (auto simp: cs_wf_def)
  then have "word_test (word_set i bm) j \<longleftrightarrow> j = i \<or> word_test bm j" for j
    using word_test_set i(1) by simp
  moreover have "card {j. j < 256 \<and> word_test (word_set i bm) j} = Suc (card {j. j < 256 \<and> word_test bm j})"
    using words.card_set_setb [of i bm] b i(1) by simp
  ultimately show ?thesis
    using wf i c unfolding cs_wf_def by (simp add: nth_list_update)
qed

lemma cs_wf_clear:
  assumes wf: "cs_wf xs bm n" and i: "i < 256" "cap_type (xs ! i) \<noteq> CAP_TYPE_NONE"
    and c: "cap_type c = CAP_TYPE_NONE"
  shows "cs_wf (xs[i := c]) (word_clear i bm) (n - 1)"
proof -
  have b: "64 * length bm = 256" "word_test bm i" using wf i by (auto simp: cs_wf_def)
  then have "word_test (word_clear i bm) j \<longleftrightarrow> j \<noteq> i \<and> word_test bm j" for j
    using word_test_clear i(1) by simp
  moreover have "Suc (card {j. j < 256 \<and> word_test (word_clear i bm) j}) = card {j. j < 256 \<and> word_test bm j}"
    using words.card_set_clear [of i bm] b i(1) by simp
  then have "n - 1 = of_nat (card {j. j < 256 \<and> word_test (word_clear i bm) j})"
    using wf unfolding cs_wf_def by (metis add_diff_cancel_left' of_nat_Suc)
  ultimately show ?thesis
    using wf i c unfolding cs_wf_def by (simp add: nth_list_update)
qed

lemma caps_wf: "slots cs = Some xs \<Longrightarrow> cs_wf xs bm n \<Longrightarrow> caps cs i = None \<longleftrightarrow> \<not> (i < 256 \<and> word_test bm i)"
  by (auto simp: caps_def cs_wf_def)

lemma unat_size [simp]: "cs_size cs = CSPACE_SIZE \<Longrightarrow> unat (cs_size cs) = 256"
  by (simp add: CSPACE_SIZE_def)

lemma find_free_slot_caps:
  assumes "cs_ok cs"
  shows "cspace_find_free_slot cs =
    Some (case find (\<lambda>i. caps cs i = None) [0..<256] of Some i \<Rightarrow> int i | None \<Rightarrow> -1)"
proof -
  obtain xs bm where cs: "slots cs = Some xs" "cs_bitmap cs = Some bm" "cs_wf xs bm (used cs)"
    "cs_size cs = CSPACE_SIZE" using cs_okE [OF assms] .
  have "find (\<lambda>i. bm ! (i div 64) AND push_bit (i mod 64) 1 = 0) [0..<256] =
      find (\<lambda>i. caps cs i = None) [0..<256]"
    using caps_wf [OF cs(1,3)] and_push_bit_1
    by (intro find_cong refl) (auto simp: word_test_bit)
  then show ?thesis using cs by (simp add: cspace_find_free_slot_def CSPACE_SIZE_def)
qed

text \<open>Writing a capability into an empty slot and marking it used; clearing a used one.\<close>

lemma put_mark_used:
  assumes ok: "cs_ok cs" and i: "i < 256" "caps cs i = None"
    and c: "cap_type c \<noteq> CAP_TYPE_NONE" "cap_slot c = of_nat i"
  obtains cs1 where "cspace_mark_used (put_slot cs (of_nat i) c) (of_nat i) = Some cs1" "cs_ok cs1"
    "caps cs1 = (caps cs)(i \<mapsto> c)" "generation cs1 = generation cs"
proof -
  obtain xs bm where cs: "slots cs = Some xs" "cs_bitmap cs = Some bm" "cs_wf xs bm (used cs)"
    "cs_size cs = CSPACE_SIZE" using cs_okE [OF ok] .
  have u: "unat (of_nat i :: u32) = i" using i(1) by (simp add: unat_of_nat)
  have e: "cap_type (xs ! i) = CAP_TYPE_NONE" "length xs = 256" using i cs by (auto simp: caps_def cs_wf_def)
  define cs1 where "cs1 = cs\<lparr>slots := Some (xs[i := c]), cs_bitmap := Some (word_set i bm), used := used cs + 1\<rparr>"
  have "cspace_mark_used (put_slot cs (of_nat i) c) (of_nat i) = Some cs1"
    using cs by (simp add: cspace_mark_used_def put_slot_def u cs1_def word_set_def Let_def)
  moreover have "cs_ok cs1" using cs_wf_put [OF cs(3) i(1) e(1) c] cs(4) by (simp add: cs1_def cs_ok_def)
  moreover have "caps cs1 = (caps cs)(i \<mapsto> c)"
    using i(1) c(1) e(2) cs(1) by (auto simp: fun_eq_iff caps_def cs1_def nth_list_update)
  ultimately show ?thesis using that by (simp add: cs1_def)
qed

lemma clear_mark_free:
  assumes ok: "cs_ok cs" and i: "i < 256" "caps cs i \<noteq> None"
  obtains cs1 where "cspace_mark_free (put_slot cs (of_nat i) zero_cap) (of_nat i) = Some cs1" "cs_ok cs1"
    "caps cs1 = (caps cs)(i := None)" "generation cs1 = generation cs"
proof -
  obtain xs bm where cs: "slots cs = Some xs" "cs_bitmap cs = Some bm" "cs_wf xs bm (used cs)"
    "cs_size cs = CSPACE_SIZE" using cs_okE [OF ok] .
  have u: "unat (of_nat i :: u32) = i" using i(1) by (simp add: unat_of_nat)
  have e: "cap_type (xs ! i) \<noteq> CAP_TYPE_NONE" "length xs = 256" "cap_type zero_cap = CAP_TYPE_NONE"
    using i cs by (auto simp: caps_def cs_wf_def zero_cap_def split: if_splits)
  define cs1 where "cs1 = cs\<lparr>slots := Some (xs[i := zero_cap]), cs_bitmap := Some (word_clear i bm),
    used := used cs - 1\<rparr>"
  have "cspace_mark_free (put_slot cs (of_nat i) zero_cap) (of_nat i) = Some cs1"
    using cs by (simp add: cspace_mark_free_def put_slot_def u cs1_def word_clear_def Let_def)
  moreover have "cs_ok cs1" using cs_wf_clear [OF cs(3) i(1) e(1,3)] cs(4) by (simp add: cs1_def cs_ok_def)
  moreover have "caps cs1 = (caps cs)(i := None)"
    using i(1) e cs(1) by (auto simp: fun_eq_iff caps_def cs1_def nth_list_update)
  ultimately show ?thesis using that by (simp add: cs1_def)
qed

lemma slot_at_ok:
  assumes "cs_ok cs" "i < CSPACE_SIZE"
  obtains c where "slot_at cs i = Some c" "caps cs (unat i) = (if cap_type c = CAP_TYPE_NONE then None else Some c)"
    "unat i < 256"
proof -
  have "unat i < 256" using assms(2) by (simp add: CSPACE_SIZE_def word_less_nat_alt)
  with assms(1) that show ?thesis by (auto simp: slot_at_def caps_def cs_wf_def elim!: cs_okE)
qed

subsection \<open>The operations on well-formed spaces\<close>

lemma cap_lookup_caps:
  assumes "cs_ok (st a)"
  shows "cap_lookup st (Some a) i = Some (caps (st a) (unat i))"
proof (cases "i < CSPACE_SIZE")
  case True
  obtain c where "slot_at (st a) i = Some c"
    "caps (st a) (unat i) = (if cap_type c = CAP_TYPE_NONE then None else Some c)"
    using slot_at_ok [OF assms True] by blast
  then show ?thesis using assms True by (auto simp: cap_lookup_def cs_ok_def)
next
  case False
  then have "\<not> unat i < 256" by (simp add: CSPACE_SIZE_def word_less_nat_alt)
  then have "caps (st a) (unat i) = None" using assms by (auto simp: caps_def cs_wf_def elim!: cs_okE)
  then show ?thesis using assms False by (auto simp: cap_lookup_def cs_ok_def)
qed

lemma cap_insert_caps:
  assumes ok: "cs_ok (st a)" and c: "cap_type c \<noteq> CAP_TYPE_NONE"
  shows "case find (\<lambda>i. caps (st a) i = None) [0..<256] of
      None \<Rightarrow> cap_insert st (Some a) (Some c) = Some (st, -1)
    | Some i \<Rightarrow> \<exists>cs1. cap_insert st (Some a) (Some c) = Some (st(a := cs1), int i) \<and> cs_ok cs1 \<and>
        caps cs1 = (caps (st a))(i \<mapsto> c\<lparr>cap_slot := of_nat i, cap_generation := generation (st a)\<rparr>)"
proof (cases "find (\<lambda>i. caps (st a) i = None) [0..<256]")
  case None
  then show ?thesis using find_free_slot_caps [OF ok] by (simp add: cap_insert_def)
next
  case (Some i)
  then have i: "i < 256" "caps (st a) i = None" by (simp_all add: find_least)
  then have "(of_nat i :: u32) < CSPACE_SIZE" by (simp add: CSPACE_SIZE_def word_less_nat_alt unat_of_nat)
  then obtain d where "slot_at (st a) (of_nat i) = Some d" using slot_at_ok [OF ok] by blast
  moreover obtain cs1 where
    "cspace_mark_used (put_slot (st a) (of_nat i)
       (c\<lparr>cap_slot := of_nat i, cap_generation := generation (st a)\<rparr>)) (of_nat i) = Some cs1" "cs_ok cs1"
    "caps cs1 = (caps (st a))(i \<mapsto> c\<lparr>cap_slot := of_nat i, cap_generation := generation (st a)\<rparr>)"
    using put_mark_used [OF ok i, of "c\<lparr>cap_slot := of_nat i, cap_generation := generation (st a)\<rparr>"] c by auto
  ultimately show ?thesis using find_free_slot_caps [OF ok] Some by (auto simp: cap_insert_def Let_def)
qed

lemma cap_delete_caps:
  assumes ok: "cs_ok (st a)"
  shows "case caps (st a) (unat i) of
      None \<Rightarrow> cap_delete st (Some a) i = Some (st, -1)
    | Some c \<Rightarrow> \<exists>cs1. cap_delete st (Some a) i = Some (st(a := cs1), 0) \<and> cs_ok cs1 \<and>
        caps cs1 = (caps (st a))(unat i := None)"
proof (cases "i < CSPACE_SIZE")
  case True
  obtain c where c: "slot_at (st a) i = Some c"
    "caps (st a) (unat i) = (if cap_type c = CAP_TYPE_NONE then None else Some c)" "unat i < 256"
    using slot_at_ok [OF ok True] by blast
  show ?thesis
  proof (cases "cap_type c = CAP_TYPE_NONE")
    case True
    then show ?thesis using c ok \<open>i < CSPACE_SIZE\<close> by (auto simp: cap_delete_def cs_ok_def)
  next
    case False
    then obtain cs1 where "cspace_mark_free (put_slot (st a) i zero_cap) i = Some cs1" "cs_ok cs1"
      "caps cs1 = (caps (st a))(unat i := None)"
      using clear_mark_free [OF ok c(3)] c(2) by auto
    then show ?thesis using False c ok \<open>i < CSPACE_SIZE\<close> by (auto simp: cap_delete_def cs_ok_def)
  qed
next
  case False
  then have "\<not> unat i < 256" by (simp add: CSPACE_SIZE_def word_less_nat_alt)
  then have "caps (st a) (unat i) = None" using ok by (auto simp: caps_def cs_wf_def elim!: cs_okE)
  then show ?thesis using ok False by (auto simp: cap_delete_def cs_ok_def)
qed

text \<open>\<^verbatim>\<open>cap_copy\<close> and \<^verbatim>\<open>cap_mint\<close> differ only in what they do to the copied capability.\<close>

definition cap_derive :: "(capability \<Rightarrow> u32 \<Rightarrow> u32 \<Rightarrow> capability) \<Rightarrow> cspaces \<Rightarrow> nat option \<Rightarrow> u32 \<Rightarrow> nat option \<Rightarrow> u32 \<Rightarrow>
    int cap_result" where
  "cap_derive f st dst dst_slot src src_slot =
     (case (dst, src) of
        (Some d, Some s) \<Rightarrow>
          if src_slot \<ge> cs_size (st s) then Some (st, -1)
          else do {
            c \<leftarrow> slot_at (st s) src_slot;
            if cap_type c = CAP_TYPE_NONE then Some (st, -1)
            else if rights c AND CAP_RIGHT_GRANT = 0 then Some (st, -1)
            else do {
              actual \<leftarrow> cap_dst_slot (st d) dst_slot;
              case actual of
                None \<Rightarrow> Some (st, -1)
              | Some a \<Rightarrow> do {
                  slot_at (st d) a;
                  cs1 \<leftarrow> cspace_mark_used
                    (put_slot (st d) a (f c a (generation (st d)))) a;
                  Some (st(d := cs1), sint a)
                }
            }
          }
      | _ \<Rightarrow> Some (st, -1))"

definition copied :: "capability \<Rightarrow> u32 \<Rightarrow> u32 \<Rightarrow> capability" where
  "copied c a g = c\<lparr>cap_slot := a, cap_generation := g\<rparr>"

definition minted :: "u32 \<Rightarrow> u64 \<Rightarrow> capability \<Rightarrow> u32 \<Rightarrow> u32 \<Rightarrow> capability" where
  "minted nr b c a g = c\<lparr>cap_slot := a, rights := rights c AND nr, badge := b, cap_generation := g\<rparr>"

lemma cap_copy_derive: "cap_copy st d ds s ss = cap_derive copied st d ds s ss"
  unfolding cap_copy_def cap_derive_def copied_def ..

lemma cap_mint_derive: "cap_mint st d ds s ss nr b = cap_derive (minted nr b) st d ds s ss"
  unfolding cap_mint_def cap_derive_def minted_def Let_def ..

lemma cap_dst_slot_ok:
  assumes ok: "cs_ok cs"
  obtains r where "cap_dst_slot cs ds = Some r"
    "\<And>a. r = Some a \<Longrightarrow> unat a < 256 \<and> caps cs (unat a) = None"
proof (cases "ds = -1")
  case True
  show ?thesis
  proof (cases "find (\<lambda>i. caps cs i = None) [0..<256]")
    case None
    then show ?thesis using that [of None] True find_free_slot_caps [OF ok] by (simp add: cap_dst_slot_def)
  next
    case (Some i)
    then have "i < 256" "caps cs i = None" by (simp_all add: find_least)
    then show ?thesis using that [of "Some (of_nat i)"] True Some find_free_slot_caps [OF ok]
      by (simp add: cap_dst_slot_def unat_of_nat)
  qed
next
  case False
  show ?thesis
  proof (cases "ds < CSPACE_SIZE")
    case True
    obtain c where "slot_at cs ds = Some c" "unat ds < 256"
      "caps cs (unat ds) = (if cap_type c = CAP_TYPE_NONE then None else Some c)"
      using slot_at_ok [OF ok True] by blast
    then show ?thesis
      using that [of "if cap_type c \<noteq> CAP_TYPE_NONE then None else Some ds"] False True ok
      by (cases "cap_type c = CAP_TYPE_NONE") (auto simp: cap_dst_slot_def cs_ok_def simp flip: not_less)
  next
    case False
    then show ?thesis
      using that [of None] \<open>ds \<noteq> -1\<close> ok by (simp add: cap_dst_slot_def cs_ok_def flip: not_less)
  qed
qed

lemma sint_small: "unat (a :: u32) < 256 \<Longrightarrow> sint a = int (unat a)"
proof -
  assume "unat a < 256"
  then have "int (unat a) < int 256" by (simp only: of_nat_less_iff)
  then have lt: "uint a < 256" by simp
  have "sint a = signed_take_bit (LENGTH(32) - Suc 0) (uint a)" by (rule sint_uint)
  also have "\<dots> = uint a"
  proof (rule signed_take_bit_int_eq_self)
    show "- (2 ^ (LENGTH(32) - Suc 0)) \<le> uint a" using order_trans [OF _ uint_ge_0, of "- (2 ^ (LENGTH(32) - Suc 0))"] by simp
    show "uint a < 2 ^ (LENGTH(32) - Suc 0)" using lt by simp
  qed
  finally show ?thesis by simp
qed

text \<open>What a derivation does: nothing, or it stores a derived capability of a \<^verbatim>\<open>GRANT\<close> capability in
  an empty slot.\<close>

definition derives :: "(capability \<Rightarrow> u32 \<Rightarrow> u32 \<Rightarrow> capability) \<Rightarrow> cspaces \<Rightarrow> cspaces \<Rightarrow> nat \<Rightarrow> u32 \<Rightarrow> nat \<Rightarrow> nat \<Rightarrow> bool" where
  "derives f st st' s ss d i \<longleftrightarrow> i < 256 \<and> caps (st d) i = None \<and>
     (\<exists>c cs1. caps (st s) (unat ss) = Some c \<and> rights c AND CAP_RIGHT_GRANT \<noteq> 0 \<and>
        st' = st(d := cs1) \<and> cs_ok cs1 \<and>
        caps cs1 = (caps (st d))(i \<mapsto> f c (of_nat i) (generation (st d))))"

lemma cap_derive_ok:
  assumes ok: "\<And>x. cs_ok (st x)"
    and f: "\<And>c a g. cap_type (f c a g) = cap_type c \<and> cap_slot (f c a g) = a"
  obtains "cap_derive f st dst ds src ss = Some (st, -1)"
  | st' s d i where "cap_derive f st dst ds src ss = Some (st', int i)" "src = Some s" "dst = Some d"
    "derives f st st' s ss d i"
proof (cases "\<exists>d s. dst = Some d \<and> src = Some s \<and> ss < cs_size (st s)")
  case False
  then have "cap_derive f st dst ds src ss = Some (st, -1)"
    by (auto simp: cap_derive_def split: option.splits)
  then show ?thesis by (rule that(1))
next
  case True
  then obtain d s where ds: "dst = Some d" "src = Some s" "ss < cs_size (st s)" by blast
  then have "ss < CSPACE_SIZE" using ok [of s] by (simp add: cs_ok_def)
  then obtain c where c: "slot_at (st s) ss = Some c"
    "caps (st s) (unat ss) = (if cap_type c = CAP_TYPE_NONE then None else Some c)"
    using slot_at_ok [OF ok] by blast
  obtain r where r: "cap_dst_slot (st d) ds = Some r"
    "\<And>a. r = Some a \<Longrightarrow> unat a < 256 \<and> caps (st d) (unat a) = None"
    using cap_dst_slot_ok [OF ok] by blast
  show ?thesis
  proof (cases "cap_type c = CAP_TYPE_NONE \<or> rights c AND CAP_RIGHT_GRANT = 0 \<or> r = None")
    case True
    then have "cap_derive f st dst ds src ss = Some (st, -1)"
      using ds c r(1) by (auto simp: cap_derive_def)
    then show ?thesis by (rule that(1))
  next
    case False
    then obtain a where a: "r = Some a" by auto
    note a' = r(2) [OF a]
    have "a < CSPACE_SIZE" using a' by (simp add: CSPACE_SIZE_def word_less_nat_alt)
    then obtain d0 where d0: "slot_at (st d) a = Some d0" using slot_at_ok [OF ok] by blast
    obtain cs1 where cs1: "cspace_mark_used (put_slot (st d) a (f c a (generation (st d)))) a = Some cs1"
      "cs_ok cs1" "caps cs1 = (caps (st d))(unat a \<mapsto> f c a (generation (st d)))"
      using put_mark_used [OF ok, of "unat a" d "f c a (generation (st d))" thesis] a' f False by auto
    have "cap_derive f st dst ds src ss = Some (st(d := cs1), int (unat a))"
      using False ds c(1) r(1) a d0 cs1(1) a' by (simp add: cap_derive_def sint_small flip: not_less)
    moreover have "derives f st (st(d := cs1)) s ss d (unat a)"
      using False a' c(2) cs1(2,3) unfolding derives_def by auto
    ultimately show ?thesis using that(2) ds by blast
  qed
qed

lemma derived_fields:
  "cap_type (copied c a g) = cap_type c \<and> cap_slot (copied c a g) = a"
  "cap_type (minted nr b c a g) = cap_type c \<and> cap_slot (minted nr b c a g) = a"
  by (simp_all add: copied_def minted_def)

lemma cap_revoke_cases:
  assumes "cap_revoke st p slot = Some (st', r)"
  obtains "st' = st" "r = -1" | a where "p = Some a" "st' = st(a := (st a)\<lparr>generation := generation (st a) + 1\<rparr>)" "r = 0"
  using assms by (auto simp: cap_revoke_def split: option.splits if_splits elim!: bind_eq_SomeE)

subsection \<open>Confinement of authority\<close>

text \<open>What threads can do with the capabilities that exist: copy, mint, delete and revoke, between
  any two spaces.\<close>

inductive cap_step :: "cspaces \<Rightarrow> cspaces \<Rightarrow> bool" where
  Copy: "cap_copy st d ds s ss = Some (st', r) \<Longrightarrow> cap_step st st'"
| Mint: "cap_mint st d ds s ss nr b = Some (st', r) \<Longrightarrow> cap_step st st'"
| Delete: "cap_delete st p i = Some (st', r) \<Longrightarrow> cap_step st st'"
| Revoke: "cap_revoke st p i = Some (st', r) \<Longrightarrow> cap_step st st'"

text \<open>\<open>c\<close> conveys no more than \<open>c0\<close>.\<close>

definition cap_leq :: "capability \<Rightarrow> capability \<Rightarrow> bool" where
  "cap_leq c c0 \<longleftrightarrow> cap_type c = cap_type c0 \<and> object c = object c0 \<and> rights c AND NOT (rights c0) = 0"

lemma cap_leq_bits: "cap_leq c c0 \<longleftrightarrow> cap_type c = cap_type c0 \<and> object c = object c0 \<and>
    (\<forall>n. bit (rights c) n \<longrightarrow> bit (rights c0) n)"
proof -
  have "rights c AND NOT (rights c0) = 0 \<longleftrightarrow> (\<forall>n. bit (rights c) n \<longrightarrow> bit (rights c0) n)"
    using bit_imp_le_length [of "rights c"] by (auto simp: bit_eq_iff bit_simps)
  then show ?thesis by (simp add: cap_leq_def)
qed

lemma cap_leq_refl: "cap_leq c c" by (simp add: cap_leq_bits)

lemma cap_leq_trans: "cap_leq a b \<Longrightarrow> cap_leq b c \<Longrightarrow> cap_leq a c" by (simp add: cap_leq_bits)

lemma grant_bit: "rights c AND CAP_RIGHT_GRANT \<noteq> 0 \<longleftrightarrow> bit (rights c) 2"
  using and_push_bit_1 [of "rights c" 2] by (simp add: CAP_RIGHT_GRANT_def push_bit_eq_mult)

lemma cap_leq_grant: "cap_leq c c0 \<Longrightarrow> rights c AND CAP_RIGHT_GRANT \<noteq> 0 \<Longrightarrow> rights c0 AND CAP_RIGHT_GRANT \<noteq> 0"
  unfolding grant_bit cap_leq_bits by blast

lemma derived_leq: "cap_leq (copied c a g) c" "cap_leq (minted nr b c a g) c"
  by (auto simp: cap_leq_bits copied_def minted_def bit_simps)

text \<open>The origin of a capability of the new store in the old one.\<close>

definition confined :: "cspaces \<Rightarrow> cspaces \<Rightarrow> bool" where
  "confined st st' \<longleftrightarrow> (\<forall>x i c. caps (st' x) i = Some c \<longrightarrow>
     (\<exists>y j c0. caps (st y) j = Some c0 \<and> cap_leq c c0 \<and>
        (y = x \<and> j = i \<and> c = c0 \<or> rights c0 AND CAP_RIGHT_GRANT \<noteq> 0)))"

lemma confined_sub: "(\<And>x i c. caps (st' x) i = Some c \<Longrightarrow> caps (st x) i = Some c) \<Longrightarrow> confined st st'"
  unfolding confined_def using cap_leq_refl by metis

lemma confined_refl: "confined st st"
  by (rule confined_sub)

lemma confined_trans:
  assumes 1: "confined st st1" and 2: "confined st1 st2"
  shows "confined st st2"
  unfolding confined_def
proof (intro allI impI)
  fix x i c assume "caps (st2 x) i = Some c"
  then obtain y j c1 where c1: "caps (st1 y) j = Some c1" "cap_leq c c1"
    "y = x \<and> j = i \<and> c = c1 \<or> rights c1 AND CAP_RIGHT_GRANT \<noteq> 0" using 2 unfolding confined_def by blast
  from c1(1) obtain z k c0 where c0: "caps (st z) k = Some c0" "cap_leq c1 c0"
    "z = y \<and> k = j \<and> c1 = c0 \<or> rights c0 AND CAP_RIGHT_GRANT \<noteq> 0" using 1 unfolding confined_def by blast
  then show "\<exists>y j c0. caps (st y) j = Some c0 \<and> cap_leq c c0 \<and>
      (y = x \<and> j = i \<and> c = c0 \<or> rights c0 AND CAP_RIGHT_GRANT \<noteq> 0)"
    using c1(2,3) cap_leq_trans cap_leq_grant by blast
qed

lemma derives_confined:
  assumes "derives f st st' s ss d i" "\<And>c a g. cap_leq (f c a g) c"
  shows "confined st st'"
proof -
  obtain c cs1 where c: "caps (st s) (unat ss) = Some c" "rights c AND CAP_RIGHT_GRANT \<noteq> 0"
    "st' = st(d := cs1)" "caps cs1 = (caps (st d))(i \<mapsto> f c (of_nat i) (generation (st d)))"
    using assms(1) by (auto simp: derives_def)
  show ?thesis
    unfolding confined_def
  proof (intro allI impI)
    fix x k e assume "caps (st' x) k = Some e"
    then have "caps (st x) k = Some e \<or> e = f c (of_nat i) (generation (st d))"
      unfolding c(3) by (cases "x = d"; cases "k = i") (simp_all add: c(4))
    then consider "caps (st x) k = Some e" | "e = f c (of_nat i) (generation (st d))" by blast
    then show "\<exists>y j c0. caps (st y) j = Some c0 \<and> cap_leq e c0 \<and>
        (y = x \<and> j = k \<and> e = c0 \<or> rights c0 AND CAP_RIGHT_GRANT \<noteq> 0)"
    proof cases
      case 1
      then show ?thesis by (intro exI [of _ x] exI [of _ k] exI [of _ e]) (simp add: cap_leq_refl)
    next
      case 2
      then show ?thesis using c(1,2) assms(2) by (intro exI [of _ s] exI [of _ "unat ss"] exI [of _ c]) simp
    qed
  qed
qed

lemma derive_step:
  assumes ok: "\<forall>x. cs_ok (st x)" and d: "cap_derive f st d ds s ss = Some (st', r)"
    and f: "\<And>c a g. cap_type (f c a g) = cap_type c \<and> cap_slot (f c a g) = a" "\<And>c a g. cap_leq (f c a g) c"
  shows "confined st st' \<and> (\<forall>x. cs_ok (st' x))"
proof -
  have ok': "\<And>x. cs_ok (st x)" using ok by simp
  show ?thesis
  proof (rule cap_derive_ok [of st f d ds s ss, OF ok' f(1)])
    assume "cap_derive f st d ds s ss = Some (st, -1)"
    then show ?thesis using d ok confined_refl by simp
  next
    fix st1 s1 d1 i assume *: "cap_derive f st d ds s ss = Some (st1, int i)" "derives f st st1 s1 ss d1 i"
    then have "st1 = st'" using d by simp
    moreover have "\<forall>x. cs_ok (st1 x)" using *(2) ok by (auto simp: derives_def)
    ultimately show ?thesis using derives_confined [OF *(2) f(2)] by simp
  qed
qed

lemma cap_step_ok:
  assumes "cap_step st st'" "\<forall>x. cs_ok (st x)"
  shows "confined st st' \<and> (\<forall>x. cs_ok (st' x))"
  using assms
proof (induction rule: cap_step.induct)
  case (Copy st d ds s ss st' r)
  show ?case
    by (rule derive_step [OF Copy(2)]) (use Copy(1) derived_fields derived_leq in \<open>simp_all add: cap_copy_derive\<close>)
next
  case (Mint st d ds s ss nr b st' r)
  show ?case
    by (rule derive_step [OF Mint(2)]) (use Mint(1) derived_fields derived_leq in \<open>simp_all add: cap_mint_derive\<close>)
next
  case (Delete st p i st' r)
  show ?case
  proof (cases "\<exists>a. p = Some a \<and> caps (st a) (unat i) \<noteq> None")
    case True
    then obtain a c where a: "p = Some a" "caps (st a) (unat i) = Some c" by blast
    then obtain cs1 where "cap_delete st p i = Some (st(a := cs1), 0)" "cs_ok cs1"
      "caps cs1 = (caps (st a))(unat i := None)"
      using cap_delete_caps [of st a i] Delete(2) by auto
    then show ?thesis using Delete by (auto intro!: confined_sub split: if_splits)
  next
    case False
    then have "cap_delete st p i = Some (st, -1)"
      using cap_delete_caps [of st "the p" i] Delete(2) by (cases p) (simp_all add: cap_delete_def)
    then show ?thesis using Delete confined_refl by simp
  qed
next
  case (Revoke st p i st' r)
  have "confined st (st(a := (st a)\<lparr>generation := g\<rparr>))" for a g
    by (rule confined_sub) (simp add: caps_def split: if_splits)
  then show ?case
    using Revoke by (auto elim!: cap_revoke_cases simp: confined_refl cs_ok_generation)
qed

subsection \<open>Properties\<close>

text \<open>Two spaces as \<^verbatim>\<open>cspace_init\<close> leaves them, the first with an endpoint capability at slot 0.\<close>

definition ex_spaces :: cspaces where
  "ex_spaces = (\<lambda>_. cspace_init (\<lambda>_. \<lparr>slots = None, cs_size = 0, used = 0, cs_bitmap = None, generation = 0\<rparr>)
     (Some 0) True True 0)"

definition ex_cap :: capability where
  "ex_cap = zero_cap\<lparr>cap_type := CAP_TYPE_ENDPOINT, rights := 0x14, object := 99\<rparr>"

definition ex_store1 :: cspaces where
  "ex_store1 = (case cap_insert ex_spaces (Some 1) (Some ex_cap) of Some (st, _) \<Rightarrow> st | None \<Rightarrow> ex_spaces)"

lemma cspace_init_ok: "cs_ok (cspace_init st (Some a) True True a)"
proof -
  have t: "\<not> word_test (replicate 4 0) i" if "i < 256" for i using that by (auto simp: word_test_bit)
  then have e: "{i. i < 256 \<and> word_test (replicate 4 0) i} = {}" by blast
  have "cs_wf (replicate 256 zero_cap) (replicate 4 0) 0"
    unfolding cs_wf_def e using t by (simp add: zero_cap_def)
  then show ?thesis by (simp add: cspace_init_def cs_ok_def CSPACE_SIZE_def Let_def)
qed

lemma ex_spaces_ok: "cs_ok (ex_spaces x)"
  unfolding ex_spaces_def by (rule cspace_init_ok)

lemma ex_spaces_empty: "caps (ex_spaces x) i = None"
  by (simp add: ex_spaces_def cspace_init_def caps_def zero_cap_def Let_def)

lemma ex_store1_ok: "cs_ok (ex_store1 x)" "caps (ex_store1 1) 0 = Some (ex_cap\<lparr>cap_generation := 1\<rparr>)"
proof -
  have f: "find (\<lambda>i. caps (ex_spaces 1) i = None) [0..<256] = Some 0" by (simp add: find_least ex_spaces_empty)
  have "generation (ex_spaces 1) = 1" by (simp add: ex_spaces_def cspace_init_def Let_def)
  then obtain cs1 where e: "ex_store1 = ex_spaces(1 := cs1)" and "cs_ok cs1"
    "caps cs1 0 = Some (ex_cap\<lparr>cap_generation := 1, cap_slot := 0\<rparr>)"
    using cap_insert_caps [of ex_spaces 1 ex_cap, OF ex_spaces_ok] f
    by (auto simp: ex_store1_def ex_cap_def cap_const)
  then show "cs_ok (ex_store1 x)" "caps (ex_store1 1) 0 = Some (ex_cap\<lparr>cap_generation := 1\<rparr>)"
    unfolding e using ex_spaces_ok by (simp_all add: ex_cap_def zero_cap_def)
qed

text \<open>
  C4: Authority is confined: after any sequence of copies, mints, deletions and revocations over any
  spaces, every capability held anywhere names the same object as some capability of the
  initial state and has no right that one lacks; and it is that very capability in its own slot
  unless the original carried the \<^verbatim>\<open>GRANT\<close> right. All spaces stay well formed.
\<close>

theorem cap_confinement:
  assumes "\<forall>x. cs_ok (st x)" "cap_step\<^sup>*\<^sup>* st st'"
  shows "(\<forall>x. cs_ok (st' x)) \<and> (\<forall>x i c. caps (st' x) i = Some c \<longrightarrow>
     (\<exists>y j c0. caps (st y) j = Some c0 \<and> cap_type c = cap_type c0 \<and> object c = object c0 \<and>
        rights c AND NOT (rights c0) = 0 \<and>
        (y = x \<and> j = i \<and> c = c0 \<or> rights c0 AND CAP_RIGHT_GRANT \<noteq> 0)))"
proof -
  from assms(2) have "(\<forall>x. cs_ok (st' x)) \<and> confined st st'"
    by induction (use assms(1) confined_refl confined_trans cap_step_ok in blast)+
  then show ?thesis by (simp add: confined_def cap_leq_def)
qed

theorem cap_confinement_witness:
  "\<exists>st' c0. cap_mint ex_store1 (Some 2) 5 (Some 1) 0 0x30 7 = Some (st', 5) \<and>
     caps (st' 2) 5 = Some c0 \<and> rights c0 = 0x10 \<and> cs_ok (st' 2)"
proof -
  have m: "map_option (\<lambda>(st', r). (r, map_option rights (caps (st' 2) 5)))
      (cap_mint ex_store1 (Some 2) 5 (Some 1) 0 0x30 7) = Some (5, Some 0x10)" by code_simp
  then obtain st' where st': "cap_mint ex_store1 (Some 2) 5 (Some 1) 0 0x30 7 = Some (st', 5)" by auto
  have "cap_step\<^sup>*\<^sup>* ex_store1 st'" using cap_step.Mint [OF st'] by blast
  then have "cs_ok (st' 2)" using cap_confinement [of ex_store1 st'] ex_store1_ok(1) by blast
  then show ?thesis using m st' by auto
qed

text \<open>
  C22: \<^verbatim>\<open>cap_insert\<close> and \<^verbatim>\<open>cap_lookup\<close> form a table: an insertion into a well-formed space that is not
  full takes the lowest empty slot, after it a lookup of this slot gives the inserted capability
  with its slot number and the space's generation, every other slot looks up as before, and
  deleting the slot restores all lookups; in a full space the insertion returns \<open>-1\<close> and
  changes nothing.
\<close>

theorem cap_insert_lookup:
  assumes ok: "cs_ok (st a)" and c: "cap_type c \<noteq> CAP_TYPE_NONE"
  shows "(\<exists>st' st'' i. i < 256 \<and> cap_insert st (Some a) (Some c) = Some (st', int i) \<and> cs_ok (st' a) \<and>
      cap_lookup st (Some a) (of_nat i) = Some None \<and>
      (\<forall>j < i. cap_lookup st (Some a) (of_nat j) \<noteq> Some None) \<and>
      (\<forall>j. cap_lookup st' (Some a) j = (if unat j = i
         then Some (Some (c\<lparr>cap_slot := of_nat i, cap_generation := generation (st a)\<rparr>))
         else cap_lookup st (Some a) j)) \<and>
      cap_delete st' (Some a) (of_nat i) = Some (st'', 0) \<and>
      (\<forall>j. cap_lookup st'' (Some a) j = cap_lookup st (Some a) j)) \<or>
    (\<forall>i < 256. cap_lookup st (Some a) (of_nat i) \<noteq> Some None) \<and>
      cap_insert st (Some a) (Some c) = Some (st, -1)"
proof (cases "find (\<lambda>i. caps (st a) i = None) [0..<256]")
  case None
  then have "\<forall>i < 256. caps (st a) (unat (of_nat i :: u32)) \<noteq> None"
    by (auto simp: find_least_None unat_of_nat)
  moreover have "cap_insert st (Some a) (Some c) = Some (st, -1)"
    using cap_insert_caps [where st = st, OF ok c] None by simp
  ultimately show ?thesis by (simp add: cap_lookup_caps [where st = st, OF ok])
next
  case (Some i)
  then have i: "i < 256" "caps (st a) i = None" "\<forall>j < i. caps (st a) j \<noteq> None" by (simp_all add: find_least)
  let ?c = "c\<lparr>cap_slot := of_nat i, cap_generation := generation (st a)\<rparr>"
  obtain cs1 where ins: "cap_insert st (Some a) (Some c) = Some (st(a := cs1), int i)" "cs_ok cs1"
    "caps cs1 = (caps (st a))(i \<mapsto> ?c)"
    using cap_insert_caps [where st = st, OF ok c] Some by auto
  let ?st1 = "st(a := cs1)"
  have u: "\<And>j. j \<le> i \<Longrightarrow> unat (of_nat j :: u32) = j" using i(1) by (simp add: unat_of_nat)
  have "caps (?st1 a) (unat (of_nat i :: u32)) = Some ?c" using ins(3) u by simp
  then obtain cs2 where del: "cap_delete ?st1 (Some a) (of_nat i) = Some (?st1(a := cs2), 0)" "cs_ok cs2"
    "caps cs2 = (caps cs1)(i := None)"
    using cap_delete_caps [of ?st1 a "of_nat i"] ins(2) u by auto
  have l: "\<And>j. cap_lookup st (Some a) j = Some (caps (st a) (unat j))"
    "\<And>j. cap_lookup ?st1 (Some a) j = Some (caps cs1 (unat j))"
    "\<And>j. cap_lookup (?st1(a := cs2)) (Some a) j = Some (caps cs2 (unat j))"
    using cap_lookup_caps [of _ a] ok ins(2) del(2) by simp_all
  show ?thesis
    by (rule disjI1, intro exI [of _ ?st1] exI [of _ "?st1(a := cs2)"] exI [of _ i])
      (use ins del i u l in auto)
qed

theorem cap_insert_lookup_witness:
  "\<exists>st' i. cap_insert ex_spaces (Some 1) (Some ex_cap) = Some (st', int i) \<and>
     cap_lookup st' (Some 1) (of_nat i) = Some (Some (ex_cap\<lparr>cap_slot := of_nat i, cap_generation := 1\<rparr>))"
proof -
  have c: "cap_type ex_cap \<noteq> CAP_TYPE_NONE" by (simp add: ex_cap_def cap_const)
  have g: "generation (ex_spaces 1) = 1" by (simp add: ex_spaces_def cspace_init_def Let_def)
  have "cap_lookup ex_spaces (Some 1) 0 = Some None"
    using cap_lookup_caps [of ex_spaces 1 0] ex_spaces_ok ex_spaces_empty by simp
  then have n: "\<not> (\<forall>i < 256. cap_lookup ex_spaces (Some 1) (of_nat i) \<noteq> Some None)"
    by (intro notI) (drule spec [of _ 0], simp)
  from cap_insert_lookup [of ex_spaces 1, OF ex_spaces_ok c] show ?thesis
  proof (elim disjE exE conjE)
    fix st' st'' i assume i: "i < 256" "cap_insert ex_spaces (Some 1) (Some ex_cap) = Some (st', int i)"
      "\<forall>j. cap_lookup st' (Some 1) j = (if unat j = i
         then Some (Some (ex_cap\<lparr>cap_slot := of_nat i, cap_generation := generation (ex_spaces 1)\<rparr>))
         else cap_lookup ex_spaces (Some 1) j)"
    then have "cap_lookup st' (Some 1) (of_nat i) = Some (Some (ex_cap\<lparr>cap_slot := of_nat i, cap_generation := 1\<rparr>))"
      using g by (simp add: unat_of_nat)
    then show ?thesis using i(2) by blast
  qed (use n in blast)
qed

text \<open>
  C38: Revocation revokes nothing: whatever \<^verbatim>\<open>cap_revoke\<close> returns, every lookup in every space, and
  so every right any process holds, is the same afterwards. Only the generation counter of the
  space changes, and no operation compares it with the generation stored in a capability.
\<close>

theorem cap_revoke_no_effect:
  assumes "cap_revoke st p i = Some (st', r)"
  shows "cap_lookup st' q j = cap_lookup st q j \<and> cap_get_endpoint st' q j = cap_get_endpoint st q j"
proof -
  have "cap_lookup st' q j = cap_lookup st q j"
    using assms by (rule cap_revoke_cases) (auto simp: cap_lookup_def slot_at_def split: option.split)
  then show ?thesis by (simp add: cap_get_endpoint_def)
qed

definition ex_revocable :: cspaces where
  "ex_revocable = (case cap_insert ex_spaces (Some 1) (Some (ex_cap\<lparr>rights := 0xFFFF\<rparr>)) of
     Some (st, _) \<Rightarrow> st | None \<Rightarrow> ex_spaces)"

theorem cap_revoke_no_effect_witness:
  "\<exists>st'. cap_revoke ex_revocable (Some 1) 0 = Some (st', 0) \<and>
     cap_lookup st' (Some 1) 0 = cap_lookup ex_revocable (Some 1) 0 \<and>
     cap_get_endpoint ex_revocable (Some 1) 0 = Some 99"
proof -
  have "map_option snd (cap_revoke ex_revocable (Some 1) 0) = Some 0" by code_simp
  then obtain st' where st': "cap_revoke ex_revocable (Some 1) 0 = Some (st', 0)" by auto
  moreover have "cap_get_endpoint ex_revocable (Some 1) 0 = Some 99" by code_simp
  ultimately show ?thesis using cap_revoke_no_effect [OF st', of "Some 1" 0] by blast
qed

end
