(* ===== verification/Page_Allocator.thy ===== *)
theory Page_Allocator
  imports Ocean_Prelude
begin

text \<open>
  The contract of an allocator of aligned power-of-two blocks of page frames, which the zone
  allocator and the physical memory manager both fulfil and their clients rely on, with the
  consequence that matters most: over any sequence of requests and releases, the blocks
  handed out never overlap each other or the free memory.
\<close>

abbreviation block :: "nat \<Rightarrow> nat \<Rightarrow> nat set" where
  "block p k \<equiv> {p..<p + 2 ^ k}"

text \<open>One request or release by the owners of blocks. A request names an order and carries flags of
  the type \<open>'g\<close>; the second component of the state is the set
  of blocks handed out and not yet returned, as pairs of first frame and order.\<close>

inductive own_step :: "('s \<Rightarrow> 'g \<Rightarrow> nat \<Rightarrow> ('s \<times> nat option) option) \<Rightarrow> ('s \<Rightarrow> nat \<Rightarrow> nat \<Rightarrow> 's option) \<Rightarrow>
    's \<times> (nat \<times> nat) set \<Rightarrow> 's \<times> (nat \<times> nat) set \<Rightarrow> bool"
  for alloc dealloc where
  Get: "alloc s g k = Some (s', Some p) \<Longrightarrow> own_step alloc dealloc (s, B) (s', insert (p, k) B)"
| Fail: "alloc s g k = Some (s', None) \<Longrightarrow> own_step alloc dealloc (s, B) (s', B)"
| Put: "(p, k) \<in> B \<Longrightarrow> dealloc s p k = Some s' \<Longrightarrow> own_step alloc dealloc (s, B) (s', B - {(p, k)})"

locale page_allocator =
  fixes inv :: "'s \<Rightarrow> bool"
    and avail :: "'s \<Rightarrow> nat set"
    and region :: "'s \<Rightarrow> nat \<Rightarrow> nat \<Rightarrow> bool"
    and alloc :: "'s \<Rightarrow> 'g \<Rightarrow> nat \<Rightarrow> ('s \<times> nat option) option"
    and dealloc :: "'s \<Rightarrow> nat \<Rightarrow> nat \<Rightarrow> 's option"
    and orders :: nat
  assumes alloc_ret: "inv s \<Longrightarrow> \<exists>s' r. alloc s g k = Some (s', r)"
    and alloc_inv: "inv s \<Longrightarrow> alloc s g k = Some (s', r) \<Longrightarrow> inv s'"
    and alloc_region: "inv s \<Longrightarrow> alloc s g k = Some (s', r) \<Longrightarrow> region s' p j = region s p j"
    and alloc_Some: "inv s \<Longrightarrow> alloc s g k = Some (s', Some p) \<Longrightarrow>
      k < orders \<and> 2 ^ k dvd p \<and> region s p k \<and> block p k \<subseteq> avail s \<and> avail s' = avail s - block p k"
    and alloc_None: "inv s \<Longrightarrow> alloc s g k = Some (s', None) \<Longrightarrow> avail s' = avail s"
    and dealloc_ok: "inv s \<Longrightarrow> k < orders \<Longrightarrow> 2 ^ k dvd p \<Longrightarrow> region s p k \<Longrightarrow> block p k \<inter> avail s = {} \<Longrightarrow>
      \<exists>s'. dealloc s p k = Some s' \<and> inv s' \<and> avail s' = avail s \<union> block p k \<and>
        (\<forall>q j. region s' q j = region s q j)"
begin

text \<open>What owners may rely on.\<close>

definition owned :: "'s \<Rightarrow> (nat \<times> nat) set \<Rightarrow> bool" where
  "owned s B \<longleftrightarrow> inv s \<and>
     (\<forall>p k. (p, k) \<in> B \<longrightarrow> k < orders \<and> 2 ^ k dvd p \<and> region s p k \<and> block p k \<inter> avail s = {}) \<and>
     (\<forall>p k q j. (p, k) \<in> B \<longrightarrow> (q, j) \<in> B \<longrightarrow> (p, k) = (q, j) \<or> block p k \<inter> block q j = {})"

lemma ownedI:
  assumes "inv s"
    and "\<And>p k. (p, k) \<in> B \<Longrightarrow> k < orders \<and> 2 ^ k dvd p \<and> region s p k \<and> block p k \<inter> avail s = {}"
    and "\<And>p k q j. (p, k) \<in> B \<Longrightarrow> (q, j) \<in> B \<Longrightarrow> (p, k) \<noteq> (q, j) \<Longrightarrow> block p k \<inter> block q j = {}"
  shows "owned s B"
  using assms unfolding owned_def by metis

lemma ownedD:
  assumes "owned s B"
  shows "inv s"
    and "(p, k) \<in> B \<Longrightarrow> k < orders \<and> 2 ^ k dvd p \<and> region s p k \<and> block p k \<inter> avail s = {}"
    and "(p, k) \<in> B \<Longrightarrow> (q, j) \<in> B \<Longrightarrow> (p, k) \<noteq> (q, j) \<Longrightarrow> block p k \<inter> block q j = {}"
  using assms unfolding owned_def by metis+

lemma owned_step:
  assumes "own_step alloc dealloc st st'" "owned (fst st) (snd st)"
  shows "owned (fst st') (snd st')"
  using assms
proof (induction rule: own_step.induct)
  case (Get s g k s' p B)
  then have o: "owned s B" by simp
  note i = ownedD(1) [OF o]
  note a = alloc_Some [OF i Get(1)] and r = alloc_region [OF i Get(1)]
  have new: "block q j \<inter> block p k = {}" if "(q, j) \<in> B" for q j
    using ownedD(2) [OF o that] a by blast
  have old: "block q j \<inter> avail s' = {}" if "(q, j) \<in> B" for q j
    using ownedD(2) [OF o that] a by blast
  show ?case
    unfolding fst_conv snd_conv
  proof (rule ownedI)
    show "inv s'" using alloc_inv [OF i Get(1)] .
    show "j < orders \<and> 2 ^ j dvd q \<and> region s' q j \<and> block q j \<inter> avail s' = {}" if "(q, j) \<in> insert (p, k) B" for q j
      using that ownedD(2) [OF o, of q j] old [of q j] a r by (cases "(q, j) = (p, k)") auto
    show "block q j \<inter> block u i = {}"
      if "(q, j) \<in> insert (p, k) B" "(u, i) \<in> insert (p, k) B" "(q, j) \<noteq> (u, i)" for q j u i
      using that new [of q j] new [of u i] ownedD(3) [OF o, of q j u i] by (metis Int_commute Pair_inject insertE)
  qed
next
  case (Fail s g k s' B)
  then have o: "owned s B" by simp
  note i = ownedD(1) [OF o]
  show ?case
    using o alloc_None [OF i Fail(1)] alloc_region [OF i Fail(1)] alloc_inv [OF i Fail(1)]
    unfolding owned_def fst_conv snd_conv by simp
next
  case (Put p k B s s')
  then have o: "owned s B" by simp
  note i = ownedD(1) [OF o] and pk = ownedD(2) [OF o Put(1)]
  from dealloc_ok [OF i, of k p] pk Put(2) have d: "inv s'" "avail s' = avail s \<union> block p k"
    "\<And>q j. region s' q j = region s q j" by auto
  show ?case
    unfolding fst_conv snd_conv
  proof (rule ownedI)
    show "j < orders \<and> 2 ^ j dvd q \<and> region s' q j \<and> block q j \<inter> avail s' = {}" if q: "(q, j) \<in> B - {(p, k)}" for q j
      using ownedD(2) [OF o, of q j] ownedD(3) [OF o, of q j p k] q Put(1) d(2,3) by (simp add: Int_Un_distrib)
  qed (use d(1) ownedD(3) [OF o] in auto)
qed

lemma owned_steps:
  assumes "(own_step alloc dealloc)\<^sup>*\<^sup>* st st'" "owned (fst st) (snd st)"
  shows "owned (fst st') (snd st')"
  using assms by induction (auto intro: owned_step)

text \<open>Every request, and every release of a block in use, has a result.\<close>

lemma owned_progress:
  assumes "owned s B"
  shows "alloc s g k \<noteq> None" "(p, j) \<in> B \<Longrightarrow> dealloc s p j \<noteq> None"
  using alloc_ret [OF ownedD(1) [OF assms], of g k] dealloc_ok [OF ownedD(1) [OF assms], of j p] ownedD(2) [OF assms, of p j] by auto

text \<open>A block given back after it was handed out leaves the free memory as it was.\<close>

lemma alloc_dealloc:
  assumes "inv s" "alloc s g k = Some (s', Some p)"
  shows "\<exists>s''. dealloc s' p k = Some s'' \<and> inv s'' \<and> avail s'' = avail s"
proof -
  note a = alloc_Some [OF assms]
  have "region s' p k" using a alloc_region [OF assms] by simp
  from dealloc_ok [OF alloc_inv [OF assms] _ _ this] a show ?thesis by blast
qed

end

end
