(* ===== verification/Buddy.thy ===== *)
theory Buddy
  imports Page_Allocator "HOL-Library.Monad_Syntax"
begin

text \<open>
  The buddy allocator of \<^verbatim>\<open>kernel/mm/buddy.c\<close> for one zone. A \<^verbatim>\<open>struct page *\<close> is the frame number
  it stands for, \<^verbatim>\<open>pmm.page_array\<close> is a list, and reading or writing a page structure outside
  it is the result \<open>None\<close>. A free list is the HOL list of the frames linked in it (\<open>List_Head\<close>
  justifies this), with the head of the C list first. Frame numbers are natural numbers:
  physical addresses have at most 52 bits, so the arithmetic of the source never wraps on
  them. The counters are kept at 64 bits.
\<close>

subsection \<open>State\<close>

definition MAX_ORDER :: nat where "MAX_ORDER = 11"

definition PG_RESERVED :: u32 where "PG_RESERVED = 1"
definition PG_BUDDY :: u32 where "PG_BUDDY = 2"
definition PG_COMPOUND :: u32 where "PG_COMPOUND = 8"
definition PG_HEAD :: u32 where "PG_HEAD = 16"
definition PG_TAIL :: u32 where "PG_TAIL = 32"
definition PG_KERNEL :: u32 where "PG_KERNEL = 1024"

record page =
  flags :: u32
  order :: nat
  zone_id :: nat
  head :: "nat option"

record free_area =
  free_list :: "nat list"
  nr_free :: u64

record zone =
  start_pfn :: nat
  end_pfn :: nat
  present_pages :: u64
  free_pages :: u64
  free_areas :: "free_area list"
  alloc_count :: u64
  free_count :: u64

type_synonym mem = "page list \<times> zone"

definition page_set_flag :: "page \<Rightarrow> u32 \<Rightarrow> page" where
  "page_set_flag p f = p\<lparr>flags := flags p OR f\<rparr>"

definition page_clear_flag :: "page \<Rightarrow> u32 \<Rightarrow> page" where
  "page_clear_flag p f = p\<lparr>flags := flags p AND NOT f\<rparr>"

subsection \<open>Buddies\<close>

definition buddy_pfn :: "nat \<Rightarrow> nat \<Rightarrow> nat" where
  "buddy_pfn pfn k = pfn XOR 2 ^ k"

text \<open>\<^verbatim>\<open>pfn & ~(1UL << order)\<close>.\<close>

definition combined_pfn :: "nat \<Rightarrow> nat \<Rightarrow> nat" where
  "combined_pfn pfn k = unset_bit k pfn"

definition page_is_buddy :: "page list \<Rightarrow> zone \<Rightarrow> nat \<Rightarrow> nat \<Rightarrow> bool option" where
  "page_is_buddy pages zone bpfn k =
     (if bpfn < start_pfn zone \<or> bpfn \<ge> end_pfn zone then Some False
      else if bpfn \<ge> length pages then None
      else if flags (pages ! bpfn) AND PG_BUDDY = 0 then Some False
      else if order (pages ! bpfn) \<noteq> k then Some False
      else Some True)"

subsection \<open>Free areas\<close>

definition upd_area :: "zone \<Rightarrow> nat \<Rightarrow> (free_area \<Rightarrow> free_area) \<Rightarrow> zone" where
  "upd_area z k f = z\<lparr>free_areas := (free_areas z)[k := f (free_areas z ! k)]\<rparr>"

definition add_to_free_area :: "mem \<Rightarrow> nat \<Rightarrow> nat \<Rightarrow> mem option" where
  "add_to_free_area m pfn k =
     (case m of (pages, z) \<Rightarrow>
        if pfn \<ge> length pages then None
        else Some (pages[pfn := page_set_flag ((pages ! pfn)\<lparr>order := k\<rparr>) PG_BUDDY],
                   upd_area z k (\<lambda>a. a\<lparr>free_list := pfn # free_list a, nr_free := nr_free a + 1\<rparr>)))"

definition remove_from_free_area :: "mem \<Rightarrow> nat \<Rightarrow> nat \<Rightarrow> mem option" where
  "remove_from_free_area m pfn k =
     (case m of (pages, z) \<Rightarrow>
        if pfn \<ge> length pages then None
        else Some (pages[pfn := page_clear_flag (pages ! pfn) PG_BUDDY],
                   upd_area z k (\<lambda>a. a\<lparr>free_list := remove1 pfn (free_list a), nr_free := nr_free a - 1\<rparr>)))"

definition add_free_pages :: "mem \<Rightarrow> u64 \<Rightarrow> mem" where
  "add_free_pages m n = (case m of (pages, z) \<Rightarrow> (pages, z\<lparr>free_pages := free_pages z + n\<rparr>))"

text \<open>The splitting loop, by recursion on the order \<open>high\<close> of the block that is left.\<close>

fun expand :: "mem \<Rightarrow> nat \<Rightarrow> nat \<Rightarrow> nat \<Rightarrow> mem option" where
  "expand m pfn low high =
     (if high > low
      then do {
        let high1 = high - 1;
        m1 \<leftarrow> add_to_free_area m (pfn + 2 ^ high1) high1;
        expand (add_free_pages m1 (2 ^ high1)) pfn low high1
      }
      else Some m)"

declare expand.simps [simp del]

subsection \<open>Allocation and release\<close>

definition buddy_alloc_pages :: "mem \<Rightarrow> nat \<Rightarrow> (mem \<times> nat option) option" where
  "buddy_alloc_pages m k =
     (if k \<ge> MAX_ORDER then Some (m, None)
      else case find (\<lambda>c. free_list (free_areas (snd m) ! c) \<noteq> []) [k..<MAX_ORDER] of
        None \<Rightarrow> Some (m, None)
      | Some current_order \<Rightarrow> do {
          let pfn = hd (free_list (free_areas (snd m) ! current_order));
          m1 \<leftarrow> remove_from_free_area m pfn current_order;
          m2 \<leftarrow> (if current_order > k then expand m1 pfn k current_order else Some m1);
          Some (case m2 of (pages, z) \<Rightarrow>
                  (pages, z\<lparr>free_pages := free_pages z - 2 ^ k, alloc_count := alloc_count z + 1\<rparr>),
                Some pfn)
        })"

text \<open>The coalescing loop; it returns the block to add.\<close>

function buddy_coalesce :: "mem \<Rightarrow> nat \<Rightarrow> nat \<Rightarrow> (mem \<times> nat \<times> nat) option" where
  "buddy_coalesce m pfn k =
     (if k < MAX_ORDER - 1
      then do {
        let b = buddy_pfn pfn k;
        ok \<leftarrow> page_is_buddy (fst m) (snd m) b k;
        if \<not> ok then Some (m, pfn, k)
        else do {
          m1 \<leftarrow> remove_from_free_area m b k;
          buddy_coalesce m1 (combined_pfn pfn k) (k + 1)
        }
      }
      else Some (m, pfn, k))"
  by pat_completeness auto
termination by (relation "measure (\<lambda>(m, pfn, k). MAX_ORDER - k)") auto

declare buddy_coalesce.simps [simp del]

definition buddy_free_pages :: "mem \<Rightarrow> nat \<Rightarrow> nat \<Rightarrow> mem option" where
  "buddy_free_pages m pfn k =
     (if k \<ge> MAX_ORDER then Some m
      else do {
        (m1, pfn1, k1) \<leftarrow> buddy_coalesce m pfn k;
        m2 \<leftarrow> add_to_free_area m1 pfn1 k1;
        Some (case add_free_pages m2 (2 ^ k1) of (pages, z) \<Rightarrow>
                (pages, z\<lparr>free_count := free_count z + 1\<rparr>))
      })"

definition buddy_init_zone :: "zone \<Rightarrow> zone" where
  "buddy_init_zone z = z\<lparr>free_areas := replicate MAX_ORDER \<lparr>free_list = [], nr_free = 0\<rparr>\<rparr>"

text \<open>The largest order of a block that starts at \<open>pfn\<close> and ends by \<open>end_pfn\<close>.\<close>

definition add_order :: "nat \<Rightarrow> nat \<Rightarrow> nat" where
  "add_order pfn epfn =
     (case find (\<lambda>k. pfn mod 2 ^ k = 0 \<and> pfn + 2 ^ k \<le> epfn) (rev [1..<MAX_ORDER]) of
        Some k \<Rightarrow> k
      | None \<Rightarrow> 0)"

function buddy_add_loop :: "mem \<Rightarrow> nat \<Rightarrow> nat \<Rightarrow> mem option" where
  "buddy_add_loop m pfn epfn =
     (if pfn < epfn
      then do {
        let k = add_order pfn epfn;
        m1 \<leftarrow> add_to_free_area m pfn k;
        buddy_add_loop (add_free_pages m1 (2 ^ k)) (pfn + 2 ^ k) epfn
      }
      else Some m)"
  by pat_completeness auto
termination by (relation "measure (\<lambda>(m, pfn, epfn). epfn - pfn)") (auto intro: diff_less_mono2)

declare buddy_add_loop.simps [simp del]

definition buddy_add_pages :: "mem \<Rightarrow> nat \<Rightarrow> nat \<Rightarrow> mem option" where
  "buddy_add_pages m spfn nr = buddy_add_loop m spfn (spfn + nr)"

text \<open>The complaints of the integrity check, in the order it prints them.\<close>

datatype integrity_error = Missing_flag nat nat | Wrong_order nat nat nat | Wrong_count nat u64 u64

definition verify_area :: "page list \<Rightarrow> nat \<Rightarrow> free_area \<Rightarrow> integrity_error list" where
  "verify_area pages k a =
     concat (map (\<lambda>p. (if flags (pages ! p) AND PG_BUDDY = 0 then [Missing_flag p k] else []) @
                      (if order (pages ! p) \<noteq> k then [Wrong_order p (order (pages ! p)) k] else []))
               (free_list a)) @
     (if of_nat (length (free_list a)) \<noteq> nr_free a
      then [Wrong_count k (of_nat (length (free_list a))) (nr_free a)] else [])"

definition buddy_verify_integrity :: "mem \<Rightarrow> integrity_error list" where
  "buddy_verify_integrity m =
     concat (map (\<lambda>k. verify_area (fst m) k (free_areas (snd m) ! k)) [0..<MAX_ORDER])"

subsection \<open>Buddy arithmetic\<close>

lemma bit_aligned: "2 ^ k dvd (p::nat) \<Longrightarrow> bit p k \<longleftrightarrow> \<not> 2 ^ Suc k dvd p"
proof -
  assume "2 ^ k dvd p"
  then obtain q where q: "p = 2 ^ k * q" by (elim dvdE)
  have "bit p k \<longleftrightarrow> odd q" by (simp add: q bit_iff_odd)
  moreover have "2 ^ Suc k dvd p \<longleftrightarrow> even q" by (simp add: q mult.commute [of _ "2::nat"])
  ultimately show ?thesis by simp
qed

lemma unset_bit_nat: "unset_bit k (p::nat) = p - (if bit p k then 2 ^ k else 0)"
proof -
  have e: "int (unset_bit k p) = int p - of_bool (bit p k) * 2 ^ k"
    by (simp add: of_nat_unset_bit_eq unset_bit_eq bit_of_nat_iff)
  then have "bit p k \<Longrightarrow> int (unset_bit k p) + int (2 ^ k) = int p" by simp
  then have "bit p k \<Longrightarrow> unset_bit k p + 2 ^ k = p" by (simp only: of_nat_add [symmetric] of_nat_eq_iff)
  moreover have "\<not> bit p k \<Longrightarrow> unset_bit k p = p" using e by simp
  ultimately show ?thesis by auto
qed

lemma combined_pfn_aligned:
  assumes "2 ^ k dvd p"
  shows "combined_pfn p k = (if 2 ^ Suc k dvd p then p else p - 2 ^ k)"
    and "2 ^ Suc k dvd combined_pfn p k"
proof -
  have u: "combined_pfn p k = p - (if bit p k then 2 ^ k else 0)"
    by (simp add: combined_pfn_def unset_bit_nat)
  then show e: "combined_pfn p k = (if 2 ^ Suc k dvd p then p else p - 2 ^ k)"
    using bit_aligned [OF assms] by simp
  obtain q where q: "p = 2 ^ k * q" using assms by (elim dvdE)
  show "2 ^ Suc k dvd combined_pfn p k"
  proof (cases "2 ^ Suc k dvd p")
    case False
    then have "odd q" by (auto simp: q)
    then obtain r where "q = 2 * r + 1" by (elim oddE)
    then have "p - 2 ^ k = 2 ^ Suc k * r" by (simp add: q algebra_simps)
    then show ?thesis using False e by simp
  qed (simp add: e)
qed

lemma buddy_pfn_aligned:
  assumes "2 ^ k dvd p"
  shows "buddy_pfn p k = (if 2 ^ Suc k dvd p then p + 2 ^ k else p - 2 ^ k)"
proof -
  have "buddy_pfn p k = flip_bit k p" by (simp add: buddy_pfn_def flip_bit_eq_xor)
  also have "\<dots> = (if bit p k then p - 2 ^ k else p + 2 ^ k)"
    by (auto simp: flip_bit_eq_if set_bit_eq unset_bit_nat)
  finally show ?thesis using bit_aligned [OF assms] by simp
qed

lemma buddy_aligned: "2 ^ k dvd p \<Longrightarrow> 2 ^ k dvd buddy_pfn p k"
  by (simp add: buddy_pfn_aligned)

text \<open>A block and its buddy are the two halves of the combined block.\<close>

lemma buddy_union:
  assumes "2 ^ k dvd p"
  shows "block p k \<union> block (buddy_pfn p k) k = block (combined_pfn p k) (Suc k)"
    and "block p k \<inter> block (buddy_pfn p k) k = {}"
proof -
  have "2 ^ k \<le> p" if "\<not> 2 ^ Suc k dvd p"
    using assms that by (metis dvd_0_right dvd_imp_le gr0I)
  then show "block p k \<union> block (buddy_pfn p k) k = block (combined_pfn p k) (Suc k)"
    "block p k \<inter> block (buddy_pfn p k) k = {}"
    using combined_pfn_aligned(1) [OF assms] buddy_pfn_aligned [OF assms] by auto
qed

lemma block_split: "block p (Suc k) = block p k \<union> block (p + 2 ^ k) k" "block p k \<inter> block (p + 2 ^ k) k = {}"
  by auto

subsection \<open>The zone invariant\<close>

text \<open>The free blocks of a zone as pairs of first frame and order, and the frames they cover.\<close>

definition blocks :: "zone \<Rightarrow> (nat \<times> nat) set" where
  "blocks z = {(p, k). k < MAX_ORDER \<and> p \<in> set (free_list (free_areas z ! k))}"

definition free_frames :: "zone \<Rightarrow> nat set" where
  "free_frames z = (\<Union>(p, k) \<in> blocks z. block p k)"

definition areas_ok :: "zone \<Rightarrow> bool" where
  "areas_ok z \<longleftrightarrow> length (free_areas z) = MAX_ORDER \<and>
     (\<forall>k < MAX_ORDER. distinct (free_list (free_areas z ! k)) \<and>
        nr_free (free_areas z ! k) = of_nat (length (free_list (free_areas z ! k))))"

definition in_zone :: "page list \<Rightarrow> zone \<Rightarrow> nat \<Rightarrow> nat \<Rightarrow> bool" where
  "in_zone pages z p k \<longleftrightarrow> 2 ^ k dvd p \<and> start_pfn z \<le> p \<and> p + 2 ^ k \<le> end_pfn z \<and> p + 2 ^ k \<le> length pages"

abbreviation marked :: "page \<Rightarrow> bool" where
  "marked pg \<equiv> flags pg AND PG_BUDDY \<noteq> 0"

text \<open>
  Free blocks are aligned, inside the zone and the page array, and disjoint; and in the zone
  exactly the first frames of free blocks carry \<^verbatim>\<open>PG_BUDDY\<close>, with the order of their block.
\<close>

definition zone_ok :: "mem \<Rightarrow> bool" where
  "zone_ok m \<longleftrightarrow> (case m of (pages, z) \<Rightarrow> areas_ok z \<and>
     (\<forall>p k. (p, k) \<in> blocks z \<longrightarrow> in_zone pages z p k \<and> marked (pages ! p) \<and> order (pages ! p) = k) \<and>
     (\<forall>p. start_pfn z \<le> p \<and> p < end_pfn z \<and> p < length pages \<and> marked (pages ! p) \<longrightarrow>
        (p, order (pages ! p)) \<in> blocks z) \<and>
     (\<forall>p k q j. (p, k) \<in> blocks z \<longrightarrow> (q, j) \<in> blocks z \<longrightarrow> block p k \<inter> block q j \<noteq> {} \<longrightarrow> p = q \<and> k = j))"

lemma marked_set: "marked (page_set_flag pg PG_BUDDY)"
  by (simp add: page_set_flag_def or_and_same PG_BUDDY_def)

lemma marked_clear: "\<not> marked (page_clear_flag pg PG_BUDDY)"
  by (simp add: page_clear_flag_def and_not_same)

lemma set_clear_sel [simp]:
  "order (page_set_flag pg f) = order pg" "order (page_clear_flag pg f) = order pg"
  by (simp_all add: page_set_flag_def page_clear_flag_def)

lemma upd_area_sel [simp]:
  "start_pfn (upd_area z k f) = start_pfn z" "end_pfn (upd_area z k f) = end_pfn z"
  "free_pages (upd_area z k f) = free_pages z" "alloc_count (upd_area z k f) = alloc_count z"
  "free_count (upd_area z k f) = free_count z" "present_pages (upd_area z k f) = present_pages z"
  "free_areas (upd_area z k f) = (free_areas z)[k := f (free_areas z ! k)]"
  by (simp_all add: upd_area_def)

lemma block_self: "p \<in> block p k" by simp

lemma zone_okD:
  assumes "zone_ok (pages, z)"
  shows "areas_ok z"
    and "(p, k) \<in> blocks z \<Longrightarrow> in_zone pages z p k \<and> marked (pages ! p) \<and> order (pages ! p) = k"
    and "start_pfn z \<le> p \<Longrightarrow> p < end_pfn z \<Longrightarrow> p < length pages \<Longrightarrow> marked (pages ! p) \<Longrightarrow>
      (p, order (pages ! p)) \<in> blocks z"
    and "(p, k) \<in> blocks z \<Longrightarrow> (q, j) \<in> blocks z \<Longrightarrow> block p k \<inter> block q j \<noteq> {} \<Longrightarrow> p = q \<and> k = j"
  using assms unfolding zone_ok_def prod.case by blast+

lemma zone_okI:
  assumes "areas_ok z"
    and "\<And>p k. (p, k) \<in> blocks z \<Longrightarrow> in_zone pages z p k \<and> marked (pages ! p) \<and> order (pages ! p) = k"
    and "\<And>p. start_pfn z \<le> p \<Longrightarrow> p < end_pfn z \<Longrightarrow> p < length pages \<Longrightarrow> marked (pages ! p) \<Longrightarrow>
      (p, order (pages ! p)) \<in> blocks z"
    and "\<And>p k q j. (p, k) \<in> blocks z \<Longrightarrow> (q, j) \<in> blocks z \<Longrightarrow> block p k \<inter> block q j \<noteq> {} \<Longrightarrow> p = q \<and> k = j"
  shows "zone_ok (pages, z)"
  using assms unfolding zone_ok_def prod.case by blast

lemma blocks_disjoint_start:
  assumes "zone_ok (pages, z)" "(p, k) \<in> blocks z" "(q, j) \<in> blocks z" "p \<in> block q j"
  shows "p = q \<and> k = j"
  using zone_okD(4) [OF assms(1-3)] block_self [of p k] assms(4) by blast

lemma blocks_add:
  assumes "areas_ok z" "k < MAX_ORDER" "(p, k) \<notin> blocks z"
  defines "z' \<equiv> upd_area z k (\<lambda>a. a\<lparr>free_list := p # free_list a, nr_free := nr_free a + 1\<rparr>)"
  shows "blocks z' = insert (p, k) (blocks z)" "areas_ok z'"
  using assms(1-3) unfolding z'_def
  by (auto simp: blocks_def areas_ok_def nth_list_update split: if_splits)

lemma blocks_remove:
  assumes "areas_ok z" "(p, k) \<in> blocks z"
  defines "z' \<equiv> upd_area z k (\<lambda>a. a\<lparr>free_list := remove1 p (free_list a), nr_free := nr_free a - 1\<rparr>)"
  shows "blocks z' = blocks z - {(p, k)}" "areas_ok z'"
proof -
  let ?l = "free_list (free_areas z ! k)"
  have k: "k < MAX_ORDER" "p \<in> set ?l" "distinct ?l" "length (free_areas z) = MAX_ORDER"
    using assms(1,2) by (auto simp: blocks_def areas_ok_def)
  show "blocks z' = blocks z - {(p, k)}"
    using k unfolding z'_def by (auto simp: blocks_def nth_list_update split: if_splits)
  have "(of_nat (length ?l) :: u64) - 1 = of_nat (length ?l - 1)"
    using k(2) by (cases ?l) auto
  then show "areas_ok z'"
    using assms(1) k unfolding z'_def areas_ok_def by (auto simp: nth_list_update length_remove1)
qed

lemma free_frames_insert: "blocks z' = insert (p, k) (blocks z) \<Longrightarrow> free_frames z' = block p k \<union> free_frames z"
  by (simp add: free_frames_def)

lemma free_frames_remove:
  assumes "zone_ok (pages, z)" "(p, k) \<in> blocks z" "blocks z' = blocks z - {(p, k)}"
  shows "free_frames z' = free_frames z - block p k"
proof -
  have "block q j \<inter> block p k = {}" if "(q, j) \<in> blocks z - {(p, k)}" for q j
    using zone_okD(4) [OF assms(1) _ assms(2), of q j] that by blast
  then have "free_frames z' \<inter> block p k = {}" unfolding free_frames_def assms(3) by blast
  moreover have "free_frames z = free_frames z' \<union> block p k"
    using assms(2) unfolding free_frames_def assms(3) by blast
  ultimately show ?thesis by blast
qed

lemma block_free: "(p, k) \<in> blocks z \<Longrightarrow> block p k \<subseteq> free_frames z"
  by (auto simp: free_frames_def)

lemma notin_blocks: "block p k \<inter> free_frames z = {} \<Longrightarrow> (p, j) \<notin> blocks z"
  using block_free [of p j z] block_self by (metis disjoint_iff subsetD)

text \<open>What every operation of a zone leaves alone: the bounds, and the page structures of other
  zones.\<close>

definition zone_frame :: "mem \<Rightarrow> mem \<Rightarrow> bool" where
  "zone_frame m m' \<longleftrightarrow> (case (m, m') of ((pages, z), (pages', z')) \<Rightarrow>
     start_pfn z' = start_pfn z \<and> end_pfn z' = end_pfn z \<and> present_pages z' = present_pages z \<and>
     length pages' = length pages \<and>
     (\<forall>p. zone_id (pages' ! p) = zone_id (pages ! p)) \<and>
     (\<forall>p. p < start_pfn z \<or> end_pfn z \<le> p \<longrightarrow> pages' ! p = pages ! p))"

lemma zone_frame_refl [simp]: "zone_frame m m"
  by (simp add: zone_frame_def split: prod.split)

lemma zone_frame_trans: "zone_frame m m1 \<Longrightarrow> zone_frame m1 m2 \<Longrightarrow> zone_frame m m2"
  by (cases m; cases m1; cases m2) (simp add: zone_frame_def)

lemma zone_frameD:
  assumes "zone_frame m m'"
  shows "start_pfn (snd m') = start_pfn (snd m)" "end_pfn (snd m') = end_pfn (snd m)"
    "length (fst m') = length (fst m)" "present_pages (snd m') = present_pages (snd m)"
    "zone_id (fst m' ! p) = zone_id (fst m ! p)"
    "p < start_pfn (snd m) \<or> end_pfn (snd m) \<le> p \<Longrightarrow> fst m' ! p = fst m ! p"
proof -
  have "zone_frame (fst m, snd m) (fst m', snd m')" using assms by simp
  then show "start_pfn (snd m') = start_pfn (snd m)" "end_pfn (snd m') = end_pfn (snd m)"
    "length (fst m') = length (fst m)" "present_pages (snd m') = present_pages (snd m)"
    "zone_id (fst m' ! p) = zone_id (fst m ! p)"
    "p < start_pfn (snd m) \<or> end_pfn (snd m) \<le> p \<Longrightarrow> fst m' ! p = fst m ! p"
    unfolding zone_frame_def prod.case by blast+
qed

lemma zone_frame_in_zone: "zone_frame (pages, z) (pages', z') \<Longrightarrow> in_zone pages' z' p k = in_zone pages z p k"
  by (simp add: zone_frame_def in_zone_def)

lemma in_zone_bounds:
  assumes "in_zone pages z p k"
  shows "start_pfn z \<le> p" "p < end_pfn z" "p < length pages"
proof -
  have "(0::nat) < 2 ^ k" by simp
  then show "start_pfn z \<le> p" "p < end_pfn z" "p < length pages"
    using assms unfolding in_zone_def by linarith+
qed

lemma add_ok:
  assumes ok: "zone_ok (pages, z)" and k: "k < MAX_ORDER" and p: "in_zone pages z p k"
    and free: "block p k \<inter> free_frames z = {}"
  obtains pages' z' where "add_to_free_area (pages, z) p k = Some (pages', z')" "zone_ok (pages', z')"
    "blocks z' = insert (p, k) (blocks z)" "zone_frame (pages, z) (pages', z')"
    "free_pages z' = free_pages z"
proof -
  define pages' where "pages' = pages[p := page_set_flag ((pages ! p)\<lparr>order := k\<rparr>) PG_BUDDY]"
  define z' where "z' = upd_area z k (\<lambda>a. a\<lparr>free_list := p # free_list a, nr_free := nr_free a + 1\<rparr>)"
  note b = in_zone_bounds [OF p]
  note bl = blocks_add [OF zone_okD(1) [OF ok] k notin_blocks [OF free], folded z'_def]
  have fr: "zone_frame (pages, z) (pages', z')"
    using b by (auto simp: zone_frame_def pages'_def z'_def page_set_flag_def nth_upd)
  have pg: "marked (pages' ! p) \<and> order (pages' ! p) = k" using b(3) marked_set by (simp add: pages'_def)
  have other: "q \<noteq> p \<Longrightarrow> pages' ! q = pages ! q" for q by (simp add: pages'_def)
  have ne: "q \<noteq> p" if "(q, j) \<in> blocks z" for q j using that notin_blocks [OF free] by blast
  have "zone_ok (pages', z')"
  proof (rule zone_okI)
    show "areas_ok z'" using bl(2) .
  next
    fix q j assume "(q, j) \<in> blocks z'"
    then show "in_zone pages' z' q j \<and> marked (pages' ! q) \<and> order (pages' ! q) = j"
      using zone_okD(2) [OF ok, of q j] ne [of q j] pg p other [of q] bl(1) zone_frame_in_zone [OF fr] by auto
  next
    fix q assume "start_pfn z' \<le> q" "q < end_pfn z'" "q < length pages'" "marked (pages' ! q)"
    then show "(q, order (pages' ! q)) \<in> blocks z'"
      using zone_okD(3) [OF ok, of q] pg other [of q] bl(1) by (cases "q = p") (auto simp: pages'_def z'_def)
  next
    fix q j r i assume "(q, j) \<in> blocks z'" "(r, i) \<in> blocks z'" "block q j \<inter> block r i \<noteq> {}"
    then show "q = r \<and> j = i"
      using zone_okD(4) [OF ok, of q j r i] free block_free [of q j z] block_free [of r i z]
      unfolding bl(1) by blast
  qed
  moreover have "add_to_free_area (pages, z) p k = Some (pages', z')"
    using b by (simp add: add_to_free_area_def pages'_def z'_def)
  ultimately show ?thesis using that bl fr by (simp add: z'_def)
qed

lemma remove_ok:
  assumes ok: "zone_ok (pages, z)" and pk: "(p, k) \<in> blocks z"
  obtains pages' z' where "remove_from_free_area (pages, z) p k = Some (pages', z')" "zone_ok (pages', z')"
    "blocks z' = blocks z - {(p, k)}" "zone_frame (pages, z) (pages', z')" "free_pages z' = free_pages z"
proof -
  define pages' where "pages' = pages[p := page_clear_flag (pages ! p) PG_BUDDY]"
  define z' where "z' = upd_area z k (\<lambda>a. a\<lparr>free_list := remove1 p (free_list a), nr_free := nr_free a - 1\<rparr>)"
  have p: "in_zone pages z p k" using zone_okD(2) [OF ok pk] by blast
  note b = in_zone_bounds [OF p]
  note bl = blocks_remove [OF zone_okD(1) [OF ok] pk, folded z'_def]
  have fr: "zone_frame (pages, z) (pages', z')"
    using b by (auto simp: zone_frame_def pages'_def z'_def page_clear_flag_def nth_upd)
  have pg: "\<not> marked (pages' ! p)" using b(3) marked_clear by (simp add: pages'_def)
  have other: "q \<noteq> p \<Longrightarrow> pages' ! q = pages ! q" for q by (simp add: pages'_def)
  have ne: "q \<noteq> p" if "(q, j) \<in> blocks z - {(p, k)}" for q j
    using blocks_disjoint_start [OF ok _ pk, of q j] that by auto
  have "zone_ok (pages', z')"
  proof (rule zone_okI)
    show "areas_ok z'" using bl(2) .
  next
    fix q j assume "(q, j) \<in> blocks z'"
    then have q: "(q, j) \<in> blocks z - {(p, k)}" using bl(1) by simp
    then have "(q, j) \<in> blocks z" by simp
    then show "in_zone pages' z' q j \<and> marked (pages' ! q) \<and> order (pages' ! q) = j"
      unfolding other [OF ne [OF q]] zone_frame_in_zone [OF fr] by (rule zone_okD(2) [OF ok])
  next
    fix q assume "start_pfn z' \<le> q" "q < end_pfn z'" "q < length pages'" "marked (pages' ! q)"
    moreover from this have "q \<noteq> p" using pg by auto
    ultimately show "(q, order (pages' ! q)) \<in> blocks z'"
      using zone_okD(3) [OF ok, of q] other [of q] bl(1) by (simp add: pages'_def z'_def)
  next
    fix q j r i assume "(q, j) \<in> blocks z'" "(r, i) \<in> blocks z'" "block q j \<inter> block r i \<noteq> {}"
    then show "q = r \<and> j = i" using zone_okD(4) [OF ok, of q j r i] unfolding bl(1) by blast
  qed
  moreover have "remove_from_free_area (pages, z) p k = Some (pages', z')"
    using b by (simp add: remove_from_free_area_def pages'_def z'_def)
  ultimately show ?thesis using that bl fr by (simp add: z'_def)
qed

subsection \<open>Splitting and coalescing\<close>

lemma zone_counters [simp]:
  "blocks (z\<lparr>free_pages := x\<rparr>) = blocks z" "blocks (z\<lparr>alloc_count := y\<rparr>) = blocks z"
  "blocks (z\<lparr>free_count := y\<rparr>) = blocks z"
  "free_frames (z\<lparr>free_pages := x\<rparr>) = free_frames z" "free_frames (z\<lparr>alloc_count := y\<rparr>) = free_frames z"
  "free_frames (z\<lparr>free_count := y\<rparr>) = free_frames z"
  "zone_ok (pages, z\<lparr>free_pages := x\<rparr>) = zone_ok (pages, z)"
  "zone_ok (pages, z\<lparr>alloc_count := y\<rparr>) = zone_ok (pages, z)"
  "zone_ok (pages, z\<lparr>free_count := y\<rparr>) = zone_ok (pages, z)"
  "in_zone pages (z\<lparr>free_pages := x\<rparr>) p k = in_zone pages z p k"
  "zone_frame m (pages, z\<lparr>free_pages := x\<rparr>) = zone_frame m (pages, z)"
  "zone_frame m (pages, z\<lparr>alloc_count := y\<rparr>) = zone_frame m (pages, z)"
  "zone_frame m (pages, z\<lparr>free_count := y\<rparr>) = zone_frame m (pages, z)"
  "blocks (z\<lparr>present_pages := y\<rparr>) = blocks z" "free_frames (z\<lparr>present_pages := y\<rparr>) = free_frames z"
  "zone_ok (pages, z\<lparr>present_pages := y\<rparr>) = zone_ok (pages, z)"
  by (simp_all add: blocks_def free_frames_def zone_ok_def areas_ok_def in_zone_def zone_frame_def
    split: prod.split)

lemma in_zone_half:
  assumes "in_zone pages z p (Suc h)"
  shows "in_zone pages z p h" "in_zone pages z (p + 2 ^ h) h"
proof -
  have "(2::nat) ^ h dvd 2 ^ Suc h" by simp
  then have "2 ^ h dvd p" using assms unfolding in_zone_def by (blast intro: dvd_trans)
  then show "in_zone pages z p h" "in_zone pages z (p + 2 ^ h) h"
    using assms by (simp_all add: in_zone_def)
qed

lemma expand_ok:
  assumes "zone_ok (pages, z)" "high < MAX_ORDER" "low \<le> high" "in_zone pages z p high"
    "block p high \<inter> free_frames z = {}"
  shows "\<exists>pages' z'. expand (pages, z) p low high = Some (pages', z') \<and> zone_ok (pages', z') \<and>
    zone_frame (pages, z) (pages', z') \<and> free_pages z' = free_pages z + (2 ^ high - 2 ^ low) \<and>
    blocks z' = blocks z \<union> (\<lambda>j. (p + 2 ^ j, j)) ` {low..<high} \<and>
    free_frames z' = free_frames z \<union> (block p high - block p low)"
  using assms
proof (induction high arbitrary: pages z)
  case (Suc h)
  show ?case
  proof (cases "low = Suc h")
    case True
    then show ?thesis using Suc.prems(1) by (simp add: expand.simps)
  next
    case False
    then have low: "low \<le> h" using Suc.prems(3) by simp
    note half = in_zone_half [OF Suc.prems(4)] and sp = block_split [of p h]
    have free: "block (p + 2 ^ h) h \<inter> free_frames z = {}" using Suc.prems(5) sp by blast
    obtain pages1 z1 where 1: "add_to_free_area (pages, z) (p + 2 ^ h) h = Some (pages1, z1)"
      "zone_ok (pages1, z1)" "blocks z1 = insert (p + 2 ^ h, h) (blocks z)"
      "zone_frame (pages, z) (pages1, z1)" "free_pages z1 = free_pages z"
      using add_ok [OF Suc.prems(1) _ half(2) free] Suc.prems(2) by auto
    let ?z1 = "z1\<lparr>free_pages := free_pages z1 + 2 ^ h\<rparr>"
    have ff: "free_frames z1 = block (p + 2 ^ h) h \<union> free_frames z" using free_frames_insert [OF 1(3)] .
    have "block p h \<inter> free_frames ?z1 = {}" using ff sp Suc.prems(5) by auto
    then obtain pages' z' where 2: "expand (pages1, ?z1) p low h = Some (pages', z')" "zone_ok (pages', z')"
      "zone_frame (pages1, ?z1) (pages', z')" "free_pages z' = free_pages ?z1 + (2 ^ h - 2 ^ low)"
      "blocks z' = blocks ?z1 \<union> (\<lambda>j. (p + 2 ^ j, j)) ` {low..<h}"
      "free_frames z' = free_frames ?z1 \<union> (block p h - block p low)"
      using Suc.IH [of pages1 ?z1] 1 Suc.prems(2) low half(1) zone_frame_in_zone [OF 1(4)] by auto
    have e: "expand (pages, z) p low (Suc h) = Some (pages', z')"
      using 1(1) 2(1) low by (subst expand.simps) (simp add: add_free_pages_def)
    have "zone_frame (pages, z) (pages1, ?z1)" using 1(4) by simp
    then have fr: "zone_frame (pages, z) (pages', z')" using 2(3) by (rule zone_frame_trans)
    have "(2::nat) ^ low \<le> 2 ^ h" using low by (simp add: power_increasing)
    then have "block p low \<subseteq> block p h" by auto
    then have f: "free_frames z' = free_frames z \<union> (block p (Suc h) - block p low)"
      using 2(6) unfolding zone_counters ff sp(1) using sp(2) by blast
    have bl: "blocks z' = blocks z \<union> (\<lambda>j. (p + 2 ^ j, j)) ` {low..<Suc h}"
      using 2(5) 1(3) low by (simp add: atLeastLessThanSuc)
    have "free_pages z' = free_pages z + (2 ^ Suc h - 2 ^ low)"
      using 2(4) 1(5) by (simp add: algebra_simps)
    then show ?thesis using e 2(2) fr f bl by simp
  qed
qed (simp add: expand.simps)

lemma block_mono: "k \<le> c \<Longrightarrow> block p k \<subseteq> block p c"
  by (simp add: power_increasing)

lemma in_zone_mono: "k \<le> c \<Longrightarrow> in_zone pages z p c \<Longrightarrow> in_zone pages z p k"
proof -
  assume k: "k \<le> c" and iz: "in_zone pages z p c"
  then have "(2::nat) ^ k dvd 2 ^ c" "p + 2 ^ k \<le> p + 2 ^ c" by (simp_all add: le_imp_power_dvd power_increasing)
  then show ?thesis using iz unfolding in_zone_def by (meson dvd_trans le_trans)
qed

lemma alloc_none:
  "find (\<lambda>c. free_list (free_areas z ! c) \<noteq> []) [k..<MAX_ORDER] = None \<Longrightarrow> (p, j) \<in> blocks z \<Longrightarrow> j < k"
  by (auto simp: find_None_iff blocks_def not_le)

lemma alloc_some:
  assumes ok: "zone_ok (pages, z)" and k: "k < MAX_ORDER"
    and c: "find (\<lambda>c. free_list (free_areas z ! c) \<noteq> []) [k..<MAX_ORDER] = Some c"
  shows "\<exists>pages' z' p. buddy_alloc_pages (pages, z) k = Some ((pages', z'), Some p) \<and> zone_ok (pages', z') \<and>
    zone_frame (pages, z) (pages', z') \<and> (p, c) \<in> blocks z \<and> k \<le> c \<and> in_zone pages z p k \<and>
    blocks z' = blocks z - {(p, c)} \<union> (\<lambda>j. (p + 2 ^ j, j)) ` {k..<c} \<and>
    free_frames z' = free_frames z - block p k \<and> block p k \<subseteq> block p c \<and>
    free_pages z' = free_pages z + (2 ^ c - 2 ^ k) - 2 ^ k"
proof -
  let ?p = "hd (free_list (free_areas z ! c))"
  have c': "k \<le> c" "c < MAX_ORDER" "free_list (free_areas z ! c) \<noteq> []"
    using c unfolding find_Some_iff by auto
  then have pc: "(?p, c) \<in> blocks z" by (simp add: blocks_def)
  obtain pages1 z1 where 1: "remove_from_free_area (pages, z) ?p c = Some (pages1, z1)" "zone_ok (pages1, z1)"
    "blocks z1 = blocks z - {(?p, c)}" "zone_frame (pages, z) (pages1, z1)" "free_pages z1 = free_pages z"
    using remove_ok [OF ok pc] by blast
  have ff1: "free_frames z1 = free_frames z - block ?p c" using free_frames_remove [OF ok pc 1(3)] .
  have iz: "in_zone pages z ?p c" using zone_okD(2) [OF ok pc] by blast
  have iz1: "in_zone pages1 z1 ?p c" using iz zone_frame_in_zone [OF 1(4)] by simp
  have dis: "block ?p c \<inter> free_frames z1 = {}" using ff1 by blast
  obtain pages2 z2 where 2: "expand (pages1, z1) ?p k c = Some (pages2, z2)" "zone_ok (pages2, z2)"
    "zone_frame (pages1, z1) (pages2, z2)" "free_pages z2 = free_pages z1 + (2 ^ c - 2 ^ k)"
    "blocks z2 = blocks z1 \<union> (\<lambda>j. (?p + 2 ^ j, j)) ` {k..<c}"
    "free_frames z2 = free_frames z1 \<union> (block ?p c - block ?p k)"
    using expand_ok [OF 1(2) c'(2,1) iz1 dis] by blast
  have "(if c > k then expand (pages1, z1) ?p k c else Some (pages1, z1)) = Some (pages2, z2)"
    using 2(1) c'(1) by (cases "c = k") (auto simp: expand.simps)
  then have "buddy_alloc_pages (pages, z) k = Some ((pages2, z2\<lparr>free_pages := free_pages z2 - 2 ^ k,
      alloc_count := alloc_count z2 + 1\<rparr>), Some ?p)"
    using k c 1(1) by (simp add: buddy_alloc_pages_def Let_def)
  moreover have sub: "block ?p k \<subseteq> block ?p c" using block_mono [OF c'(1)] .
  moreover have "free_frames z2 = free_frames z - block ?p k"
    using 2(6) ff1 sub block_free [OF pc] by blast
  moreover have "in_zone pages z ?p k" using in_zone_mono [OF c'(1) iz] .
  ultimately show ?thesis
    using 1 2(2-5) c'(1) pc zone_frame_trans [OF 1(4) 2(3)] by (intro exI conjI) (assumption | simp)+
qed

text \<open>
  The coalescing loop looks at the page structure of the buddy. It is inside the page array if the
  array covers the zone, or if its length is a multiple of the largest block.
\<close>

definition array_ok :: "page list \<Rightarrow> zone \<Rightarrow> bool" where
  "array_ok pages z \<longleftrightarrow> end_pfn z \<le> length pages \<or> 2 ^ (MAX_ORDER - 1) dvd length pages"

lemma aligned_le: "(m::nat) dvd a \<Longrightarrow> m dvd b \<Longrightarrow> x < a + m \<Longrightarrow> b \<le> x \<Longrightarrow> b \<le> a"
proof (rule ccontr)
  assume "m dvd a" "m dvd b" "x < a + m" "b \<le> x" "\<not> b \<le> a"
  then have "m dvd b - a" "0 < b - a" by (simp_all add: dvd_diff_nat)
  then have "m \<le> b - a" by (rule dvd_imp_le)
  with \<open>x < a + m\<close> \<open>b \<le> x\<close> \<open>\<not> b \<le> a\<close> show False by simp
qed

lemma buddy_in_array:
  assumes "array_ok pages z" "in_zone pages z p k" "k < MAX_ORDER - 1" "buddy_pfn p k < end_pfn z"
  shows "buddy_pfn p k < length pages"
proof (cases "end_pfn z \<le> length pages")
  case False
  have d: "2 ^ k dvd p" using assms(2) by (simp add: in_zone_def)
  note u = buddy_union(1) [OF d]
  let ?c = "combined_pfn p k" and ?n = "length pages"
  have "(2::nat) ^ Suc k dvd 2 ^ (MAX_ORDER - 1)" using assms(3) by (intro le_imp_power_dvd) simp
  then have n: "2 ^ Suc k dvd ?n" using assms(1) False unfolding array_ok_def by (auto intro: dvd_trans)
  have "p \<in> block ?c (Suc k)" "buddy_pfn p k \<in> block ?c (Suc k)" unfolding u [symmetric] using block_self by blast+
  moreover have "p < ?n" using in_zone_bounds(3) [OF assms(2)] .
  ultimately have "\<not> ?n \<le> buddy_pfn p k"
    using aligned_le [OF combined_pfn_aligned(2) [OF d] n, of "buddy_pfn p k"] by auto
  then show ?thesis by simp
qed (use assms(4) in simp)

lemma page_is_buddy_blocks:
  assumes ok: "zone_ok (pages, z)" and len: "b < end_pfn z \<Longrightarrow> b < length pages" and k: "k < MAX_ORDER"
  shows "page_is_buddy pages z b k = Some ((b, k) \<in> blocks z)"
proof (cases "start_pfn z \<le> b \<and> b < end_pfn z \<and> marked (pages ! b) \<and> order (pages ! b) = k")
  case True
  then have "(b, k) \<in> blocks z" using zone_okD(3) [OF ok, of b] len by auto
  then show ?thesis using True len by (auto simp: page_is_buddy_def)
next
  case False
  then have "(b, k) \<notin> blocks z" using zone_okD(2) [OF ok, of b k] in_zone_bounds by blast
  then show ?thesis using False len by (auto simp: page_is_buddy_def)
qed

lemma in_zone_combined:
  assumes p: "in_zone pages z p k" and b: "in_zone pages z (buddy_pfn p k) k"
  shows "in_zone pages z (combined_pfn p k) (Suc k)"
proof -
  have d: "2 ^ k dvd p" using p by (simp add: in_zone_def)
  note c = combined_pfn_aligned [OF d] and bp = buddy_pfn_aligned [OF d]
  have "2 ^ k \<le> p" if "\<not> 2 ^ Suc k dvd p" using d that by (metis dvd_0_right dvd_imp_le gr0I)
  then show ?thesis using p b c bp unfolding in_zone_def by (cases "2 ^ Suc k dvd p") simp_all
qed

lemma coalesce_ok:
  assumes "zone_ok (pages, z)" "k < MAX_ORDER" "in_zone pages z p k" "block p k \<inter> free_frames z = {}"
    "array_ok pages z"
  shows "\<exists>pages' z' p' k'. buddy_coalesce (pages, z) p k = Some ((pages', z'), p', k') \<and>
    zone_ok (pages', z') \<and> zone_frame (pages, z) (pages', z') \<and> free_pages z' = free_pages z \<and>
    k \<le> k' \<and> k' < MAX_ORDER \<and> in_zone pages' z' p' k' \<and> block p' k' \<inter> free_frames z' = {} \<and>
    block p' k' \<union> free_frames z' = block p k \<union> free_frames z \<and> blocks z' \<subseteq> blocks z \<and>
    block p k \<subseteq> block p' k' \<and> (k' = MAX_ORDER - 1 \<or> (buddy_pfn p' k', k') \<notin> blocks z')"
  using assms
proof (induction "MAX_ORDER - k" arbitrary: pages z p k rule: less_induct)
  case (less k pages z p)
  note 1 = less(1-6)
  note ok = 1(2) and p = 1(4)
  let ?b = "buddy_pfn p k"
  have pib: "page_is_buddy pages z ?b k = Some ((?b, k) \<in> blocks z)" if "k < MAX_ORDER - 1"
    using page_is_buddy_blocks [OF ok _ 1(3)] buddy_in_array [OF 1(6) p that] by blast
  show ?case
  proof (cases "k < MAX_ORDER - 1 \<and> (?b, k) \<in> blocks z")
    case False
    then have "buddy_coalesce (pages, z) p k = Some ((pages, z), p, k)"
      using pib by (subst buddy_coalesce.simps) auto
    then show ?thesis using 1(2-5) False by (intro exI conjI) (assumption | force)+
  next
    case True
    obtain pages1 z1 where r: "remove_from_free_area (pages, z) ?b k = Some (pages1, z1)" "zone_ok (pages1, z1)"
      "blocks z1 = blocks z - {(?b, k)}" "zone_frame (pages, z) (pages1, z1)" "free_pages z1 = free_pages z"
      using remove_ok [OF ok] True by blast
    have d: "2 ^ k dvd p" using p by (simp add: in_zone_def)
    note u = buddy_union [OF d]
    have ff: "free_frames z1 = free_frames z - block ?b k" using free_frames_remove [OF ok _ r(3)] True by blast
    have iz: "in_zone pages1 z1 (combined_pfn p k) (Suc k)"
      using in_zone_combined [OF p] zone_okD(2) [OF ok] True zone_frame_in_zone [OF r(4)] by blast
    have dis: "block (combined_pfn p k) (Suc k) \<inter> free_frames z1 = {}"
      unfolding u(1) [symmetric] ff using 1(5) by blast
    have un: "block (combined_pfn p k) (Suc k) \<union> free_frames z1 = block p k \<union> free_frames z"
      unfolding u(1) [symmetric] ff using block_free [of ?b k z] True by blast
    have len: "array_ok pages1 z1" "Suc k < MAX_ORDER" using 1(6) r(4) True by (auto simp: zone_frame_def array_ok_def)
    have "MAX_ORDER - Suc k < MAX_ORDER - k" using len(2) by simp
    from 1(1) [OF this r(2) len(2) iz dis len(1)]
    obtain pages' z' p' k' where 2: "buddy_coalesce (pages1, z1) (combined_pfn p k) (Suc k) = Some ((pages', z'), p', k')"
      "zone_ok (pages', z')" "zone_frame (pages1, z1) (pages', z')" "free_pages z' = free_pages z1"
      "Suc k \<le> k'" "k' < MAX_ORDER" "in_zone pages' z' p' k'" "block p' k' \<inter> free_frames z' = {}"
      "block p' k' \<union> free_frames z' = block (combined_pfn p k) (Suc k) \<union> free_frames z1" "blocks z' \<subseteq> blocks z1"
      "block (combined_pfn p k) (Suc k) \<subseteq> block p' k'"
      "k' = MAX_ORDER - 1 \<or> (buddy_pfn p' k', k') \<notin> blocks z'" by blast
    have "buddy_coalesce (pages, z) p k = Some ((pages', z'), p', k')"
      using pib True r(1) 2(1) by (subst buddy_coalesce.simps) simp
    moreover have "zone_frame (pages, z) (pages', z')" using zone_frame_trans [OF r(4) 2(3)] .
    moreover have "block p' k' \<union> free_frames z' = block p k \<union> free_frames z" using 2(9) un by simp
    moreover have "block p k \<subseteq> block p' k'" using 2(11) u(1) by blast
    moreover have "blocks z' \<subseteq> blocks z" "k \<le> k'" "free_pages z' = free_pages z" using 2(4,5,10) r(3,5) by auto
    ultimately show ?thesis using 2(2,6-8,12) by (intro exI conjI) assumption+
  qed
qed

lemma free_ok:
  assumes ok: "zone_ok (pages, z)" and k: "k < MAX_ORDER" and p: "in_zone pages z p k"
    and dis: "block p k \<inter> free_frames z = {}" and len: "array_ok pages z"
  shows "\<exists>pages' z' p' k'. buddy_free_pages (pages, z) p k = Some (pages', z') \<and> zone_ok (pages', z') \<and>
    zone_frame (pages, z) (pages', z') \<and> free_frames z' = free_frames z \<union> block p k \<and>
    k \<le> k' \<and> k' < MAX_ORDER \<and> block p k \<subseteq> block p' k' \<and> (p', k') \<in> blocks z' \<and> blocks z' \<subseteq> insert (p', k') (blocks z) \<and>
    (k' = MAX_ORDER - 1 \<or> (buddy_pfn p' k', k') \<notin> blocks z') \<and>
    free_pages z' = free_pages z + 2 ^ k'"
proof -
  obtain pages1 z1 p' k' where 1: "buddy_coalesce (pages, z) p k = Some ((pages1, z1), p', k')"
    "zone_ok (pages1, z1)" "zone_frame (pages, z) (pages1, z1)" "free_pages z1 = free_pages z"
    "k \<le> k'" "k' < MAX_ORDER" "in_zone pages1 z1 p' k'" "block p' k' \<inter> free_frames z1 = {}"
    "block p' k' \<union> free_frames z1 = block p k \<union> free_frames z" "blocks z1 \<subseteq> blocks z"
    "block p k \<subseteq> block p' k'" "k' = MAX_ORDER - 1 \<or> (buddy_pfn p' k', k') \<notin> blocks z1"
    using coalesce_ok [OF ok k p dis len] by blast
  obtain pages2 z2 where 2: "add_to_free_area (pages1, z1) p' k' = Some (pages2, z2)" "zone_ok (pages2, z2)"
    "blocks z2 = insert (p', k') (blocks z1)" "zone_frame (pages1, z1) (pages2, z2)" "free_pages z2 = free_pages z1"
    using add_ok [OF 1(2,6,7,8)] by blast
  have ff: "free_frames z2 = free_frames z \<union> block p k" using free_frames_insert [OF 2(3)] 1(9) by blast
  have bne: "buddy_pfn p' k' \<noteq> p'"
  proof -
    have "2 ^ k' dvd p'" using 1(7) by (simp add: in_zone_def)
    then show ?thesis using buddy_union(2) [of k' p'] by auto
  qed
  let ?z = "z2\<lparr>free_pages := free_pages z2 + 2 ^ k', free_count := free_count z2 + 1\<rparr>"
  have "buddy_free_pages (pages, z) p k = Some (pages2, ?z)"
    using k 1(1) 2(1) by (simp add: buddy_free_pages_def add_free_pages_def)
  moreover have "zone_frame (pages, z) (pages2, ?z)" using zone_frame_trans [OF 1(3) 2(4)] by simp
  moreover have "zone_ok (pages2, ?z)" "free_frames ?z = free_frames z \<union> block p k" "blocks ?z = blocks z2"
    "free_pages ?z = free_pages z + 2 ^ k'" using 2(2,5) ff 1(4) by simp_all
  moreover have "blocks z2 \<subseteq> insert (p', k') (blocks z)" "(p', k') \<in> blocks z2" using 2(3) 1(10) by auto
  moreover have "k' = MAX_ORDER - 1 \<or> (buddy_pfn p' k', k') \<notin> blocks z2" using 1(12) 2(3) bne by auto
  ultimately show ?thesis using 1(5,6,11) by (intro exI conjI) (assumption | simp only:)+
qed

subsection \<open>Adding memory\<close>

lemma add_order_ok:
  assumes "pfn < epfn"
  shows "add_order pfn epfn < MAX_ORDER" "2 ^ add_order pfn epfn dvd pfn" "pfn + 2 ^ add_order pfn epfn \<le> epfn"
proof -
  show "add_order pfn epfn < MAX_ORDER" "2 ^ add_order pfn epfn dvd pfn" "pfn + 2 ^ add_order pfn epfn \<le> epfn"
    using assms unfolding add_order_def
    by (auto split: option.split simp: MAX_ORDER_def find_Some_iff rev_nth)
qed

lemma add_loop_ok:
  assumes "zone_ok (pages, z)" "start_pfn z \<le> pfn" "epfn \<le> end_pfn z" "epfn \<le> length pages"
    "{pfn..<epfn} \<inter> free_frames z = {}" "pfn \<le> epfn"
  shows "\<exists>pages' z'. buddy_add_loop (pages, z) pfn epfn = Some (pages', z') \<and> zone_ok (pages', z') \<and>
    zone_frame (pages, z) (pages', z') \<and> free_frames z' = free_frames z \<union> {pfn..<epfn} \<and>
    free_pages z' = free_pages z + of_nat (epfn - pfn)"
  using assms
proof (induction "epfn - pfn" arbitrary: pages z pfn rule: less_induct)
  case less
  show ?case
  proof (cases "pfn < epfn")
    case False
    then show ?thesis using less.prems by (subst buddy_add_loop.simps) simp
  next
    case True
    let ?k = "add_order pfn epfn"
    note k = add_order_ok [OF True]
    have iz: "in_zone pages z pfn ?k" using k less.prems by (simp add: in_zone_def)
    have sub: "block pfn ?k \<subseteq> {pfn..<epfn}" "{pfn + 2 ^ ?k..<epfn} \<subseteq> {pfn..<epfn}"
      "block pfn ?k \<inter> {pfn + 2 ^ ?k..<epfn} = {}" "{pfn..<epfn} = block pfn ?k \<union> {pfn + 2 ^ ?k..<epfn}"
      using k(3) by auto
    have dis: "block pfn ?k \<inter> free_frames z = {}" using less.prems(5) sub(1) by blast
    obtain pages1 z1 where 1: "add_to_free_area (pages, z) pfn ?k = Some (pages1, z1)" "zone_ok (pages1, z1)"
      "blocks z1 = insert (pfn, ?k) (blocks z)" "zone_frame (pages, z) (pages1, z1)" "free_pages z1 = free_pages z"
      using add_ok [OF less.prems(1) k(1) iz dis] by blast
    let ?z1 = "z1\<lparr>free_pages := free_pages z1 + 2 ^ ?k\<rparr>"
    have ff: "free_frames z1 = block pfn ?k \<union> free_frames z" using free_frames_insert [OF 1(3)] .
    have "\<exists>pages' z'. buddy_add_loop (pages1, ?z1) (pfn + 2 ^ ?k) epfn = Some (pages', z') \<and> zone_ok (pages', z') \<and>
        zone_frame (pages1, ?z1) (pages', z') \<and> free_frames z' = free_frames ?z1 \<union> {pfn + 2 ^ ?k..<epfn} \<and>
        free_pages z' = free_pages ?z1 + of_nat (epfn - (pfn + 2 ^ ?k))"
    proof (rule less.hyps)
      show "epfn - (pfn + 2 ^ ?k) < epfn - pfn" using True by (simp add: diff_less_mono2)
      show "{pfn + 2 ^ ?k..<epfn} \<inter> free_frames ?z1 = {}" using less.prems(5) sub unfolding zone_counters ff by blast
    qed (use 1(2,4) less.prems k(3) in \<open>auto simp: zone_frame_def\<close>)
    then obtain pages' z' where 2: "buddy_add_loop (pages1, ?z1) (pfn + 2 ^ ?k) epfn = Some (pages', z')"
      "zone_ok (pages', z')" "zone_frame (pages1, ?z1) (pages', z')"
      "free_frames z' = free_frames ?z1 \<union> {pfn + 2 ^ ?k..<epfn}"
      "free_pages z' = free_pages ?z1 + of_nat (epfn - (pfn + 2 ^ ?k))" by blast
    have "buddy_add_loop (pages, z) pfn epfn = Some (pages', z')"
      using True 1(1) 2(1) by (subst buddy_add_loop.simps) (simp add: add_free_pages_def)
    moreover have "zone_frame (pages, z) (pages', z')"
      using zone_frame_trans [of "(pages, z)" "(pages1, ?z1)"] 1(4) 2(3) zone_counters(11) by blast
    moreover have "free_frames z' = free_frames z \<union> {pfn..<epfn}" using 2(4) unfolding zone_counters ff sub(4) by blast
    moreover have "free_pages z' = free_pages z + of_nat (epfn - pfn)"
    proof -
      have "epfn - pfn = 2 ^ ?k + (epfn - (pfn + 2 ^ ?k))" using k(3) by simp
      then have "(of_nat (epfn - pfn) :: u64) = 2 ^ ?k + of_nat (epfn - (pfn + 2 ^ ?k))"
        by (metis of_nat_add of_nat_numeral of_nat_power)
      then show ?thesis using 2(5) 1(5) by simp
    qed
    ultimately show ?thesis using 2(2) by blast
  qed
qed

subsection \<open>Full coalescing\<close>

definition coalesced :: "zone \<Rightarrow> bool" where
  "coalesced z \<longleftrightarrow> (\<forall>p k. (p, k) \<in> blocks z \<and> k < MAX_ORDER - 1 \<longrightarrow> (buddy_pfn p k, k) \<notin> blocks z)"

lemma buddy_involution: "buddy_pfn (buddy_pfn p k) k = p"
  by (simp add: buddy_pfn_def xor.assoc)

text \<open>Two aligned blocks that meet are nested.\<close>

lemma block_nested:
  assumes "2 ^ j dvd p" "2 ^ k dvd q" "j \<le> k" "x \<in> block p j" "x \<in> block q k"
  shows "block p j \<subseteq> block q k"
proof -
  have d: "(2::nat) ^ j dvd 2 ^ k" using assms(3) by (simp add: le_imp_power_dvd)
  have q: "2 ^ j dvd q" "2 ^ j dvd q + 2 ^ k" using assms(2) d by (blast intro: dvd_trans dvd_add)+
  have "q \<le> p" using aligned_le [OF assms(1) q(1)] assms(4,5) by auto
  moreover have "p + 2 ^ j \<le> q + 2 ^ k"
  proof (rule ccontr)
    assume "\<not> ?thesis"
    then have "q + 2 ^ k \<le> p" using aligned_le [OF assms(1) q(2), of "q + 2 ^ k"] by simp
    then show False using assms(4,5) by simp
  qed
  ultimately show ?thesis by auto
qed

lemma alloc_coalesced:
  assumes ok: "zone_ok (pages, z)" and co: "coalesced z" and pc: "(p, c) \<in> blocks z"
    and bl: "blocks z' = blocks z - {(p, c)} \<union> (\<lambda>j. (p + 2 ^ j, j)) ` {k..<c}"
  shows "coalesced z'"
  unfolding coalesced_def
proof (intro allI impI notI; elim conjE)
  fix q i assume q: "(q, i) \<in> blocks z'" and i: "i < MAX_ORDER - 1" and b: "(buddy_pfn q i, i) \<in> blocks z'"
  have np: "(p, j) \<notin> blocks z" if "j < c" for j
    using blocks_disjoint_start [OF ok _ pc, of p j] that by auto
  have dp: "2 ^ c dvd p" using zone_okD(2) [OF ok pc] by (simp add: in_zone_def)
  have up: "buddy_pfn (p + 2 ^ j) j = p" if "j < c" for j
  proof -
    have "(2::nat) ^ Suc j dvd 2 ^ c" using that by (intro le_imp_power_dvd) simp
    then have d: "2 ^ Suc j dvd p" using dp by (rule dvd_trans)
    then have "2 ^ j dvd p" by (rule power_le_dvd) simp
    then have "buddy_pfn p j = p + 2 ^ j" using buddy_pfn_aligned d by simp
    then show ?thesis using buddy_involution [of p j] by simp
  qed
  have "(p, i) \<notin> blocks z'" if "i < c" using np [OF that] bl by auto
  then have nu: "(q, i) \<notin> (\<lambda>j. (p + 2 ^ j, j)) ` {k..<c}" "(buddy_pfn q i, i) \<notin> (\<lambda>j. (p + 2 ^ j, j)) ` {k..<c}"
    using up buddy_involution [of q i] b q by auto
  then have "(q, i) \<in> blocks z" "(buddy_pfn q i, i) \<in> blocks z" using q b bl by auto
  then show False using co i by (simp add: coalesced_def)
qed

lemma free_coalesced:
  assumes co: "coalesced z" and bl: "blocks z' \<subseteq> insert (p, k) (blocks z)"
    and b: "k = MAX_ORDER - 1 \<or> (buddy_pfn p k, k) \<notin> blocks z'"
  shows "coalesced z'"
  unfolding coalesced_def
proof (intro allI impI notI; elim conjE)
  fix q i assume q: "(q, i) \<in> blocks z'" and i: "i < MAX_ORDER - 1" and bq: "(buddy_pfn q i, i) \<in> blocks z'"
  have "(q, i) \<noteq> (p, k)" using b bq i by auto
  moreover have "(buddy_pfn q i, i) \<noteq> (p, k)" using b q i buddy_involution [of q i] by auto
  ultimately have "(q, i) \<in> blocks z" "(buddy_pfn q i, i) \<in> blocks z" using q bq bl by auto
  then show False using co i by (simp add: coalesced_def)
qed

text \<open>In a coalesced zone a free aligned run of \<open>2 ^ k\<close> frames lies in one free block.\<close>

lemma coalesced_run:
  assumes ok: "zone_ok (pages, z)" and co: "coalesced z" and k: "k < MAX_ORDER"
    and q: "2 ^ k dvd q" "block q k \<subseteq> free_frames z"
  shows "\<exists>(p, j) \<in> blocks z. k \<le> j"
proof (rule ccontr)
  assume "\<not> ?thesis"
  then have small: "\<And>p j. (p, j) \<in> blocks z \<Longrightarrow> j < k" by fastforce
  have al: "\<And>p j. (p, j) \<in> blocks z \<Longrightarrow> 2 ^ j dvd p" using zone_okD(2) [OF ok] by (auto simp: in_zone_def)
  have cover: "\<exists>r i. (r, i) \<in> blocks z \<and> x \<in> block r i \<and> r \<in> block q k" if x: "x \<in> block q k" for x
  proof -
    from x q(2) have "x \<in> free_frames z" by blast
    then obtain r i where r: "(r, i) \<in> blocks z" "x \<in> block r i" unfolding free_frames_def by blast
    have "i \<le> k" using small [OF r(1)] by simp
    from block_nested [OF al [OF r(1)] q(1) this r(2) x] have "block r i \<subseteq> block q k" .
    then show ?thesis using r block_self by blast
  qed
  let ?S = "{j. \<exists>p. (p, j) \<in> blocks z \<and> p \<in> block q k}"
  define j where "j = (LEAST j. j \<in> ?S)"
  have "\<exists>j. j \<in> ?S" using cover [OF block_self] by blast
  then have "j \<in> ?S" unfolding j_def by (rule LeastI_ex)
  then obtain p where p: "(p, j) \<in> blocks z" "p \<in> block q k" by blast
  have least: "j \<le> i" if "(r, i) \<in> blocks z" "r \<in> block q k" for r i
    unfolding j_def using that by (intro Least_le) blast
  let ?b = "buddy_pfn p j" and ?c = "combined_pfn p j"
  note u = buddy_union [OF al [OF p(1)]]
  have bc: "?b \<in> block ?c (Suc j)" "p \<in> block ?c (Suc j)"
    unfolding u(1) [symmetric] using block_self by blast+
  have "Suc j \<le> k" using small [OF p(1)] by simp
  from block_nested [OF combined_pfn_aligned(2) [OF al [OF p(1)]] q(1) this bc(2) p(2)]
  have cq: "block ?c (Suc j) \<subseteq> block q k" .
  have "?b \<in> block q k" using bc(1) cq by blast
  from cover [OF this] obtain r i where r: "(r, i) \<in> blocks z" "?b \<in> block r i" "r \<in> block q k" by blast
  have ji: "j \<le> i" using least r(1,3) by blast
  have "i = j"
  proof (rule ccontr)
    assume "i \<noteq> j"
    then have "block ?c (Suc j) \<subseteq> block r i"
      using block_nested [OF combined_pfn_aligned(2) [OF al [OF p(1)]] al [OF r(1)] _ bc(1) r(2)] ji by simp
    then show False using blocks_disjoint_start [OF ok p(1) r(1)] bc(2) \<open>i \<noteq> j\<close> by blast
  qed
  moreover have "r = ?b"
    using aligned_le [OF al [OF r(1)], of ?b ?b] buddy_aligned [OF al [OF p(1)]] calculation r(2) by simp
  ultimately have "(?b, j) \<in> blocks z" using r(1) by simp
  moreover have "j < MAX_ORDER - 1" using small [OF p(1)] k by (simp add: MAX_ORDER_def)
  ultimately show False using co p(1) by (simp add: coalesced_def)
qed

subsection \<open>The zone as a page allocator\<close>

definition mem_ok :: "mem \<Rightarrow> bool" where
  "mem_ok m \<longleftrightarrow> zone_ok m \<and> array_ok (fst m) (snd m)"

definition avail :: "mem \<Rightarrow> nat set" where
  "avail m = free_frames (snd m)"

definition covers :: "mem \<Rightarrow> nat \<Rightarrow> nat \<Rightarrow> bool" where
  "covers m p k \<longleftrightarrow> start_pfn (snd m) \<le> p \<and> p + 2 ^ k \<le> end_pfn (snd m) \<and> p + 2 ^ k \<le> length (fst m)"

text \<open>A request to a zone has no flags.\<close>

abbreviation zone_alloc :: "mem \<Rightarrow> unit \<Rightarrow> nat \<Rightarrow> (mem \<times> nat option) option" where
  "zone_alloc m g k \<equiv> buddy_alloc_pages m k"

lemma mem_ok_frame: "mem_ok m \<Longrightarrow> zone_ok m' \<Longrightarrow> zone_frame m m' \<Longrightarrow> mem_ok m'"
  by (cases m; cases m') (simp add: mem_ok_def zone_frame_def array_ok_def)

lemma covers_frame: "zone_frame m m' \<Longrightarrow> covers m' p k = covers m p k"
  by (cases m; cases m') (simp add: covers_def zone_frame_def)

text \<open>Both outcomes of an allocation.\<close>

lemma alloc_cases:
  assumes ok: "mem_ok m"
  obtains "buddy_alloc_pages m k = Some (m, None)" "\<And>p j. (p, j) \<in> blocks (snd m) \<Longrightarrow> j < k"
  | m' p c where "buddy_alloc_pages m k = Some (m', Some p)" "mem_ok m'" "zone_frame m m'" "k < MAX_ORDER"
    "(p, c) \<in> blocks (snd m)" "k \<le> c" "2 ^ k dvd p" "covers m p k"
    "blocks (snd m') = blocks (snd m) - {(p, c)} \<union> (\<lambda>j. (p + 2 ^ j, j)) ` {k..<c}"
    "avail m' = avail m - block p k" "block p k \<subseteq> avail m"
    "free_pages (snd m') = free_pages (snd m) + (2 ^ c - 2 ^ k) - 2 ^ k"
proof (cases "k < MAX_ORDER \<and> find (\<lambda>c. free_list (free_areas (snd m) ! c) \<noteq> []) [k..<MAX_ORDER] \<noteq> None")
  case True
  obtain pages z where m: "m = (pages, z)" by (cases m)
  then have zok: "zone_ok (pages, z)" using ok by (simp add: mem_ok_def)
  from True m obtain c where k: "k < MAX_ORDER"
    and c: "find (\<lambda>c. free_list (free_areas z ! c) \<noteq> []) [k..<MAX_ORDER] = Some c" by auto
  obtain pages' z' p where a: "buddy_alloc_pages (pages, z) k = Some ((pages', z'), Some p)" "zone_ok (pages', z')"
    "zone_frame (pages, z) (pages', z')" "(p, c) \<in> blocks z" "k \<le> c" "in_zone pages z p k"
    "blocks z' = blocks z - {(p, c)} \<union> (\<lambda>j. (p + 2 ^ j, j)) ` {k..<c}"
    "free_frames z' = free_frames z - block p k" "block p k \<subseteq> block p c"
    "free_pages z' = free_pages z + (2 ^ c - 2 ^ k) - 2 ^ k"
    using alloc_some [OF zok k c] by blast
  show ?thesis
  proof (rule that(2) [of "(pages', z')" p c])
    show "mem_ok (pages', z')" using mem_ok_frame [OF ok] a(2,3) m by blast
    show "block p k \<subseteq> avail m" using block_free [OF a(4)] a(9) m by (simp only: avail_def snd_conv)
    show "2 ^ k dvd p" "covers m p k" using a(6) m by (simp_all add: in_zone_def covers_def)
  qed (use a k m in \<open>simp_all only: avail_def snd_conv fst_conv\<close>)
next
  case False
  then have "buddy_alloc_pages m k = Some (m, None)" by (auto simp: buddy_alloc_pages_def)
  moreover have "j < k" if "(p, j) \<in> blocks (snd m)" for p j
    using False that alloc_none [of "snd m" k p j] by (cases "k < MAX_ORDER") (auto simp: blocks_def)
  ultimately show ?thesis by (rule that(1))
qed

interpretation zone_pages: page_allocator mem_ok avail covers zone_alloc buddy_free_pages MAX_ORDER
proof
  fix s :: mem and k s' r p
  assume ok: "mem_ok s"
  show "\<exists>s' r. buddy_alloc_pages s k = Some (s', r)" using ok by (rule alloc_cases) blast+
  show "buddy_alloc_pages s k = Some (s', r) \<Longrightarrow> mem_ok s'" using ok by (rule alloc_cases [where k = k]) (use ok in auto)
  show "buddy_alloc_pages s k = Some (s', r) \<Longrightarrow> covers s' p j = covers s p j" for j
    using ok by (rule alloc_cases [where k = k]) (auto simp: covers_frame)
  show "buddy_alloc_pages s k = Some (s', Some p) \<Longrightarrow> k < MAX_ORDER \<and> 2 ^ k dvd p \<and> covers s p k \<and>
      block p k \<subseteq> avail s \<and> avail s' = avail s - block p k"
    using ok by (rule alloc_cases [where k = k]) (auto simp del: ivl_subset)
  show "buddy_alloc_pages s k = Some (s', None) \<Longrightarrow> avail s' = avail s"
    using ok by (rule alloc_cases [where k = k]) auto
next
  fix s :: mem and k p
  assume ok: "mem_ok s" and k: "k < MAX_ORDER" and p: "2 ^ k dvd p" "covers s p k" and d: "block p k \<inter> avail s = {}"
  obtain pages z where s: "s = (pages, z)" by (cases s)
  have "in_zone pages z p k" using p ok s by (auto simp: in_zone_def covers_def mem_ok_def)
  from free_ok [OF _ k this] ok d s
  obtain pages' z' where "buddy_free_pages s p k = Some (pages', z')" "zone_ok (pages', z')"
    "zone_frame s (pages', z')" "free_frames z' = free_frames z \<union> block p k"
    unfolding mem_ok_def avail_def by auto
  then show "\<exists>s'. buddy_free_pages s p k = Some s' \<and> mem_ok s' \<and> avail s' = avail s \<union> block p k \<and>
      (\<forall>q j. covers s' q j = covers s q j)"
    using mem_ok_frame [OF ok] covers_frame s by (intro exI [of _ "(pages', z')"]) (auto simp: avail_def)
qed

subsection \<open>Properties\<close>

lemma init_zone_ok:
  assumes "\<And>p. p < length pages \<Longrightarrow> \<not> marked (pages ! p)"
  shows "zone_ok (pages, buddy_init_zone z)" "free_frames (buddy_init_zone z) = {}" "coalesced (buddy_init_zone z)"
proof -
  have "blocks (buddy_init_zone z) = {}" by (auto simp: blocks_def buddy_init_zone_def)
  then show "zone_ok (pages, buddy_init_zone z)" "free_frames (buddy_init_zone z) = {}" "coalesced (buddy_init_zone z)"
    using assms by (auto simp: zone_ok_def areas_ok_def buddy_init_zone_def free_frames_def coalesced_def)
qed

text \<open>A zone of eight frames, all free, as \<^verbatim>\<open>buddy_init_zone\<close> and \<^verbatim>\<open>buddy_add_pages\<close> set it up.\<close>

definition ex_page :: page where
  "ex_page = \<lparr>flags = 0, order = 0, zone_id = 0, head = None\<rparr>"

definition ex_empty :: mem where
  "ex_empty = (replicate 8 ex_page, buddy_init_zone \<lparr>start_pfn = 0, end_pfn = 8, present_pages = 8, free_pages = 0,
     free_areas = [], alloc_count = 0, free_count = 0\<rparr>)"

definition ex_mem :: mem where
  "ex_mem = (case buddy_add_pages ex_empty 0 8 of Some m \<Rightarrow> m | None \<Rightarrow> ex_empty)"

lemma ex_empty_ok: "zone_ok ex_empty"
  unfolding ex_empty_def by (rule init_zone_ok) (simp add: ex_page_def)

lemma ex_empty_sel:
  "free_frames (snd ex_empty) = {}" "start_pfn (snd ex_empty) = 0" "end_pfn (snd ex_empty) = 8"
  "length (fst ex_empty) = 8" "free_pages (snd ex_empty) = 0"
proof -
  show "free_frames (snd ex_empty) = {}"
    using init_zone_ok(2) [of "replicate 8 ex_page"] by (simp add: ex_empty_def ex_page_def)
qed (simp_all add: ex_empty_def buddy_init_zone_def)

text \<open>
  C3: No frame is handed out twice: starting with nothing handed out, over any sequence of
  \<^verbatim>\<open>buddy_alloc_pages\<close> and of \<^verbatim>\<open>buddy_free_pages\<close> on blocks that were handed out, every block in use is
  aligned to its size, lies in the zone, overlaps no other block in use and no free frame, and
  the free lists stay consistent with the page flags.
\<close>

theorem buddy_no_overlap:
  assumes "mem_ok m" "(own_step zone_alloc buddy_free_pages)\<^sup>*\<^sup>* (m, {}) (m', B)"
  shows "mem_ok m' \<and>
    (\<forall>p k. (p, k) \<in> B \<longrightarrow> k < MAX_ORDER \<and> 2 ^ k dvd p \<and> covers m' p k \<and> block p k \<inter> avail m' = {}) \<and>
    (\<forall>p k q j. (p, k) \<in> B \<longrightarrow> (q, j) \<in> B \<longrightarrow> (p, k) = (q, j) \<or> block p k \<inter> block q j = {})"
proof -
  have "zone_pages.owned m {}" using assms(1) by (simp add: zone_pages.owned_def)
  then have "zone_pages.owned m' B" using zone_pages.owned_steps [OF assms(2)] by simp
  then show ?thesis unfolding zone_pages.owned_def .
qed

text \<open>
  C15: In a fully coalesced zone an allocation of order \<open>k\<close> returns \<^verbatim>\<open>NULL\<close> exactly when the zone has no
  aligned run of \<open>2 ^ k\<close> free frames, and then changes nothing; so free memory is never
  refused because it is in pieces that could be joined.
\<close>

theorem buddy_alloc_complete:
  assumes ok: "mem_ok m" and co: "coalesced (snd m)" and k: "k < MAX_ORDER"
  shows "buddy_alloc_pages m k = Some (m, None) \<longleftrightarrow> (\<nexists>q. 2 ^ k dvd q \<and> block q k \<subseteq> avail m)"
  using ok
proof (rule alloc_cases [where k = k])
  assume n: "buddy_alloc_pages m k = Some (m, None)" "\<And>p j. (p, j) \<in> blocks (snd m) \<Longrightarrow> j < k"
  have z: "zone_ok (fst m, snd m)" using ok by (simp add: mem_ok_def)
  have False if q: "2 ^ k dvd q" "block q k \<subseteq> avail m" for q
  proof -
    from coalesced_run [OF z co k q(1)] q(2) obtain p j where "(p, j) \<in> blocks (snd m)" "k \<le> j"
      unfolding avail_def by auto
    then show False using n(2) [of p j] by simp
  qed
  then show ?thesis using n(1) by blast
next
  fix m' p assume "buddy_alloc_pages m k = Some (m', Some p)" "2 ^ k dvd p" "block p k \<subseteq> avail m"
  then show ?thesis by (simp del: ivl_subset) blast
qed

text \<open>
  C21: Coalescing is kept: if no two free buddies are separate before an allocation or a release of
  an allocated block, none are after it.
\<close>

theorem buddy_keeps_coalesced:
  assumes ok: "mem_ok m" and co: "coalesced (snd m)"
  shows "(\<forall>k m' r. buddy_alloc_pages m k = Some (m', r) \<longrightarrow> coalesced (snd m')) \<and>
    (\<forall>p k m'. k < MAX_ORDER \<and> 2 ^ k dvd p \<and> covers m p k \<and> block p k \<inter> avail m = {} \<and>
       buddy_free_pages m p k = Some m' \<longrightarrow> coalesced (snd m'))"
proof (intro conjI allI impI; (elim conjE)?)
  fix k m' r assume a: "buddy_alloc_pages m k = Some (m', r)"
  have z: "zone_ok (fst m, snd m)" using ok by (simp add: mem_ok_def)
  from ok show "coalesced (snd m')"
  proof (rule alloc_cases [where k = k])
    fix n p c assume n: "buddy_alloc_pages m k = Some (n, Some p)" "(p, c) \<in> blocks (snd m)"
      "blocks (snd n) = blocks (snd m) - {(p, c)} \<union> (\<lambda>j. (p + 2 ^ j, j)) ` {k..<c}"
    then show ?thesis using alloc_coalesced [OF z co n(2,3)] a by simp
  qed (use a co in simp)
next
  fix p k m' assume p: "k < MAX_ORDER" "2 ^ k dvd p" "covers m p k" "block p k \<inter> avail m = {}"
    and f: "buddy_free_pages m p k = Some m'"
  have z: "zone_ok (fst m, snd m)" "array_ok (fst m) (snd m)" using ok by (simp_all add: mem_ok_def)
  have "in_zone (fst m) (snd m) p k" using p z by (simp add: in_zone_def covers_def)
  from free_ok [OF z(1) p(1) this _ z(2)] p(4) f
  obtain p' k' where "blocks (snd m') \<subseteq> insert (p', k') (blocks (snd m))"
    "k' = MAX_ORDER - 1 \<or> (buddy_pfn p' k', k') \<notin> blocks (snd m')" by (auto simp: avail_def)
  then show "coalesced (snd m')" by (rule free_coalesced [OF co])
qed

text \<open>
  C33: \<^verbatim>\<open>buddy_add_pages\<close> ends, adds exactly the given frames to the free memory and their number to the
  counter of free pages.
\<close>

theorem buddy_add_pages_exact:
  assumes "zone_ok m" "start_pfn (snd m) \<le> spfn" "spfn + nr \<le> end_pfn (snd m)" "spfn + nr \<le> length (fst m)"
    "{spfn..<spfn + nr} \<inter> free_frames (snd m) = {}"
  shows "\<exists>m'. buddy_add_pages m spfn nr = Some m' \<and> zone_ok m' \<and>
    free_frames (snd m') = free_frames (snd m) \<union> {spfn..<spfn + nr} \<and>
    free_pages (snd m') = free_pages (snd m) + of_nat nr"
  using add_loop_ok [of "fst m" "snd m" spfn "spfn + nr"] assms
  unfolding buddy_add_pages_def by auto

theorem buddy_add_pages_exact_witness:
  "\<exists>m'. buddy_add_pages ex_empty 0 8 = Some m' \<and> free_frames (snd m') = {0..<8} \<and> free_pages (snd m') = 8"
proof -
  note f = ex_empty_sel
  show ?thesis using buddy_add_pages_exact [OF ex_empty_ok, of 0 8] f by auto
qed

lemma ex_mem_ok: "mem_ok ex_mem" "avail ex_mem = {0..<8}" "start_pfn (snd ex_mem) = 0" "end_pfn (snd ex_mem) = 8"
proof -
  note f = ex_empty_sel
  have "zone_ok (fst ex_empty, snd ex_empty)" using ex_empty_ok by simp
  from add_loop_ok [OF this, of 0 8] f
  obtain m where "buddy_add_pages ex_empty 0 8 = Some m" "zone_ok m" "zone_frame ex_empty m"
    "free_frames (snd m) = {0..<8}" unfolding buddy_add_pages_def by auto
  moreover from this have "ex_mem = m" by (simp add: ex_mem_def)
  moreover have "start_pfn (snd m) = 0" "end_pfn (snd m) = 8" "length (fst m) = 8"
    using zone_frameD [OF \<open>zone_frame ex_empty m\<close>] f by simp_all
  ultimately show "mem_ok ex_mem" "avail ex_mem = {0..<8}" "start_pfn (snd ex_mem) = 0" "end_pfn (snd ex_mem) = 8"
    by (simp_all add: mem_ok_def array_ok_def avail_def)
qed

lemma blocks_code [code]:
  "blocks z = set (concat (map (\<lambda>k. map (\<lambda>p. (p, k)) (free_list (free_areas z ! k))) [0..<MAX_ORDER]))"
  by (auto simp: blocks_def)

text \<open>The only free block of the example.\<close>

lemma ex_mem_blocks: "blocks (snd ex_mem) = {(0, 3)}"
  by code_simp

lemma ex_mem_coalesced: "coalesced (snd ex_mem)"
  unfolding coalesced_def ex_mem_blocks by (auto simp: buddy_pfn_def)

theorem buddy_no_overlap_witness:
  "\<exists>m' p. buddy_alloc_pages ex_mem 1 = Some (m', Some p) \<and> block p 1 \<inter> avail m' = {}"
proof -
  have "map_option snd (buddy_alloc_pages ex_mem 1) = Some (Some 0)" by code_simp
  then obtain m' where m': "buddy_alloc_pages ex_mem 1 = Some (m', Some 0)" by auto
  let ?step = "own_step zone_alloc buddy_free_pages"
  have "?step (ex_mem, {}) (m', insert (0, 1) {})" by (rule own_step.Get) (rule m')
  then have "?step\<^sup>*\<^sup>* (ex_mem, {}) (m', insert (0, 1) {})"
    using r_into_rtranclp [of ?step "(ex_mem, {})"] by simp
  note b = buddy_no_overlap [OF ex_mem_ok(1) this]
  have "block 0 1 \<inter> avail m' = {}" using conjunct1 [OF conjunct2 [OF b], rule_format, of 0 1] by simp
  then show ?thesis using m' by blast
qed

theorem buddy_alloc_complete_witness:
  "buddy_alloc_pages ex_mem 3 \<noteq> Some (ex_mem, None) \<and> buddy_alloc_pages ex_mem 4 = Some (ex_mem, None)"
proof -
  have a: "avail ex_mem = {0..<8}" by (rule ex_mem_ok(2))
  have "\<exists>q. (2::nat) ^ 3 dvd q \<and> block q 3 \<subseteq> avail ex_mem"
    unfolding a by (rule exI [of _ 0]) simp
  moreover have "\<nexists>q. (2::nat) ^ 4 dvd q \<and> block q 4 \<subseteq> avail ex_mem"
    unfolding a by simp
  moreover note buddy_alloc_complete [OF ex_mem_ok(1) ex_mem_coalesced, of 3]
    buddy_alloc_complete [OF ex_mem_ok(1) ex_mem_coalesced, of 4]
  moreover have "(3::nat) < MAX_ORDER" "(4::nat) < MAX_ORDER" by (simp_all add: MAX_ORDER_def)
  ultimately show ?thesis by blast
qed

theorem buddy_keeps_coalesced_witness:
  "\<exists>m' p. buddy_alloc_pages ex_mem 1 = Some (m', Some p) \<and> coalesced (snd m')"
proof -
  have "map_option snd (buddy_alloc_pages ex_mem 1) = Some (Some 0)" by code_simp
  then obtain m' where m': "buddy_alloc_pages ex_mem 1 = Some (m', Some 0)" by auto
  then show ?thesis using buddy_keeps_coalesced [OF ex_mem_ok(1) ex_mem_coalesced] by blast
qed

text \<open>
  C34: The counter of free pages drifts: when \<^verbatim>\<open>buddy_alloc_pages\<close> serves an order \<open>k\<close> request from a block
  of order \<open>c\<close>, the free memory shrinks by \<open>2 ^ k\<close> frames, but \<^verbatim>\<open>zone->free_pages\<close> comes out too
  high by the \<open>2 ^ c - 2 ^ k\<close> frames that \<^verbatim>\<open>expand\<close> adds although they were counted before; the two
  agree only if no block was split.
\<close>

theorem buddy_counter_drift:
  assumes ok: "mem_ok m" and a: "buddy_alloc_pages m k = Some (m', Some p)"
  shows "\<exists>c. (p, c) \<in> blocks (snd m) \<and> k \<le> c \<and> card (avail m') + 2 ^ k = card (avail m) \<and>
    free_pages (snd m') = free_pages (snd m) - 2 ^ k + (2 ^ c - 2 ^ k)"
  using ok
proof (rule alloc_cases [where k = k])
  fix n q c assume n: "buddy_alloc_pages m k = Some (n, Some q)" "(q, c) \<in> blocks (snd m)" "k \<le> c"
    "avail n = avail m - block q k" "block q k \<subseteq> avail m"
    "free_pages (snd n) = free_pages (snd m) + (2 ^ c - 2 ^ k) - 2 ^ k"
  have "zone_ok (fst m, snd m)" using ok by (simp add: mem_ok_def)
  then have "block r j \<subseteq> {..<length (fst m)}" if "(r, j) \<in> blocks (snd m)" for r j
    using zone_okD(2) [OF _ that, of "fst m"] by (auto simp: in_zone_def)
  then have "avail m \<subseteq> {..<length (fst m)}" unfolding avail_def free_frames_def by blast
  then have "finite (avail m)" using finite_subset by blast
  then have "card (avail n) + 2 ^ k = card (avail m)"
    unfolding n(4) using card_mono [OF _ n(5)] n(5) by (simp add: card_Diff_subset)
  then show ?thesis using n a by auto
qed (use a in simp)

theorem buddy_counter_drift_witness:
  "\<exists>m' p c. buddy_alloc_pages ex_mem 1 = Some (m', Some p) \<and> (p, c) \<in> blocks (snd ex_mem) \<and> c = 3 \<and>
     free_pages (snd m') = free_pages (snd ex_mem) + 4"
proof -
  have "map_option snd (buddy_alloc_pages ex_mem 1) = Some (Some 0)" by code_simp
  then obtain m' where m': "buddy_alloc_pages ex_mem 1 = Some (m', Some 0)" by auto
  from buddy_counter_drift [OF ex_mem_ok(1) this] show ?thesis using m' ex_mem_blocks by auto
qed

end
