(* ===== verification/Mem_Bitmap.thy ===== *)
theory Mem_Bitmap
  imports Ocean_Prelude
begin

text \<open>
  The page bitmap of \<^verbatim>\<open>kernel/mm/bitmap.c\<close>: one bit for each frame, 1 for used or reserved. Frame
  numbers are natural numbers, the words and the count of free frames have 64 bits, and the
  result \<^verbatim>\<open>(pfn_t)-1\<close> for \<open>not found\<close> is \<open>None\<close>. The memory the bitmap lives in is given by
  the caller of \<^verbatim>\<open>mem_bitmap_init\<close> and is overwritten there, so it does not appear.
\<close>

subsection \<open>State and bits\<close>

record mem_bitmap =
  bits :: "u64 list"
  nr_bits :: nat
  nr_words :: nat
  base_pfn :: nat

definition PHYS_TO_PFN :: "u64 \<Rightarrow> nat" where
  "PHYS_TO_PFN phys = unat (drop_bit PAGE_SHIFT phys)"

definition word_index :: "mem_bitmap \<Rightarrow> nat \<Rightarrow> nat" where
  "word_index b pfn = (pfn - base_pfn b) div 64"

definition bit_index :: "mem_bitmap \<Rightarrow> nat \<Rightarrow> nat" where
  "bit_index b pfn = (pfn - base_pfn b) mod 64"

definition bitmap_test_bit :: "mem_bitmap \<Rightarrow> nat \<Rightarrow> bool" where
  "bitmap_test_bit b pfn \<longleftrightarrow> drop_bit (bit_index b pfn) (bits b ! word_index b pfn) AND 1 \<noteq> 0"

definition bitmap_set_bit :: "mem_bitmap \<Rightarrow> nat \<Rightarrow> mem_bitmap" where
  "bitmap_set_bit b pfn = b\<lparr>bits := (bits b)[word_index b pfn :=
     bits b ! word_index b pfn OR push_bit (bit_index b pfn) 1]\<rparr>"

definition bitmap_clear_bit :: "mem_bitmap \<Rightarrow> nat \<Rightarrow> mem_bitmap" where
  "bitmap_clear_bit b pfn = b\<lparr>bits := (bits b)[word_index b pfn :=
     bits b ! word_index b pfn AND NOT (push_bit (bit_index b pfn) 1)]\<rparr>"

subsection \<open>Ranges, counting and searching\<close>

definition tracked :: "mem_bitmap \<Rightarrow> nat \<Rightarrow> bool" where
  "tracked b pfn \<longleftrightarrow> base_pfn b \<le> pfn \<and> pfn < base_pfn b + nr_bits b"

definition bitmap_set_range :: "mem_bitmap \<Rightarrow> nat \<Rightarrow> nat \<Rightarrow> mem_bitmap" where
  "bitmap_set_range b spfn nr =
     fold (\<lambda>pfn b. if tracked b pfn then bitmap_set_bit b pfn else b) [spfn..<spfn + nr] b"

definition bitmap_clear_range :: "mem_bitmap \<Rightarrow> nat \<Rightarrow> nat \<Rightarrow> mem_bitmap" where
  "bitmap_clear_range b spfn nr =
     fold (\<lambda>pfn b. if tracked b pfn then bitmap_clear_bit b pfn else b) [spfn..<spfn + nr] b"

lemma drop_bit_1_less: "(w :: u64) \<noteq> 0 \<Longrightarrow> unat (drop_bit (Suc 0) w) < unat w"
proof -
  assume w: "w \<noteq> 0"
  have "take_bit 64 (unat w) = unat w" using unat_u64_less [of w] by (simp add: take_bit_nat_eq_self)
  then have "unat (drop_bit (Suc 0) w) = unat w div 2"
    using unsigned_drop_bit_eq [of "Suc 0" w, where 'a = nat] by (simp add: drop_bit_Suc)
  then show ?thesis using w by (simp add: unat_gt_0)
qed

text \<open>The inner loop of \<^verbatim>\<open>bitmap_count_free\<close>.\<close>

function count_set_bits :: "u64 \<Rightarrow> u64 \<Rightarrow> u64" where
  "count_set_bits tmp set_bits =
     (if tmp = 0 then set_bits else count_set_bits (drop_bit 1 tmp) (set_bits + (tmp AND 1)))"
  by pat_completeness auto
termination by (relation "measure (\<lambda>(tmp, _). unat tmp)") (auto simp: drop_bit_1_less)

declare count_set_bits.simps [simp del]

definition bitmap_count_free :: "mem_bitmap \<Rightarrow> u64" where
  "bitmap_count_free b =
     fold (\<lambda>i count. count + (64 - count_set_bits (bits b ! i) 0)) [0..<nr_words b] 0
     - (of_nat (nr_words b * 64) - of_nat (nr_bits b))"

text \<open>The scan of one word that is not full, and of all words.\<close>

definition find_in_word :: "mem_bitmap \<Rightarrow> nat \<Rightarrow> nat option" where
  "find_in_word b i =
     map_option (\<lambda>j. base_pfn b + i * 64 + j)
       (find (\<lambda>j. bits b ! i AND push_bit j 1 = 0 \<and>
          base_pfn b + i * 64 + j < base_pfn b + nr_bits b) [0..<64])"

definition bitmap_find_free :: "mem_bitmap \<Rightarrow> nat option" where
  "bitmap_find_free b =
     (case find (\<lambda>i. bits b ! i \<noteq> -1 \<and> find_in_word b i \<noteq> None) [0..<nr_words b] of
        Some i \<Rightarrow> find_in_word b i
      | None \<Rightarrow> None)"

function find_range_loop :: "mem_bitmap \<Rightarrow> nat \<Rightarrow> nat \<Rightarrow> nat \<Rightarrow> nat \<Rightarrow> nat option" where
  "find_range_loop b nr pfn count range_start =
     (if pfn < base_pfn b + nr_bits b
      then if \<not> bitmap_test_bit b pfn
           then let range_start1 = (if count = 0 then pfn else range_start)
                in if count + 1 \<ge> nr then Some range_start1
                   else find_range_loop b nr (pfn + 1) (count + 1) range_start1
           else find_range_loop b nr (pfn + 1) 0 range_start
      else None)"
  by pat_completeness auto
termination by (relation "measure (\<lambda>(b, nr, pfn, _). base_pfn b + nr_bits b - pfn)") auto

declare find_range_loop.simps [simp del]

definition bitmap_find_free_range :: "mem_bitmap \<Rightarrow> nat \<Rightarrow> nat option" where
  "bitmap_find_free_range b nr = find_range_loop b nr (base_pfn b) 0 0"

subsection \<open>Interface\<close>

definition mem_bitmap_init :: "nat \<Rightarrow> mem_bitmap" where
  "mem_bitmap_init max_pfn =
     \<lparr>bits = replicate ((max_pfn + 63) div 64) (-1), nr_bits = max_pfn,
      nr_words = (max_pfn + 63) div 64, base_pfn = 0\<rparr>"

definition mem_bitmap_mark_usable :: "mem_bitmap \<Rightarrow> u64 \<Rightarrow> u64 \<Rightarrow> mem_bitmap" where
  "mem_bitmap_mark_usable b s e =
     (let spfn = PHYS_TO_PFN (PAGE_ALIGN s); epfn = PHYS_TO_PFN (PAGE_ALIGN_DOWN e)
      in if epfn \<le> spfn then b else bitmap_clear_range b spfn (epfn - spfn))"

definition mem_bitmap_mark_reserved :: "mem_bitmap \<Rightarrow> u64 \<Rightarrow> u64 \<Rightarrow> mem_bitmap" where
  "mem_bitmap_mark_reserved b s e =
     (let spfn = PHYS_TO_PFN (PAGE_ALIGN_DOWN s); epfn = PHYS_TO_PFN (PAGE_ALIGN e)
      in if epfn \<le> spfn then b else bitmap_set_range b spfn (epfn - spfn))"

definition mem_bitmap_is_usable :: "mem_bitmap \<Rightarrow> nat \<Rightarrow> bool" where
  "mem_bitmap_is_usable b pfn \<longleftrightarrow>
     (if pfn < base_pfn b \<or> pfn \<ge> base_pfn b + nr_bits b then False else \<not> bitmap_test_bit b pfn)"

definition mem_bitmap_alloc_page :: "mem_bitmap \<Rightarrow> mem_bitmap \<times> nat option" where
  "mem_bitmap_alloc_page b =
     (case bitmap_find_free b of
        Some pfn \<Rightarrow> (bitmap_set_bit b pfn, Some pfn)
      | None \<Rightarrow> (b, None))"

definition mem_bitmap_alloc_pages :: "mem_bitmap \<Rightarrow> nat \<Rightarrow> mem_bitmap \<times> nat option" where
  "mem_bitmap_alloc_pages b nr =
     (case bitmap_find_free_range b nr of
        Some pfn \<Rightarrow> (bitmap_set_range b pfn nr, Some pfn)
      | None \<Rightarrow> (b, None))"

definition mem_bitmap_free_page :: "mem_bitmap \<Rightarrow> nat \<Rightarrow> mem_bitmap" where
  "mem_bitmap_free_page b pfn =
     (if pfn < base_pfn b \<or> pfn \<ge> base_pfn b + nr_bits b then b else bitmap_clear_bit b pfn)"

definition mem_bitmap_free_pages :: "mem_bitmap \<Rightarrow> nat \<Rightarrow> nat \<Rightarrow> mem_bitmap" where
  "mem_bitmap_free_pages b spfn nr = bitmap_clear_range b spfn nr"

definition mem_bitmap_size_for :: "nat \<Rightarrow> nat" where
  "mem_bitmap_size_for max_pfn = (max_pfn + 63) div 64 * 8"

subsection \<open>The bitmap as a set of frames\<close>

definition bm_ok :: "mem_bitmap \<Rightarrow> bool" where
  "bm_ok b \<longleftrightarrow> length (bits b) = nr_words b \<and> nr_words b = (nr_bits b + 63) div 64"

lemma test_word: "bitmap_test_bit b pfn = word_test (bits b) (pfn - base_pfn b)"
  by (simp add: bitmap_test_bit_def word_test_def bit_index_def word_index_def)

lemma set_word: "bits (bitmap_set_bit b pfn) = word_set (pfn - base_pfn b) (bits b)"
  by (simp add: bitmap_set_bit_def word_set_def bit_index_def word_index_def)

lemma clear_word: "bits (bitmap_clear_bit b pfn) = word_clear (pfn - base_pfn b) (bits b)"
  by (simp add: bitmap_clear_bit_def word_clear_def bit_index_def word_index_def)

lemma bitmap_sel [simp]:
  "nr_bits (bitmap_set_bit b p) = nr_bits b" "base_pfn (bitmap_set_bit b p) = base_pfn b"
  "nr_words (bitmap_set_bit b p) = nr_words b" "nr_bits (bitmap_clear_bit b p) = nr_bits b"
  "base_pfn (bitmap_clear_bit b p) = base_pfn b" "nr_words (bitmap_clear_bit b p) = nr_words b"
  "tracked (bitmap_set_bit b p) q = tracked b q" "tracked (bitmap_clear_bit b p) q = tracked b q"
  by (simp_all add: bitmap_set_bit_def bitmap_clear_bit_def tracked_def)

interpretation membits: bit_array "\<lambda>b i. bitmap_test_bit b (base_pfn b + i)"
  "\<lambda>i b. bitmap_set_bit b (base_pfn b + i)" "\<lambda>i b. bitmap_clear_bit b (base_pfn b + i)"
  "\<lambda>b. 64 * length (bits b)"
  by unfold_locales (simp_all add: test_word set_word clear_word word_test_set word_test_clear)

lemma tracked_word: "bm_ok b \<Longrightarrow> tracked b p \<Longrightarrow> p - base_pfn b < 64 * length (bits b)"
  by (auto simp: bm_ok_def tracked_def)

lemma test_set:
  assumes "bm_ok b" "tracked b p" "tracked b q"
  shows "bitmap_test_bit (bitmap_set_bit b p) q \<longleftrightarrow> q = p \<or> bitmap_test_bit b q"
    and "bitmap_test_bit (bitmap_clear_bit b p) q \<longleftrightarrow> q \<noteq> p \<and> bitmap_test_bit b q"
  using membits.test_setb [of "p - base_pfn b" b "q - base_pfn b"]
    membits.test_clear [of "p - base_pfn b" b "q - base_pfn b"] tracked_word [OF assms(1)] assms
  by (auto simp: tracked_def)

lemma bm_ok_set [simp]: "bm_ok (bitmap_set_bit b p) = bm_ok b" "bm_ok (bitmap_clear_bit b p) = bm_ok b"
  by (simp_all add: bm_ok_def set_word clear_word)

text \<open>The free frames.\<close>

definition usable :: "mem_bitmap \<Rightarrow> nat set" where
  "usable b = {p. mem_bitmap_is_usable b p}"

lemma usable_iff: "p \<in> usable b \<longleftrightarrow> tracked b p \<and> \<not> bitmap_test_bit b p"
  by (auto simp: usable_def mem_bitmap_is_usable_def tracked_def)

lemma usable_set: "bm_ok b \<Longrightarrow> tracked b p \<Longrightarrow> usable (bitmap_set_bit b p) = usable b - {p}"
  by (auto simp: usable_iff test_set)

lemma usable_clear: "bm_ok b \<Longrightarrow> tracked b p \<Longrightarrow> usable (bitmap_clear_bit b p) = insert p (usable b)"
  by (auto simp: usable_iff test_set)

lemma set_range:
  assumes "bm_ok b"
  shows "bm_ok (bitmap_set_range b s n) \<and> usable (bitmap_set_range b s n) = usable b - {s..<s + n} \<and>
    tracked (bitmap_set_range b s n) = tracked b"
proof (induction n)
  case (Suc n)
  let ?b = "bitmap_set_range b s n"
  have "bitmap_set_range b s (Suc n) = (if tracked ?b (s + n) then bitmap_set_bit ?b (s + n) else ?b)"
    by (simp add: bitmap_set_range_def)
  moreover have "s + n \<notin> usable ?b" if "\<not> tracked ?b (s + n)" using that by (simp add: usable_iff)
  ultimately show ?case using Suc usable_set [of ?b "s + n"] by (auto simp: atLeastLessThanSuc fun_eq_iff)
qed (use assms in \<open>simp add: bitmap_set_range_def\<close>)

lemma clear_range:
  assumes "bm_ok b"
  shows "bm_ok (bitmap_clear_range b s n) \<and>
    usable (bitmap_clear_range b s n) = usable b \<union> {p \<in> {s..<s + n}. tracked b p} \<and>
    tracked (bitmap_clear_range b s n) = tracked b"
proof (induction n)
  case (Suc n)
  let ?b = "bitmap_clear_range b s n"
  have "bitmap_clear_range b s (Suc n) = (if tracked ?b (s + n) then bitmap_clear_bit ?b (s + n) else ?b)"
    by (simp add: bitmap_clear_range_def)
  then show ?case using Suc usable_clear [of ?b "s + n"] by (auto simp: atLeastLessThanSuc fun_eq_iff)
qed (use assms in \<open>simp add: bitmap_clear_range_def\<close>)

subsection \<open>Searching\<close>

lemma test_split: "bitmap_test_bit b (base_pfn b + i * 64 + j) \<longleftrightarrow> bits b ! i AND push_bit j 1 \<noteq> 0" if "j < 64"
  using that and_push_bit_1 [of "bits b ! i" j] by (simp add: test_word word_test_bit add.assoc)

lemma find_in_word_Some:
  assumes "find_in_word b i = Some p" "i < nr_words b"
  shows "p \<in> usable b \<and> i * 64 \<le> p - base_pfn b \<and> p - base_pfn b < i * 64 + 64 \<and>
    (\<forall>q. base_pfn b + i * 64 \<le> q \<and> q < p \<longrightarrow> q \<notin> usable b)"
proof -
  obtain j where p: "p = base_pfn b + i * 64 + j"
    and f: "find (\<lambda>j. bits b ! i AND push_bit j 1 = 0 \<and> base_pfn b + i * 64 + j < base_pfn b + nr_bits b) [0..<64] = Some j"
    using assms(1) by (auto simp: find_in_word_def)
  then have j: "j < 64" "bits b ! i AND push_bit j 1 = 0" "base_pfn b + i * 64 + j < base_pfn b + nr_bits b"
    "\<forall>k < j. \<not> (bits b ! i AND push_bit k 1 = 0 \<and> base_pfn b + i * 64 + k < base_pfn b + nr_bits b)"
    unfolding find_least by blast+
  have "q \<notin> usable b" if "base_pfn b + i * 64 \<le> q" "q < p" for q
  proof -
    obtain k where k: "q = base_pfn b + i * 64 + k" using \<open>base_pfn b + i * 64 \<le> q\<close> le_Suc_ex by blast
    then have "k < j" using that(2) p by simp
    then show ?thesis using j(4) test_split [of k b i] \<open>j < 64\<close> k by (auto simp: usable_iff tracked_def)
  qed
  then show ?thesis using j p test_split [OF j(1), of b i] by (auto simp: usable_iff tracked_def)
qed

lemma find_in_word_None:
  assumes "find_in_word b i = None \<or> bits b ! i = -1" "base_pfn b + i * 64 \<le> p" "p < base_pfn b + i * 64 + 64"
  shows "p \<notin> usable b"
proof -
  obtain j where p: "p = base_pfn b + i * 64 + j" using assms(2) le_Suc_ex by blast
  then have j: "j < 64" using assms(3) by simp
  have "\<not> (bits b ! i AND push_bit j 1 = 0 \<and> base_pfn b + i * 64 + j < base_pfn b + nr_bits b)"
    using assms(1) j and_push_bit_1 [of "bits b ! i" j] by (auto simp: find_in_word_def find_least_None)
  then show ?thesis using test_split [OF j, of b i] p by (auto simp: usable_iff tracked_def)
qed

lemma find_free_cases:
  assumes ok: "bm_ok b"
  shows "case bitmap_find_free b of
      None \<Rightarrow> usable b = {}
    | Some p \<Rightarrow> p \<in> usable b \<and> (\<forall>q < p. q \<notin> usable b)"
proof -
  have word: "\<exists>i < nr_words b. base_pfn b + i * 64 \<le> p \<and> p < base_pfn b + i * 64 + 64" if "p \<in> usable b" for p
  proof -
    have "p - base_pfn b < 64 * nr_words b" "base_pfn b \<le> p"
      using tracked_word [OF ok, of p] that ok by (auto simp: usable_iff tracked_def bm_ok_def)
    then show ?thesis by (intro exI [of _ "(p - base_pfn b) div 64"]) auto
  qed
  show ?thesis
  proof (cases "find (\<lambda>i. bits b ! i \<noteq> -1 \<and> find_in_word b i \<noteq> None) [0..<nr_words b]")
    case None
    then have "\<forall>i < nr_words b. find_in_word b i = None \<or> bits b ! i = -1" by (auto simp: find_least_None)
    then have "usable b = {}" using word find_in_word_None by blast
    then show ?thesis using None by (simp add: bitmap_find_free_def)
  next
    case (Some i)
    then obtain p where i: "i < nr_words b" "find_in_word b i = Some p"
      "\<forall>k < i. find_in_word b k = None \<or> bits b ! k = -1" by (auto simp: find_least)
    note p = find_in_word_Some [OF i(2,1)]
    have "q \<notin> usable b" if "q < p" for q
    proof
      assume q: "q \<in> usable b"
      then obtain k where k: "base_pfn b + k * 64 \<le> q" "q < base_pfn b + k * 64 + 64" using word by blast
      have "\<not> base_pfn b + i * 64 \<le> q" using p q that by blast
      then have "k < i" using k by auto
      then show False using i(3) find_in_word_None [OF _ k] q by blast
    qed
    then show ?thesis using Some i(2) p by (simp add: bitmap_find_free_def)
  qed
qed

text \<open>The loop over runs: \<open>count\<close> frames up to \<open>pfn\<close> are free, and no run starts before them.\<close>

lemma find_range_loop_ok:
  assumes "base_pfn b + count \<le> pfn" "count < nr" "count > 0 \<Longrightarrow> range_start = pfn - count"
    "{pfn - count..<pfn} \<subseteq> usable b" "\<And>s. s < pfn - count \<Longrightarrow> \<not> {s..<s + nr} \<subseteq> usable b"
  shows "case find_range_loop b nr pfn count range_start of
      None \<Rightarrow> \<forall>s. \<not> {s..<s + nr} \<subseteq> usable b
    | Some r \<Rightarrow> {r..<r + nr} \<subseteq> usable b \<and> (\<forall>s < r. \<not> {s..<s + nr} \<subseteq> usable b)"
  using assms
proof (induction b nr pfn count range_start rule: find_range_loop.induct)
  case (1 b nr pfn count range_start)
  show ?case
  proof (cases "pfn < base_pfn b + nr_bits b")
    case False
    have "\<not> {s..<s + nr} \<subseteq> usable b" for s
    proof (cases "s < pfn - count")
      case False
      then have "s + nr - 1 \<in> {s..<s + nr}" "\<not> tracked b (s + nr - 1)"
        using 1(4) \<open>\<not> pfn < base_pfn b + nr_bits b\<close> by (auto simp: tracked_def)
      then show ?thesis by (auto simp: usable_iff)
    qed (use 1(7) in blast)
    then show ?thesis using False by (subst find_range_loop.simps) simp
  next
    case lt: True
    show ?thesis
    proof (cases "bitmap_test_bit b pfn")
      case True
      have n: "\<not> {s..<s + nr} \<subseteq> usable b" if "s < pfn + 1 - 0" for s
      proof (cases "s < pfn - count")
        case False
        then have "pfn \<in> {s..<s + nr}" using that 1(4) by auto
        then show ?thesis using True by (auto simp: usable_iff)
      qed (use 1(7) in blast)
      have "find_range_loop b nr pfn count range_start = find_range_loop b nr (pfn + 1) 0 range_start"
        using lt True by (subst find_range_loop.simps) simp
      then show ?thesis using 1(2) [OF lt] True n 1(3,4) by simp
    next
      case False
      have u: "{pfn - count..<pfn + 1} \<subseteq> usable b"
      proof -
        have "pfn \<in> usable b" using lt False 1(3) by (auto simp: usable_iff tracked_def)
        moreover have "{pfn - count..<pfn + 1} \<subseteq> insert pfn {pfn - count..<pfn}" by auto
        ultimately show ?thesis using 1(6) by blast
      qed
      let ?rs = "if count = 0 then pfn else range_start"
      have rs: "?rs = pfn - count" using 1(5) by auto
      show ?thesis
      proof (cases "count + 1 \<ge> nr")
        case True
        then have "find_range_loop b nr pfn count range_start = Some (pfn - count)"
          using lt False rs by (subst find_range_loop.simps) (simp add: Let_def)
        moreover have "nr = count + 1" using True 1(4) by simp
        ultimately show ?thesis using u 1(7) 1(3) by (simp add: Suc_diff_le)
      next
        case c: False
        have "find_range_loop b nr pfn count range_start = find_range_loop b nr (pfn + 1) (count + 1) ?rs"
          using lt False c by (subst find_range_loop.simps) (simp add: Let_def)
        then show ?thesis
          using 1(1) [OF lt False refl c] u rs 1(3,7) c by (simp add: Suc_diff_le)
      qed
    qed
  qed
qed

subsection \<open>Counting\<close>

lemma bits_drop_1: "{j. bit (w :: u64) j} = (if odd w then {0} else {}) \<union> Suc ` {j. bit (drop_bit (Suc 0) w) j}"
proof (rule set_eqI)
  fix j show "j \<in> {j. bit w j} \<longleftrightarrow> j \<in> (if odd w then {0} else {}) \<union> Suc ` {j. bit (drop_bit (Suc 0) w) j}"
    by (cases j) (auto simp: bit_0 bit_drop_bit_eq)
qed

lemma finite_bits: "finite {j. bit (w :: u64) j}"
  by (rule finite_subset [of _ "{..<64}"]) (auto dest: bit_imp_le_length)

lemma count_set_bits_card: "count_set_bits w acc = acc + of_nat (card {j. bit w j})"
proof (induction w acc rule: count_set_bits.induct)
  case (1 w acc)
  show ?case
  proof (cases "w = 0")
    case False
    have "card {j. bit w j} = of_bool (odd w) + card {j. bit (drop_bit (Suc 0) w) j}"
      by (subst bits_drop_1) (auto simp: card_insert_if card_image finite_bits)
    moreover have "w AND 1 = of_bool (odd w)" by (simp add: and_one_eq mod_2_eq_odd)
    ultimately show ?thesis using 1 False by (subst count_set_bits.simps) simp
  qed (simp add: count_set_bits.simps)
qed

definition zeros :: "u64 list \<Rightarrow> nat \<Rightarrow> nat set" where
  "zeros ws n = {i. i < 64 * n \<and> \<not> word_test ws i}"

lemma zeros_Suc: "card (zeros ws (Suc n)) = card (zeros ws n) + (64 - card {j. bit (ws ! n) j})"
proof -
  have s: "zeros ws (Suc n) = zeros ws n \<union> (\<lambda>j. 64 * n + j) ` ({..<64} - {j. bit (ws ! n) j})"
  proof (rule set_eqI)
    fix i show "i \<in> zeros ws (Suc n) \<longleftrightarrow> i \<in> zeros ws n \<union> (\<lambda>j. 64 * n + j) ` ({..<64} - {j. bit (ws ! n) j})"
    proof (cases "i < 64 * n")
      case False
      then obtain j where "i = 64 * n + j" using le_Suc_ex not_less by blast
      then show ?thesis by (auto simp: zeros_def word_test_bit)
    qed (auto simp: zeros_def)
  qed
  have "card ({..<64} - {j. bit (ws ! n) j}) = 64 - card {j. bit (ws ! n) j}"
    by (subst card_Diff_subset) (auto simp: finite_bits dest: bit_imp_le_length)
  moreover have "zeros ws n \<inter> (\<lambda>j. 64 * n + j) ` ({..<64} - {j. bit (ws ! n) j}) = {}" by (auto simp: zeros_def)
  ultimately show ?thesis
    unfolding s by (subst card_Un_disjoint) (auto simp: zeros_def card_image)
qed

lemma card_bits_le: "card {j. bit (w :: u64) j} \<le> 64"
proof -
  have "{j. bit w j} \<subseteq> {..<64}" by (auto dest: bit_imp_le_length)
  from card_mono [OF _ this] show ?thesis by simp
qed

lemma count_zeros:
  "fold (\<lambda>i count. count + (64 - count_set_bits (ws ! i) 0)) [0..<n] 0 = (of_nat (card (zeros ws n)) :: u64)"
proof (induction n)
  case (Suc n)
  have "(64 - of_nat (card {j. bit (ws ! n) j}) :: u64) = of_nat (64 - card {j. bit (ws ! n) j})"
    using card_bits_le by (simp add: of_nat_diff)
  then show ?case using Suc by (simp add: zeros_Suc count_set_bits_card)
qed (simp add: zeros_def)

text \<open>\<^verbatim>\<open>mem_bitmap_init\<close> sets all bits of the last word, and nothing clears those past the last frame.\<close>

definition padding_set :: "mem_bitmap \<Rightarrow> bool" where
  "padding_set b \<longleftrightarrow> (\<forall>i. nr_bits b \<le> i \<and> i < 64 * nr_words b \<longrightarrow> word_test (bits b) i)"

lemma zeros_usable:
  assumes "bm_ok b" "padding_set b"
  shows "card (zeros (bits b) (nr_words b)) = card (usable b)"
proof -
  have "usable b = (\<lambda>i. base_pfn b + i) ` zeros (bits b) (nr_words b)"
  proof (rule set_eqI)
    fix p show "p \<in> usable b \<longleftrightarrow> p \<in> (\<lambda>i. base_pfn b + i) ` zeros (bits b) (nr_words b)"
    proof (cases "base_pfn b \<le> p")
      case True
      then obtain i where p: "p = base_pfn b + i" using le_Suc_ex by blast
      have "i < nr_bits b \<Longrightarrow> i < 64 * nr_words b" using assms(1) by (auto simp: bm_ok_def)
      then show ?thesis using assms(2) p
        by (auto simp: usable_iff tracked_def test_word zeros_def padding_set_def not_less)
    qed (auto simp: usable_iff tracked_def)
  qed
  then show ?thesis by (simp add: card_image)
qed

lemma padding_init: "bm_ok (mem_bitmap_init n)" "padding_set (mem_bitmap_init n)" "usable (mem_bitmap_init n) = {}"
  by (auto simp: bm_ok_def padding_set_def usable_iff tracked_def mem_bitmap_init_def test_word word_test_bit)

lemma padding_clear_range: "bm_ok b \<Longrightarrow> padding_set b \<Longrightarrow> padding_set (bitmap_clear_range b s n)"
proof (induction n)
  case (Suc n)
  let ?b = "bitmap_clear_range b s n"
  have ok: "bm_ok ?b" "padding_set ?b" using Suc clear_range by blast+
  have "padding_set (bitmap_clear_bit ?b (s + n))" if t: "tracked ?b (s + n)"
    using ok tracked_word [OF ok(1) t] t
    by (auto simp: padding_set_def clear_word word_test_clear tracked_def)
  then show ?case using ok by (simp add: bitmap_clear_range_def)
qed (simp add: bitmap_clear_range_def)

subsection \<open>Byte ranges\<close>

lemma PFN_down: "PHYS_TO_PFN (PAGE_ALIGN_DOWN x) = unat x div 4096"
proof -
  have "unat (PAGE_ALIGN_DOWN x) = unat x div 4096 * 4096"
    using ALIGN_DOWN_pow2 [of x 12] by (simp add: ocean_const)
  then show ?thesis by (simp add: PHYS_TO_PFN_def PAGE_SHIFT_def drop_bit_eq_div unat_div)
qed

lemma PFN_up: "unat x + 4095 < 2 ^ 64 \<Longrightarrow> PHYS_TO_PFN (PAGE_ALIGN x) = (unat x + 4095) div 4096"
proof -
  assume "unat x + 4095 < 2 ^ 64"
  then have "unat (PAGE_ALIGN x) = (unat x + 4095) div 4096 * 4096"
    using ALIGN_UP_pow2 [of 12 x] by (simp add: ocean_const)
  then show ?thesis by (simp add: PHYS_TO_PFN_def PAGE_SHIFT_def drop_bit_eq_div unat_div)
qed

lemma mark_usable_range:
  "mem_bitmap_mark_usable b s e =
     bitmap_clear_range b (PHYS_TO_PFN (PAGE_ALIGN s)) (PHYS_TO_PFN (PAGE_ALIGN_DOWN e) - PHYS_TO_PFN (PAGE_ALIGN s))"
  by (simp add: mem_bitmap_mark_usable_def Let_def bitmap_clear_range_def)

lemma mark_reserved_range:
  "mem_bitmap_mark_reserved b s e =
     bitmap_set_range b (PHYS_TO_PFN (PAGE_ALIGN_DOWN s)) (PHYS_TO_PFN (PAGE_ALIGN e) - PHYS_TO_PFN (PAGE_ALIGN_DOWN s))"
  by (simp add: mem_bitmap_mark_reserved_def Let_def bitmap_set_range_def)

lemma frame_bounds:
  "p < n div 4096 \<longleftrightarrow> (p + 1) * 4096 \<le> (n :: nat)" "n div 4096 \<le> p \<longleftrightarrow> n < (p + 1) * (4096 :: nat)"
  using less_eq_div_iff_mult_less_eq [of 4096 "p + 1" n] by linarith+

lemma frame_round:
  "n + 4095 < (p + 1) * (4096 :: nat) \<longleftrightarrow> n \<le> p * 4096" "(p + 1) * 4096 \<le> n + 4095 \<longleftrightarrow> p * 4096 < (n :: nat)"
  by auto

lemma usable_upto:
  assumes "bm_ok b"
  shows "usable (bitmap_clear_range b a (d - a)) = usable b \<union> {p. tracked b p \<and> a \<le> p \<and> p < d}"
    and "usable (bitmap_set_range b a (d - a)) = usable b - {p. p < d \<and> a \<le> p}"
proof -
  have "{a..<a + (d - a)} = {p. a \<le> p \<and> p < d}" by auto
  then show "usable (bitmap_clear_range b a (d - a)) = usable b \<union> {p. tracked b p \<and> a \<le> p \<and> p < d}"
    and "usable (bitmap_set_range b a (d - a)) = usable b - {p. p < d \<and> a \<le> p}"
    using clear_range [OF assms, of a "d - a"] set_range [OF assms, of a "d - a"] by (blast | auto)+
qed

lemma usable_mark:
  assumes "bm_ok b" "unat s + 4095 < 2 ^ 64" "unat e + 4095 < 2 ^ 64"
  shows "usable (mem_bitmap_mark_usable b s e) =
      usable b \<union> {p. tracked b p \<and> unat s \<le> p * 4096 \<and> (p + 1) * 4096 \<le> unat e}"
    and "usable (mem_bitmap_mark_reserved b s e) = usable b - {p. p * 4096 < unat e \<and> unat s < (p + 1) * 4096}"
  unfolding mark_usable_range mark_reserved_range PFN_down PFN_up [OF assms(2)] PFN_up [OF assms(3)]
    usable_upto [OF assms(1)] frame_bounds frame_round by (rule refl)+

lemma mark_ok:
  assumes "bm_ok b"
  shows "bm_ok (mem_bitmap_mark_usable b s e)" "tracked (mem_bitmap_mark_usable b s e) = tracked b"
    "bm_ok (mem_bitmap_mark_reserved b s e)" "tracked (mem_bitmap_mark_reserved b s e) = tracked b"
  unfolding mark_usable_range mark_reserved_range using clear_range [OF assms] set_range [OF assms] by simp_all

subsection \<open>Properties\<close>

text \<open>C32: The allocator of single frames is first fit and exact: it returns the lowest usable frame
  and makes only that frame used, and it fails exactly when no frame is usable, leaving the bitmap
  as it was; freeing the frame again restores the set of usable frames.\<close>

theorem bitmap_alloc_page_first:
  assumes "bm_ok b" "mem_bitmap_alloc_page b = (b', r)"
  shows "bm_ok b' \<and>
    (case r of
       None \<Rightarrow> usable b = {} \<and> b' = b
     | Some p \<Rightarrow> p \<in> usable b \<and> (\<forall>q < p. q \<notin> usable b) \<and> usable b' = usable b - {p} \<and>
         usable (mem_bitmap_free_page b' p) = usable b)"
proof (cases "bitmap_find_free b")
  case None
  then show ?thesis using assms find_free_cases [OF assms(1)] by (auto simp: mem_bitmap_alloc_page_def)
next
  case (Some p)
  then have p: "p \<in> usable b" "\<forall>q < p. q \<notin> usable b" using find_free_cases [OF assms(1)] by auto
  then have t: "tracked b p" by (simp add: usable_iff)
  have b': "b' = bitmap_set_bit b p" "r = Some p" using Some assms(2) by (auto simp: mem_bitmap_alloc_page_def)
  have "mem_bitmap_free_page b' p = bitmap_clear_bit b' p"
    using t b' by (auto simp: mem_bitmap_free_page_def tracked_def)
  then show ?thesis
    using b' p t assms(1) usable_set [OF assms(1) t] usable_clear [of b' p] by (auto simp: insert_absorb)
qed

text \<open>Four frames, of which 1 and 3 are usable.\<close>

definition ex_bitmap :: mem_bitmap where
  "ex_bitmap = mem_bitmap_free_page (mem_bitmap_mark_usable (mem_bitmap_init 4) 4095 8193) 3"

theorem bitmap_alloc_page_first_witness:
  "bm_ok ex_bitmap \<and> snd (mem_bitmap_alloc_page ex_bitmap) = Some 1 \<and>
   usable (fst (mem_bitmap_alloc_page ex_bitmap)) = usable ex_bitmap - {1}"
proof -
  have ok: "bm_ok ex_bitmap" "snd (mem_bitmap_alloc_page ex_bitmap) = Some 1" by code_simp+
  then show ?thesis
    using bitmap_alloc_page_first [OF ok(1), of "fst (mem_bitmap_alloc_page ex_bitmap)" "Some 1"]
    by (simp add: prod_eq_iff)
qed

text \<open>C31: The allocator of runs is first fit and exact: for one or more frames it returns the lowest
  start of a run of that many usable frames and makes exactly the run used, and it fails
  exactly when there is no such run; freeing the run restores the set of usable frames.\<close>

theorem bitmap_alloc_pages_first:
  assumes "bm_ok b" "0 < nr" "mem_bitmap_alloc_pages b nr = (b', r)"
  shows "bm_ok b' \<and>
    (case r of
       None \<Rightarrow> (\<forall>s. \<not> {s..<s + nr} \<subseteq> usable b) \<and> b' = b
     | Some p \<Rightarrow> {p..<p + nr} \<subseteq> usable b \<and> (\<forall>s < p. \<not> {s..<s + nr} \<subseteq> usable b) \<and>
         usable b' = usable b - {p..<p + nr} \<and> usable (mem_bitmap_free_pages b' p nr) = usable b)"
proof -
  have f: "case bitmap_find_free_range b nr of None \<Rightarrow> \<forall>s. \<not> {s..<s + nr} \<subseteq> usable b
    | Some r \<Rightarrow> {r..<r + nr} \<subseteq> usable b \<and> (\<forall>s < r. \<not> {s..<s + nr} \<subseteq> usable b)"
    unfolding bitmap_find_free_range_def
  proof (rule find_range_loop_ok)
    show "\<not> {s..<s + nr} \<subseteq> usable b" if s: "s < base_pfn b - 0" for s
    proof -
      have "s \<in> {s..<s + nr}" "s \<notin> usable b" using assms(2) s by (auto simp: usable_iff tracked_def)
      then show ?thesis by blast
    qed
  qed (use assms(2) in auto)
  show ?thesis
  proof (cases "bitmap_find_free_range b nr")
    case None
    then show ?thesis using assms(1,3) f by (auto simp: mem_bitmap_alloc_pages_def)
  next
    case (Some p)
    then have b': "b' = bitmap_set_range b p nr" "r = Some p" using assms(3) by (auto simp: mem_bitmap_alloc_pages_def)
    have p: "{p..<p + nr} \<subseteq> usable b" "\<forall>s < p. \<not> {s..<s + nr} \<subseteq> usable b" using f Some by auto
    have "usable (mem_bitmap_free_pages b' p nr) = usable b"
      using set_range [OF assms(1), of p nr] clear_range [of b' p nr] p(1) b'
      by (auto simp: mem_bitmap_free_pages_def usable_iff)
    then show ?thesis using set_range [OF assms(1), of p nr] b' p by simp
  qed
qed

theorem bitmap_alloc_pages_first_witness:
  "let b = mem_bitmap_mark_usable ex_bitmap 8192 12288
   in snd (mem_bitmap_alloc_pages b 3) = Some 1 \<and>
      usable (fst (mem_bitmap_alloc_pages b 3)) = usable b - {1..<4}"
proof -
  let ?b = "mem_bitmap_mark_usable ex_bitmap 8192 12288"
  have ok: "bm_ok ?b" "snd (mem_bitmap_alloc_pages ?b 3) = Some 1" by code_simp+
  then show ?thesis
    using bitmap_alloc_pages_first [OF ok(1), of 3 "fst (mem_bitmap_alloc_pages ?b 3)" "Some 1"]
    by (simp add: prod_eq_iff Let_def)
qed

text \<open>Byte ranges are rounded to frames on the safe side: marking a range usable frees exactly the
  tracked frames that lie inside the range as a whole, and marking a range reserved
  takes every frame that has a byte in common with it. The bounds exclude only ranges that end in
  the last page of the 64-bit address space, where rounding up wraps.\<close>

lemma bitmap_mark_rounding:
  assumes "bm_ok b" "unat s + 4095 < 2 ^ 64" "unat e + 4095 < 2 ^ 64"
  shows "usable (mem_bitmap_mark_usable b s e) =
      usable b \<union> {p. tracked b p \<and> unat s \<le> p * 4096 \<and> (p + 1) * 4096 \<le> unat e} \<and>
    usable (mem_bitmap_mark_reserved b s e) =
      usable b - {p. p * 4096 < unat e \<and> unat s < (p + 1) * 4096}"
  using usable_mark [OF assms] by (rule conjI)

text \<open>C35: The count of free frames is short by the number of padding bits of the last word: they are
  set from the start, are not counted as free, and are subtracted nevertheless.\<close>

theorem bitmap_count_free_short:
  assumes "bm_ok b" "padding_set b"
  shows "bitmap_count_free b = of_nat (card (usable b)) - of_nat (64 * nr_words b - nr_bits b)"
proof -
  have "nr_bits b \<le> 64 * nr_words b" using assms(1) by (auto simp: bm_ok_def)
  then show ?thesis
    by (simp add: bitmap_count_free_def count_zeros zeros_usable [OF assms] of_nat_diff mult.commute)
qed

theorem bitmap_count_free_short_witness:
  "bm_ok (mem_bitmap_init 4) \<and> padding_set (mem_bitmap_init 4) \<and> bitmap_count_free (mem_bitmap_init 4) = - 60"
  using bitmap_count_free_short [OF padding_init(1,2), of 4] padding_init [of 4]
  by (simp add: mem_bitmap_init_def)

end
