(* ===== verification/Pmm.thy ===== *)
theory Pmm
  imports Buddy Mem_Bitmap
begin

text \<open>
  The physical memory manager of \<^verbatim>\<open>kernel/mm/pmm.c\<close>: set up from the boot loader's memory map, and
  allocation over three zones with the buddy allocator. The state is the global \<^verbatim>\<open>struct pmm_state\<close>
  together with the page bitmap and the early boot allocator, and the bytes of physical memory,
  which only the zeroing of fresh pages touches. A \<^verbatim>\<open>struct page *\<close> is a frame number, and an access
  outside the page array is the result \<open>None\<close>. The pages of the page array and of the bitmap are
  not aliased with the bytes of physical memory.
\<close>

subsection \<open>State\<close>

definition ZONE_DMA :: nat where "ZONE_DMA = 0"
definition ZONE_DMA32 :: nat where "ZONE_DMA32 = 1"
definition ZONE_NORMAL :: nat where "ZONE_NORMAL = 2"
definition MAX_ZONES :: nat where "MAX_ZONES = 3"

definition ZONE_DMA_END :: u64 where "ZONE_DMA_END = 16 * 1024 * 1024"
definition ZONE_DMA32_END :: u64 where "ZONE_DMA32_END = 4 * 1024 * 1024 * 1024"

definition GFP_KERNEL :: u32 where "GFP_KERNEL = 0"
definition GFP_DMA :: u32 where "GFP_DMA = 2"
definition GFP_DMA32 :: u32 where "GFP_DMA32 = 4"
definition GFP_ZERO :: u32 where "GFP_ZERO = 8"

lemmas zone_const = ZONE_DMA_def ZONE_DMA32_def ZONE_NORMAL_def MAX_ZONES_def ZONE_DMA_END_def
  ZONE_DMA32_END_def GFP_KERNEL_def GFP_DMA_def GFP_DMA32_def GFP_ZERO_def

definition LIMINE_MEMMAP_USABLE :: u64 where "LIMINE_MEMMAP_USABLE = 0"
definition LIMINE_MEMMAP_ACPI_RECLAIMABLE :: u64 where "LIMINE_MEMMAP_ACPI_RECLAIMABLE = 2"
definition LIMINE_MEMMAP_BOOTLOADER_RECLAIMABLE :: u64 where "LIMINE_MEMMAP_BOOTLOADER_RECLAIMABLE = 5"
definition LIMINE_MEMMAP_KERNEL_AND_MODULES :: u64 where "LIMINE_MEMMAP_KERNEL_AND_MODULES = 6"

record memmap_entry =
  base :: u64
  length_of :: u64
  type :: u64

text \<open>The fields of the boot information that the memory manager reads.\<close>

record boot_info =
  memmap :: "memmap_entry list"
  boot_hhdm :: u64

record boot_alloc =
  ba_base :: u64
  ba_current :: u64
  ba_end :: u64

record pmm_state =
  page_array :: "page list"
  page_array_addr :: u64
  zones :: "zone list"
  total_pages :: u64
  pmm_free_pages :: u64
  reserved_pages :: u64
  hhdm_offset :: u64
  initialized :: bool
  bitmap :: mem_bitmap
  boot_alloc :: boot_alloc
  phys_mem :: "nat \<Rightarrow> u8"

definition PFN_TO_PHYS :: "nat \<Rightarrow> u64" where
  "PFN_TO_PHYS pfn = push_bit PAGE_SHIFT (of_nat pfn)"

definition phys_to_virt :: "pmm_state \<Rightarrow> u64 \<Rightarrow> u64" where
  "phys_to_virt s phys = phys + hhdm_offset s"

definition virt_to_phys :: "pmm_state \<Rightarrow> u64 \<Rightarrow> u64" where
  "virt_to_phys s virt = virt - hhdm_offset s"

text \<open>Apply a change to the page structures of a range of frames, in ascending order.\<close>

definition upd_pages :: "(page \<Rightarrow> page) \<Rightarrow> nat \<Rightarrow> nat \<Rightarrow> page list \<Rightarrow> page list" where
  "upd_pages f a b pages = fold (\<lambda>i ps. ps[i := f (ps ! i)]) [a..<b] pages"

subsection \<open>Set up\<close>

definition boot_alloc_pages :: "pmm_state \<Rightarrow> u64 \<Rightarrow> pmm_state \<times> u64" where
  "boot_alloc_pages s nr =
     (let addr = PAGE_ALIGN (ba_current (boot_alloc s)); size = nr * PAGE_SIZE
      in if addr + size > ba_end (boot_alloc s) then (s, 0)
         else (s\<lparr>boot_alloc := (boot_alloc s)\<lparr>ba_current := addr + size\<rparr>\<rparr>, phys_to_virt s addr))"

definition pfn_to_zone_type :: "nat \<Rightarrow> nat" where
  "pfn_to_zone_type pfn =
     (let addr = PFN_TO_PHYS pfn
      in if addr < ZONE_DMA_END then ZONE_DMA
         else if addr < ZONE_DMA32_END then ZONE_DMA32
         else ZONE_NORMAL)"

definition init_zones :: "pmm_state \<Rightarrow> pmm_state" where
  "init_zones s =
     (let z = buddy_init_zone \<lparr>start_pfn = 0, end_pfn = 0, present_pages = 0, free_pages = 0,
                free_areas = [], alloc_count = 0, free_count = 0\<rparr>
      in s\<lparr>zones :=
           [z\<lparr>start_pfn := 0, end_pfn := PHYS_TO_PFN ZONE_DMA_END\<rparr>,
            z\<lparr>start_pfn := PHYS_TO_PFN ZONE_DMA_END, end_pfn := PHYS_TO_PFN ZONE_DMA32_END\<rparr>,
            z\<lparr>start_pfn := PHYS_TO_PFN ZONE_DMA32_END, end_pfn := length (page_array s)\<rparr>]\<rparr>)"

text \<open>\<^verbatim>\<open>sizeof(struct page)\<close>.\<close>

definition sizeof_page :: u64 where "sizeof_page = 64"

definition init_page_array :: "pmm_state \<Rightarrow> nat \<Rightarrow> pmm_state" where
  "init_page_array s max_pfn =
     (let array_size = of_nat max_pfn * sizeof_page;
          array_pages = PAGE_ALIGN array_size div PAGE_SIZE;
          (s1, p) = boot_alloc_pages s array_pages;
          s2 = s1\<lparr>page_array_addr := p\<rparr>
      in if p = 0 then s2
         else s2\<lparr>page_array := map (\<lambda>pfn. \<lparr>flags = PG_RESERVED, order = 0,
                zone_id = pfn_to_zone_type pfn, head = None\<rparr>) [0..<max_pfn]\<rparr>)"

text \<open>The end of a run of usable frames in \<^verbatim>\<open>add_usable_memory\<close>.\<close>

definition end_run :: "pmm_state \<Rightarrow> nat \<Rightarrow> nat \<Rightarrow> nat \<Rightarrow> pmm_state option" where
  "end_run s current_zone run_start run_length =
     (if run_length > 0
      then do {
        (pages, z) \<leftarrow> buddy_add_pages (page_array s, zones s ! current_zone) run_start run_length;
        Some (s\<lparr>page_array := pages, zones := (zones s)[current_zone :=
          z\<lparr>present_pages := present_pages z + of_nat run_length\<rparr>]\<rparr>)
      }
      else Some s)"

fun add_usable_loop :: "nat list \<Rightarrow> pmm_state \<Rightarrow> nat \<Rightarrow> nat \<Rightarrow> nat \<Rightarrow> pmm_state option" where
  "add_usable_loop [] s run_start run_length current_zone = end_run s current_zone run_start run_length"
| "add_usable_loop (pfn # pfns) s run_start run_length current_zone =
     (let is_usable = (flags (page_array s ! pfn) AND PG_RESERVED = 0);
          zone = pfn_to_zone_type pfn
      in if is_usable \<and> zone = current_zone
         then add_usable_loop pfns s (if run_length = 0 then pfn else run_start) (run_length + 1) current_zone
         else do {
           s1 \<leftarrow> end_run s current_zone run_start run_length;
           if is_usable then add_usable_loop pfns s1 pfn 1 zone
           else add_usable_loop pfns s1 run_start 0 current_zone
         })"

definition add_usable_memory :: "pmm_state \<Rightarrow> pmm_state option" where
  "add_usable_memory s = add_usable_loop [0..<length (page_array s)] s 0 0 ZONE_DMA"

text \<open>The scan of the memory map: the end of the highest usable region, and the largest usable region.\<close>

definition scan_entry :: "memmap_entry \<Rightarrow> u64 \<times> u64 \<times> u64 \<Rightarrow> u64 \<times> u64 \<times> u64" where
  "scan_entry e acc =
     (case acc of (max_addr, b_base, b_size) \<Rightarrow>
        ((if (type e = LIMINE_MEMMAP_USABLE \<or> type e = LIMINE_MEMMAP_BOOTLOADER_RECLAIMABLE \<or>
              type e = LIMINE_MEMMAP_ACPI_RECLAIMABLE \<or> type e = LIMINE_MEMMAP_KERNEL_AND_MODULES) \<and>
             base e + length_of e > max_addr
          then base e + length_of e else max_addr),
         (if type e = LIMINE_MEMMAP_USABLE \<and> length_of e > b_size
          then (base e, length_of e) else (b_base, b_size))))"

definition mark_entry :: "memmap_entry \<Rightarrow> mem_bitmap \<Rightarrow> mem_bitmap" where
  "mark_entry e b =
     (if type e = LIMINE_MEMMAP_USABLE \<or> type e = LIMINE_MEMMAP_BOOTLOADER_RECLAIMABLE
      then mem_bitmap_mark_usable b (base e) (base e + length_of e) else b)"

text \<open>One turn of the loop that marks usable pages in the page array.\<close>

definition mark_page :: "nat \<Rightarrow> pmm_state \<Rightarrow> pmm_state option" where
  "mark_page pfn s =
     (if mem_bitmap_is_usable (bitmap s) pfn
      then if pfn \<ge> length (page_array s) then None
           else Some (s\<lparr>page_array := (page_array s)[pfn := page_clear_flag (page_array s ! pfn) PG_RESERVED],
                        pmm_free_pages := pmm_free_pages s + 1, total_pages := total_pages s + 1\<rparr>)
      else Some (s\<lparr>reserved_pages := reserved_pages s + 1, total_pages := total_pages s + 1\<rparr>))"

fun mark_pages :: "nat list \<Rightarrow> pmm_state \<Rightarrow> pmm_state option" where
  "mark_pages [] s = Some s"
| "mark_pages (pfn # pfns) s = mark_page pfn s \<bind> mark_pages pfns"

definition pmm_init :: "pmm_state \<Rightarrow> boot_info option \<Rightarrow> pmm_state option" where
  "pmm_init s boot =
     (case boot of
        None \<Rightarrow> Some s
      | Some bi \<Rightarrow>
          (let s1 = s\<lparr>hhdm_offset := boot_hhdm bi\<rparr>;
               (max_addr, b_base, b_size) = fold scan_entry (memmap bi) (0, 0, 0);
               max_pfn = PHYS_TO_PFN max_addr;
               s2 = s1\<lparr>boot_alloc := \<lparr>ba_base = b_base, ba_current = b_base, ba_end = b_base + b_size\<rparr>\<rparr>;
               bitmap_size = of_nat (mem_bitmap_size_for max_pfn);
               (s3, bitmap_mem) = boot_alloc_pages s2 ((bitmap_size + PAGE_SIZE - 1) div PAGE_SIZE)
           in if bitmap_mem = 0 then Some s3
              else let b1 = fold mark_entry (memmap bi) (mem_bitmap_init max_pfn);
                       b2 = mem_bitmap_mark_reserved b1 (ba_base (boot_alloc s3)) (ba_current (boot_alloc s3));
                       s4 = init_page_array s3 max_pfn;
                       page_array_phys = virt_to_phys s4 (page_array_addr s4);
                       b3 = mem_bitmap_mark_reserved b2 page_array_phys
                              (page_array_phys + of_nat max_pfn * sizeof_page)
                   in do {
                        s5 \<leftarrow> mark_pages [0..<max_pfn] (s4\<lparr>bitmap := b3\<rparr>);
                        s6 \<leftarrow> add_usable_memory (init_zones s5);
                        Some (s6\<lparr>pmm_free_pages := sum_list (map free_pages (zones s6)), initialized := True\<rparr>)
                      }))"

subsection \<open>Allocation\<close>

text \<open>The search for a zone, from the given one down; the argument is one more than the first zone.\<close>

fun try_zones :: "pmm_state \<Rightarrow> nat \<Rightarrow> nat \<Rightarrow> (pmm_state \<times> nat option) option" where
  "try_zones s k 0 = Some (s, None)"
| "try_zones s k (Suc i) =
     (if free_pages (zones s ! i) < push_bit k 1 then try_zones s k i
      else do {
        ((pages, z), r) \<leftarrow> buddy_alloc_pages (page_array s, zones s ! i) k;
        let s1 = s\<lparr>page_array := pages, zones := (zones s)[i := z]\<rparr>;
        case r of None \<Rightarrow> try_zones s1 k i | Some p \<Rightarrow> Some (s1, Some p)
      })"

definition zero_block :: "nat \<Rightarrow> nat \<Rightarrow> (nat \<Rightarrow> u8) \<Rightarrow> nat \<Rightarrow> u8" where
  "zero_block p k m = (\<lambda>a. if p * 4096 \<le> a \<and> a < (p + 2 ^ k) * 4096 then 0 else m a)"

definition start_zone :: "u32 \<Rightarrow> nat" where
  "start_zone gfp_flags =
     (if gfp_flags AND GFP_DMA \<noteq> 0 then ZONE_DMA
      else if gfp_flags AND GFP_DMA32 \<noteq> 0 then ZONE_DMA32
      else ZONE_NORMAL)"

text \<open>The marking of the first page and of the tail pages of a compound page.\<close>

definition mark_compound :: "nat \<Rightarrow> nat \<Rightarrow> page list \<Rightarrow> page list" where
  "mark_compound p k pages =
     upd_pages (\<lambda>t. t\<lparr>flags := flags t OR (PG_TAIL OR PG_COMPOUND), head := Some p\<rparr>) (p + 1) (p + 2 ^ k)
       (pages[p := (pages ! p)\<lparr>flags := flags (pages ! p) OR (PG_HEAD OR PG_COMPOUND), order := k\<rparr>])"

definition clear_compound :: "nat \<Rightarrow> nat \<Rightarrow> page list \<Rightarrow> page list" where
  "clear_compound p k pages =
     upd_pages (\<lambda>t. t\<lparr>flags := flags t AND NOT (PG_TAIL OR PG_COMPOUND), head := None\<rparr>) (p + 1) (p + 2 ^ k)
       (pages[p := (pages ! p)\<lparr>flags := flags (pages ! p) AND NOT (PG_HEAD OR PG_COMPOUND)\<rparr>])"

definition alloc_pages :: "pmm_state \<Rightarrow> nat \<Rightarrow> u32 \<Rightarrow> (pmm_state \<times> nat option) option" where
  "alloc_pages s k gfp_flags =
     (if \<not> initialized s then Some (s, None)
      else do {
        (s1, r) \<leftarrow> try_zones s k (Suc (start_zone gfp_flags));
        case r of
          None \<Rightarrow> Some (s1, None)
        | Some p \<Rightarrow>
            if p + 2 ^ k > length (page_array s1) then None
            else do {
              let pages1 = (page_array s1)[p := page_clear_flag (page_array s1 ! p) PG_BUDDY];
              let pages2 = (if gfp_flags AND GFP_KERNEL \<noteq> 0 then pages1[p := page_set_flag (pages1 ! p) PG_KERNEL] else pages1);
              let mem1 = (if gfp_flags AND GFP_ZERO \<noteq> 0 then zero_block p k (phys_mem s1) else phys_mem s1);
              let pages3 = (if k > 0 then mark_compound p k pages2 else pages2);
              Some (s1\<lparr>page_array := pages3, phys_mem := mem1\<rparr>, Some p)
            }
      })"

definition alloc_page :: "pmm_state \<Rightarrow> u32 \<Rightarrow> (pmm_state \<times> nat option) option" where
  "alloc_page s gfp_flags = alloc_pages s 0 gfp_flags"

definition free_pages_pmm :: "pmm_state \<Rightarrow> nat option \<Rightarrow> nat \<Rightarrow> pmm_state option" where
  "free_pages_pmm s page k =
     (case page of
        None \<Rightarrow> Some s
      | Some p \<Rightarrow>
          if \<not> initialized s then Some s
          else if p + 2 ^ k > length (page_array s) \<or> zone_id (page_array s ! p) \<ge> MAX_ZONES then None
          else do {
            let zi = zone_id (page_array s ! p);
            let pages1 = (if k > 0 then clear_compound p k (page_array s) else page_array s);
            let pages2 = pages1[p := page_clear_flag (pages1 ! p) PG_KERNEL];
            (pages3, z) \<leftarrow> buddy_free_pages (pages2, zones s ! zi) p k;
            Some (s\<lparr>page_array := pages3, zones := (zones s)[zi := z]\<rparr>)
          })"

definition free_page :: "pmm_state \<Rightarrow> nat option \<Rightarrow> pmm_state option" where
  "free_page s page = free_pages_pmm s page 0"

definition get_free_pages :: "pmm_state \<Rightarrow> nat \<Rightarrow> u32 \<Rightarrow> (pmm_state \<times> u64) option" where
  "get_free_pages s k gfp_flags = do {
     (s1, r) \<leftarrow> alloc_pages s k gfp_flags;
     case r of
       None \<Rightarrow> Some (s1, 0)
     | Some p \<Rightarrow> Some (s1, phys_to_virt s1 (PFN_TO_PHYS p))
   }"

definition get_free_page :: "pmm_state \<Rightarrow> u32 \<Rightarrow> (pmm_state \<times> u64) option" where
  "get_free_page s gfp_flags = get_free_pages s 0 gfp_flags"

definition get_zeroed_page :: "pmm_state \<Rightarrow> u32 \<Rightarrow> (pmm_state \<times> u64) option" where
  "get_zeroed_page s gfp_flags = get_free_page s (gfp_flags OR GFP_ZERO)"

definition alloc_pages_zone :: "pmm_state \<Rightarrow> nat \<Rightarrow> nat \<Rightarrow> u32 \<Rightarrow> (pmm_state \<times> nat option) option" where
  "alloc_pages_zone s zi k gfp_flags =
     (if zi \<ge> MAX_ZONES then Some (s, None)
      else do {
        ((pages, z), r) \<leftarrow> buddy_alloc_pages (page_array s, zones s ! zi) k;
        let s1 = s\<lparr>page_array := pages, zones := (zones s)[zi := z]\<rparr>;
        case r of
          None \<Rightarrow> Some (s1, None)
        | Some p \<Rightarrow>
            if p \<ge> length pages then None
            else Some (s1\<lparr>page_array := pages[p := page_clear_flag (pages ! p) PG_BUDDY],
                          phys_mem := (if gfp_flags AND GFP_ZERO \<noteq> 0 then zero_block p k (phys_mem s1) else phys_mem s1)\<rparr>,
                       Some p)
      })"

definition pmm_reserve_range :: "pmm_state \<Rightarrow> u64 \<Rightarrow> u64 \<Rightarrow> pmm_state" where
  "pmm_reserve_range s st en =
     (let spfn = PHYS_TO_PFN (PAGE_ALIGN_DOWN st); epfn = PHYS_TO_PFN (PAGE_ALIGN en)
      in s\<lparr>page_array := upd_pages (\<lambda>pg. page_set_flag pg PG_RESERVED) spfn (min epfn (length (page_array s))) (page_array s),
           bitmap := mem_bitmap_mark_reserved (bitmap s) st en\<rparr>)"

definition pmm_get_free_pages :: "pmm_state \<Rightarrow> u64" where
  "pmm_get_free_pages s = sum_list (map free_pages (zones s))"

definition pmm_verify_integrity :: "pmm_state \<Rightarrow> integrity_error list" where
  "pmm_verify_integrity s =
     concat (map (\<lambda>z. if present_pages z > 0 then buddy_verify_integrity (page_array s, z) else []) (zones s))"

text \<open>Allocation by virtual address.\<close>

definition virt_to_page :: "pmm_state \<Rightarrow> u64 \<Rightarrow> nat option" where
  "virt_to_page s addr =
     (let pfn = PHYS_TO_PFN (virt_to_phys s addr)
      in if pfn \<ge> length (page_array s) then None else Some pfn)"

definition simple_get_free_page :: "pmm_state \<Rightarrow> (pmm_state \<times> u64) option" where
  "simple_get_free_page s = get_free_page s GFP_KERNEL"

definition simple_get_free_pages :: "pmm_state \<Rightarrow> nat \<Rightarrow> (pmm_state \<times> u64) option" where
  "simple_get_free_pages s k = get_free_pages s k GFP_KERNEL"

definition simple_free_page :: "pmm_state \<Rightarrow> u64 \<Rightarrow> pmm_state option" where
  "simple_free_page s addr =
     (if addr = 0 then Some s
      else case virt_to_page s addr of None \<Rightarrow> Some s | Some p \<Rightarrow> free_page s (Some p))"

definition simple_free_pages :: "pmm_state \<Rightarrow> u64 \<Rightarrow> nat \<Rightarrow> pmm_state option" where
  "simple_free_pages s addr k =
     (if addr = 0 then Some s
      else case virt_to_page s addr of None \<Rightarrow> Some s | Some p \<Rightarrow> free_pages_pmm s (Some p) k)"

subsection \<open>Page structures\<close>

lemma upd_pages_Suc: "a \<le> b \<Longrightarrow> upd_pages f a (Suc b) pages = (upd_pages f a b pages)[b := f (upd_pages f a b pages ! b)]"
  by (simp add: upd_pages_def)

lemma upd_pages_nth:
  assumes "b \<le> length pages"
  shows "length (upd_pages f a b pages) = length pages \<and>
    upd_pages f a b pages ! i = (if a \<le> i \<and> i < b then f (pages ! i) else pages ! i)"
  using assms
proof (induction b arbitrary: i)
  case (Suc b)
  show ?case
  proof (cases "a \<le> b")
    case True
    then show ?thesis using Suc by (auto simp: upd_pages_Suc nth_upd less_Suc_eq)
  qed (auto simp: upd_pages_def)
qed (simp add: upd_pages_def)

text \<open>A change of page structures that the buddy allocator does not see.\<close>

definition same_page :: "page \<Rightarrow> page \<Rightarrow> bool" where
  "same_page pg pg' \<longleftrightarrow> zone_id pg' = zone_id pg \<and> (marked pg' \<longleftrightarrow> marked pg) \<and> (marked pg \<longrightarrow> order pg' = order pg)"

lemma marked_bit: "marked pg \<longleftrightarrow> bit (flags pg) 1"
proof -
  have "flags pg AND push_bit 1 1 = (if bit (flags pg) 1 then push_bit 1 1 else 0)"
    by (rule bit_word_eqI) (auto simp: bit_simps)
  moreover have "push_bit 1 1 = (2 :: u32)" by (simp add: push_bit_eq_mult)
  ultimately show ?thesis by (simp add: PG_BUDDY_def)
qed

lemma flag_bits:
  "\<not> bit PG_RESERVED 1" "\<not> bit PG_KERNEL 1" "\<not> bit (PG_TAIL OR PG_COMPOUND) 1" "\<not> bit (PG_HEAD OR PG_COMPOUND) 1"
  by (simp_all add: PG_RESERVED_def PG_KERNEL_def PG_TAIL_def PG_COMPOUND_def PG_HEAD_def)

lemma same_page_simps [simp]:
  "same_page pg pg"
  "same_page pg (page_clear_flag pg PG_RESERVED)" "same_page pg (page_set_flag pg PG_RESERVED)"
  "same_page pg (page_clear_flag pg PG_KERNEL)" "same_page pg (page_set_flag pg PG_KERNEL)"
  "same_page pg (pg\<lparr>flags := flags pg OR (PG_TAIL OR PG_COMPOUND), head := h\<rparr>)"
  "same_page pg (pg\<lparr>flags := flags pg AND NOT (PG_TAIL OR PG_COMPOUND), head := h\<rparr>)"
  "same_page pg (pg\<lparr>flags := flags pg AND NOT (PG_HEAD OR PG_COMPOUND)\<rparr>)"
  "\<not> marked pg \<Longrightarrow> same_page pg (pg\<lparr>flags := flags pg OR (PG_HEAD OR PG_COMPOUND), order := k\<rparr>)"
  "\<not> marked pg \<Longrightarrow> same_page pg (page_clear_flag pg PG_BUDDY)"
  unfolding same_page_def marked_bit using flag_bits
  by (auto simp: page_clear_flag_def page_set_flag_def bit_simps)

lemma same_page_trans: "same_page a b \<Longrightarrow> same_page b c \<Longrightarrow> same_page a c"
  by (auto simp: same_page_def)

definition same_pages :: "page list \<Rightarrow> page list \<Rightarrow> bool" where
  "same_pages ps ps' \<longleftrightarrow> length ps' = length ps \<and> (\<forall>i < length ps. same_page (ps ! i) (ps' ! i))"

lemma same_pages_refl [simp]: "same_pages ps ps"
  by (simp add: same_pages_def)

lemma same_pages_trans: "same_pages a b \<Longrightarrow> same_pages b c \<Longrightarrow> same_pages a c"
  unfolding same_pages_def using same_page_trans by metis

lemma same_pages_upd: "same_page (ps ! i) pg \<Longrightarrow> same_pages ps (ps[i := pg])"
  by (auto simp: same_pages_def nth_upd)

lemma same_pages_upd_pages: "(\<And>pg. same_page pg (f pg)) \<Longrightarrow> b \<le> length ps \<Longrightarrow> same_pages ps (upd_pages f a b ps)"
  using upd_pages_nth [of b ps f a] by (simp add: same_pages_def)

lemma same_pages_mark:
  assumes "p + 2 ^ k \<le> length ps" "\<not> marked (ps ! p)"
  shows "same_pages ps (mark_compound p k ps)"
  unfolding mark_compound_def
  by (rule same_pages_trans [OF same_pages_upd same_pages_upd_pages]) (use assms in simp_all)

lemma same_pages_clear: "p + 2 ^ k \<le> length ps \<Longrightarrow> same_pages ps (clear_compound p k ps)"
  unfolding clear_compound_def
  by (rule same_pages_trans [OF same_pages_upd same_pages_upd_pages]) (simp_all only: same_page_simps length_list_update)

lemma zone_ok_same:
  assumes ok: "zone_ok (ps, z)" and len: "length ps' = length ps"
    and same: "\<And>i. i < length ps \<Longrightarrow> start_pfn z \<le> i \<Longrightarrow> i < end_pfn z \<Longrightarrow> same_page (ps ! i) (ps' ! i)"
  shows "zone_ok (ps', z)"
proof (rule zone_okI)
  show "areas_ok z" using zone_okD(1) [OF ok] .
next
  fix p k assume "(p, k) \<in> blocks z"
  note b = zone_okD(2) [OF ok this]
  then show "in_zone ps' z p k \<and> marked (ps' ! p) \<and> order (ps' ! p) = k"
    using same [of p] in_zone_bounds [of ps z p k] len by (auto simp: in_zone_def same_page_def)
next
  fix p assume "start_pfn z \<le> p" "p < end_pfn z" "p < length ps'" "marked (ps' ! p)"
  then show "(p, order (ps' ! p)) \<in> blocks z"
    using zone_okD(3) [OF ok, of p] same [of p] len by (auto simp: same_page_def)
next
  fix p k q j assume "(p, k) \<in> blocks z" "(q, j) \<in> blocks z" "block p k \<inter> block q j \<noteq> {}"
  then show "p = q \<and> k = j" by (rule zone_okD(4) [OF ok])
qed

subsection \<open>The invariant\<close>

definition zone_lo :: "nat \<Rightarrow> nat" where
  "zone_lo i = (if i = 0 then 0 else if i = 1 then 4096 else 1048576)"

definition zone_hi :: "pmm_state \<Rightarrow> nat \<Rightarrow> nat" where
  "zone_hi s i = (if i = 0 then 4096 else if i = 1 then 1048576 else length (page_array s))"

definition zone_of :: "nat \<Rightarrow> nat" where
  "zone_of p = (if p < 4096 then 0 else if p < 1048576 then 1 else 2)"

text \<open>The three zones have their fixed bounds and satisfy the invariant of the buddy allocator, and every
  page structure names its zone.\<close>

definition zones_ok :: "pmm_state \<Rightarrow> bool" where
  "zones_ok s \<longleftrightarrow> length (zones s) = 3 \<and> length (page_array s) \<le> 2 ^ 52 \<and>
     (\<forall>i < 3. zone_ok (page_array s, zones s ! i) \<and> start_pfn (zones s ! i) = zone_lo i \<and> end_pfn (zones s ! i) = zone_hi s i) \<and>
     (\<forall>p < length (page_array s). zone_id (page_array s ! p) = zone_of p)"

text \<open>The page array covers the low zones, or ends at a multiple of the largest block.\<close>

definition pmm_ok :: "pmm_state \<Rightarrow> bool" where
  "pmm_ok s \<longleftrightarrow> zones_ok s \<and> initialized s \<and>
     (1048576 \<le> length (page_array s) \<or> 1024 dvd length (page_array s))"

definition pavail :: "pmm_state \<Rightarrow> nat set" where
  "pavail s = (\<Union>i < 3. free_frames (zones s ! i))"

definition pregion :: "pmm_state \<Rightarrow> nat \<Rightarrow> nat \<Rightarrow> bool" where
  "pregion s p k \<longleftrightarrow> p + 2 ^ k \<le> length (page_array s) \<and> (\<exists>i < 3. zone_lo i \<le> p \<and> p + 2 ^ k \<le> zone_hi s i)"

lemma zones_okD:
  assumes "zones_ok s"
  shows "length (zones s) = 3" "length (page_array s) \<le> 2 ^ 52"
    "i < 3 \<Longrightarrow> zone_ok (page_array s, zones s ! i)"
    "i < 3 \<Longrightarrow> start_pfn (zones s ! i) = zone_lo i" "i < 3 \<Longrightarrow> end_pfn (zones s ! i) = zone_hi s i"
    "p < length (page_array s) \<Longrightarrow> zone_id (page_array s ! p) = zone_of p"
  using assms unfolding zones_ok_def by blast+

lemma pmm_mem_ok: "pmm_ok s \<Longrightarrow> i < 3 \<Longrightarrow> mem_ok (page_array s, zones s ! i)"
  unfolding pmm_ok_def mem_ok_def array_ok_def using zones_okD(3,5) [of s i]
  by (auto simp: zone_hi_def MAX_ORDER_def)

lemma zone_of_iff: "p < length (page_array s) \<Longrightarrow> i < 3 \<Longrightarrow> zone_lo i \<le> p \<and> p < zone_hi s i \<longleftrightarrow> zone_of p = i"
  by (auto simp: zone_hi_def zone_lo_def zone_of_def)

lemma free_zone:
  assumes "zone_ok (ps, z)" "p \<in> free_frames z"
  shows "start_pfn z \<le> p \<and> p < end_pfn z \<and> p < length ps"
proof -
  obtain q k where "(q, k) \<in> blocks z" "p \<in> block q k" using assms(2) by (auto simp: free_frames_def)
  then show ?thesis using zone_okD(2) [OF assms(1), of q k] by (auto simp: in_zone_def)
qed

lemma free_zone_of:
  assumes "zones_ok s" "i < 3" "p \<in> free_frames (zones s ! i)"
  shows "p < length (page_array s) \<and> zone_of p = i"
  using free_zone [OF zones_okD(3) [OF assms(1,2)] assms(3)] zones_okD(4,5) [OF assms(1,2)] zone_of_iff [of p s i] assms(2)
  by simp

text \<open>An operation of the buddy allocator on one zone.\<close>

lemma zone_update:
  assumes ok: "zones_ok s" and i: "i < 3" and z': "zone_ok (pages', z')"
    and fr: "zone_frame (page_array s, zones s ! i) (pages', z')"
  shows "zones_ok (s\<lparr>page_array := pages', zones := (zones s)[i := z']\<rparr>)"
proof -
  note f = zone_frameD [OF fr, unfolded fst_conv snd_conv]
  have "zone_ok (pages', (zones s)[i := z'] ! j) \<and> start_pfn ((zones s)[i := z'] ! j) = zone_lo j \<and>
      end_pfn ((zones s)[i := z'] ! j) = zone_hi s j" if j: "j < 3" for j
  proof (cases "j = i")
    case True
    then show ?thesis using z' f(1,2) zones_okD(1,4,5) [OF ok] j by simp
  next
    case False
    have "zone_ok (pages', zones s ! j)"
    proof (rule zone_ok_same [OF zones_okD(3) [OF ok j] f(3)])
      fix p assume p: "p < length (page_array s)" "start_pfn (zones s ! j) \<le> p" "p < end_pfn (zones s ! j)"
      then have "zone_of p = j" using zone_of_iff [OF p(1) j] zones_okD(4,5) [OF ok j] by simp
      then have "\<not> (zone_lo i \<le> p \<and> p < zone_hi s i)" using zone_of_iff [OF p(1) i] False by simp
      then have "pages' ! p = page_array s ! p" using f(6) zones_okD(4,5) [OF ok i] by (metis not_less)
      then show "same_page (page_array s ! p) (pages' ! p)" by simp
    qed
    then show ?thesis using zones_okD(4,5) [OF ok j] False by simp
  qed
  then show ?thesis using zones_okD(1,2,6) [OF ok] f(3,5) by (auto simp: zones_ok_def zone_hi_def)
qed

lemma pavail_update:
  assumes ok: "zones_ok s" and i: "i < 3" and f: "free_frames z' = free_frames (zones s ! i) - X"
    and X: "X \<subseteq> free_frames (zones s ! i)"
  shows "pavail (s\<lparr>page_array := pages', zones := (zones s)[i := z']\<rparr>) = pavail s - X"
proof -
  have "q \<notin> X" if "j < 3" "j \<noteq> i" "q \<in> free_frames (zones s ! j)" for j q
    using free_zone_of [OF ok that(1,3)] free_zone_of [OF ok i, of q] X that(2) by auto
  moreover have "(zones s)[i := z'] ! j = (if j = i then z' else zones s ! j)" for j
    using i zones_okD(1) [OF ok] by (simp add: nth_upd)
  ultimately show ?thesis using i f by (auto simp: pavail_def split: if_splits)
qed

lemma pavail_add:
  assumes ok: "zones_ok s" and i: "i < 3" and f: "free_frames z' = free_frames (zones s ! i) \<union> X"
  shows "pavail (s\<lparr>page_array := pages', zones := (zones s)[i := z']\<rparr>) = pavail s \<union> X"
proof -
  have "(zones s)[i := z'] ! j = (if j = i then z' else zones s ! j)" for j
    using i zones_okD(1) [OF ok] by (simp add: nth_upd)
  then show ?thesis using i f by (auto simp: pavail_def split: if_splits)
qed

text \<open>A change that the buddy allocator does not see.\<close>

lemma zones_ok_same: "zones_ok s \<Longrightarrow> same_pages (page_array s) pages' \<Longrightarrow> zones_ok (s\<lparr>page_array := pages'\<rparr>)"
  using zone_ok_same [of "page_array s" _ pages']
  by (auto simp: zones_ok_def same_pages_def zone_hi_def same_page_def)

lemma not_free_unmarked:
  assumes ok: "zones_ok s" and p: "p < length (page_array s)" "p \<notin> pavail s"
  shows "\<not> marked (page_array s ! p)"
proof
  assume m: "marked (page_array s ! p)"
  have i: "zone_of p < 3" by (simp add: zone_of_def)
  have "(p, order (page_array s ! p)) \<in> blocks (zones s ! zone_of p)"
    using zone_okD(3) [OF zones_okD(3) [OF ok i], of p] m p(1) zones_okD(4,5) [OF ok i] zone_of_iff [OF p(1) i] by simp
  then have "p \<in> free_frames (zones s ! zone_of p)" using block_free block_self by blast
  then show False using p(2) i by (auto simp: pavail_def)
qed

subsection \<open>Allocation and release over the zones\<close>

text \<open>The fields that allocation leaves alone.\<close>

definition pmm_frame :: "pmm_state \<Rightarrow> pmm_state \<Rightarrow> bool" where
  "pmm_frame s s' \<longleftrightarrow> length (page_array s') = length (page_array s) \<and> hhdm_offset s' = hhdm_offset s \<and>
     initialized s' = initialized s"

lemma pregion_frame: "pmm_frame s s' \<Longrightarrow> pregion s' p k = pregion s p k"
  by (simp add: pmm_frame_def pregion_def zone_hi_def)

text \<open>What an allocation gives, from the zones below \<open>n\<close>.\<close>

definition got :: "pmm_state \<Rightarrow> pmm_state \<Rightarrow> nat \<Rightarrow> nat \<Rightarrow> nat option \<Rightarrow> bool" where
  "got s s' k n r \<longleftrightarrow> pmm_ok s' \<and> pmm_frame s s' \<and>
     (case r of
        None \<Rightarrow> pavail s' = pavail s
      | Some p \<Rightarrow> k < MAX_ORDER \<and> 2 ^ k dvd p \<and> p + 2 ^ k \<le> length (page_array s) \<and>
          (\<exists>i < n. i < 3 \<and> zone_lo i \<le> p \<and> p + 2 ^ k \<le> zone_hi s i) \<and>
          block p k \<subseteq> pavail s \<and> pavail s' = pavail s - block p k)"

lemma zone_alloc_ok:
  assumes ok: "pmm_ok s" and i: "i < 3" "i < n"
  shows "\<exists>pages z r. buddy_alloc_pages (page_array s, zones s ! i) k = Some ((pages, z), r) \<and>
    got s (s\<lparr>page_array := pages, zones := (zones s)[i := z]\<rparr>) k n r \<and>
    (r = None \<longrightarrow> pages = page_array s \<and> z = zones s ! i)"
  using pmm_mem_ok [OF ok i(1)]
proof (rule alloc_cases [where k = k])
  assume "buddy_alloc_pages (page_array s, zones s ! i) k = Some ((page_array s, zones s ! i), None)"
  then show ?thesis using ok by (auto simp: got_def pmm_frame_def)
next
  have zs: "zones_ok s" using ok by (simp add: pmm_ok_def)
  fix m p assume a: "buddy_alloc_pages (page_array s, zones s ! i) k = Some (m, Some p)" "mem_ok m"
    "zone_frame (page_array s, zones s ! i) m" "k < MAX_ORDER" "2 ^ k dvd p" "covers (page_array s, zones s ! i) p k"
    "avail m = avail (page_array s, zones s ! i) - block p k" "block p k \<subseteq> avail (page_array s, zones s ! i)"
  obtain pages z where m: "m = (pages, z)" by (cases m)
  let ?s = "s\<lparr>page_array := pages, zones := (zones s)[i := z]\<rparr>"
  have len: "length pages = length (page_array s)" using zone_frameD(3) [OF a(3)] m by simp
  have "zones_ok ?s" using zone_update [OF zs i(1)] a(2,3) m by (simp add: mem_ok_def)
  then have "pmm_ok ?s" using ok len by (simp add: pmm_ok_def)
  moreover have "pavail ?s = pavail s - block p k"
    using pavail_update [OF zs i(1), of z "block p k"] a(7,8) m unfolding avail_def by simp
  moreover have "block p k \<subseteq> pavail s"
    using a(8) i(1) unfolding avail_def pavail_def snd_conv by blast
  ultimately have "got s ?s k n (Some p)"
    using a(4-6) i zones_okD(4,5) [OF zs i(1)] len unfolding got_def pmm_frame_def covers_def by auto
  then show ?thesis using a(1) m by auto
qed

lemma got_mono: "got s s' k n r \<Longrightarrow> n \<le> n' \<Longrightarrow> got s s' k n' r"
  by (auto simp: got_def split: option.splits dest: order.strict_trans2)

lemma try_zones_ok:
  assumes "pmm_ok s" "n \<le> 3"
  shows "\<exists>s' r. try_zones s k n = Some (s', r) \<and> got s s' k n r \<and> phys_mem s' = phys_mem s"
  using assms(2)
proof (induction n)
  case 0
  then show ?case using assms(1) by (simp add: got_def pmm_frame_def)
next
  case (Suc i)
  then obtain s' r where IH: "try_zones s k i = Some (s', r)" "got s s' k (Suc i) r" "phys_mem s' = phys_mem s"
    using got_mono [of s _ k i _ "Suc i"] by auto
  show ?case
  proof (cases "free_pages (zones s ! i) < push_bit k 1")
    case False
    from zone_alloc_ok [OF assms(1), of i "Suc i" k] Suc.prems
    obtain pages z q where a: "buddy_alloc_pages (page_array s, zones s ! i) k = Some ((pages, z), q)"
      "got s (s\<lparr>page_array := pages, zones := (zones s)[i := z]\<rparr>) k (Suc i) q"
      "q = None \<longrightarrow> pages = page_array s \<and> z = zones s ! i" by auto
    show ?thesis
    proof (cases q)
      case None
      then have "s\<lparr>page_array := pages, zones := (zones s)[i := z]\<rparr> = s" using a(3) by simp
      then show ?thesis using False a(1) None IH by simp
    qed (use False a in simp)
  qed (use IH in simp)
qed

text \<open>The finishing touches on an allocated block.\<close>

lemma got_finish:
  assumes "got s s' k n (Some p)" "same_pages (page_array s') pages'"
  shows "got s (s'\<lparr>page_array := pages', phys_mem := m\<rparr>) k n (Some p)"
proof -
  have "zones_ok (s'\<lparr>page_array := pages'\<rparr>)" using assms zones_ok_same by (simp add: got_def pmm_ok_def)
  moreover have "zones_ok (s'\<lparr>page_array := pages', phys_mem := m\<rparr>) = zones_ok (s'\<lparr>page_array := pages'\<rparr>)" for m
    by (simp add: zones_ok_def zone_hi_def)
  ultimately show ?thesis using assms by (auto simp: got_def pmm_ok_def pmm_frame_def same_pages_def pavail_def)
qed

lemma got_unmarked:
  assumes "got s s' k n (Some p)"
  shows "p < length (page_array s') \<and> \<not> marked (page_array s' ! p)"
proof -
  have "p + 2 ^ k \<le> length (page_array s')" "p \<in> block p k" "pavail s' = pavail s - block p k"
    using assms by (auto simp: got_def pmm_frame_def)
  moreover have "(0 :: nat) < 2 ^ k" by simp
  ultimately have "p < length (page_array s')" "p \<notin> pavail s'" by (linarith, blast)
  then show ?thesis using not_free_unmarked [of s' p] assms by (simp add: got_def pmm_ok_def)
qed

lemma got_region: "got s s' k n (Some p) \<Longrightarrow> pregion s' p k"
  using pregion_frame [of s s' p k] unfolding got_def option.case pregion_def [of s] by blast

lemma start_zone_le: "start_zone g < 3"
  by (simp add: start_zone_def zone_const)

lemma alloc_pages_ok:
  assumes ok: "pmm_ok s"
  shows "\<exists>s' r. alloc_pages s k g = Some (s', r) \<and> got s s' k (Suc (start_zone g)) r \<and>
    phys_mem s' = (case r of Some p \<Rightarrow> if g AND GFP_ZERO \<noteq> 0 then zero_block p k (phys_mem s) else phys_mem s | None \<Rightarrow> phys_mem s)"
proof -
  obtain s1 r where 1: "try_zones s k (Suc (start_zone g)) = Some (s1, r)" "got s s1 k (Suc (start_zone g)) r"
    "phys_mem s1 = phys_mem s" using try_zones_ok [OF ok] start_zone_le [of g] by (meson Suc_leI)
  have init: "initialized s" using ok by (simp add: pmm_ok_def)
  show ?thesis
  proof (cases r)
    case None
    then show ?thesis using 1 init by (simp add: alloc_pages_def)
  next
    case (Some p)
    note u = got_unmarked [OF 1(2) [unfolded Some]]
    have len: "\<not> p + 2 ^ k > length (page_array s1)" using 1(2) Some by (simp add: got_def pmm_frame_def)
    define pages1 where "pages1 = (page_array s1)[p := page_clear_flag (page_array s1 ! p) PG_BUDDY]"
    define pages2 where "pages2 = (if g AND GFP_KERNEL \<noteq> 0 then pages1[p := page_set_flag (pages1 ! p) PG_KERNEL] else pages1)"
    define pages3 where "pages3 = (if k > 0 then mark_compound p k pages2 else pages2)"
    have s1: "same_pages (page_array s1) pages1" unfolding pages1_def using u by (intro same_pages_upd) simp
    have s2: "same_pages pages1 pages2" unfolding pages2_def by (simp add: same_pages_upd)
    have s12: "same_pages (page_array s1) pages2" using same_pages_trans [OF s1 s2] .
    then have "length pages2 = length (page_array s1)" "\<not> marked (pages2 ! p)"
      using u by (auto simp: same_pages_def same_page_def)
    then have "same_pages pages2 pages3" unfolding pages3_def using len same_pages_mark [of p k pages2] by simp
    with s12 have s3: "same_pages (page_array s1) pages3" by (rule same_pages_trans)
    have "alloc_pages s k g = Some (s1\<lparr>page_array := pages3,
        phys_mem := (if g AND GFP_ZERO \<noteq> 0 then zero_block p k (phys_mem s1) else phys_mem s1)\<rparr>, Some p)"
      using init 1(1) Some len unfolding alloc_pages_def pages3_def pages2_def pages1_def by (simp add: Let_def)
    then show ?thesis using got_finish [OF 1(2) [unfolded Some] s3] 1(3) Some by simp
  qed
qed

lemma alloc_pages_zone_ok:
  assumes ok: "pmm_ok s"
  shows "\<exists>s' r. alloc_pages_zone s zi k g = Some (s', r) \<and> got s s' k 3 r"
proof (cases "zi < 3")
  case False
  then show ?thesis using ok by (simp add: alloc_pages_zone_def MAX_ZONES_def got_def pmm_frame_def)
next
  case True
  from zone_alloc_ok [OF ok True True, of k]
  obtain pages z r where a: "buddy_alloc_pages (page_array s, zones s ! zi) k = Some ((pages, z), r)"
    "got s (s\<lparr>page_array := pages, zones := (zones s)[zi := z]\<rparr>) k 3 r" by blast
  show ?thesis
  proof (cases r)
    case None
    then show ?thesis using a True by (simp add: alloc_pages_zone_def MAX_ZONES_def)
  next
    case (Some p)
    note u = got_unmarked [OF a(2) [unfolded Some]]
    have "same_pages pages (pages[p := page_clear_flag (pages ! p) PG_BUDDY])" using u by (intro same_pages_upd) simp
    then show ?thesis
      using a True u Some got_finish [OF a(2) [unfolded Some], of "pages[p := page_clear_flag (pages ! p) PG_BUDDY]"]
      by (simp add: alloc_pages_zone_def MAX_ZONES_def Let_def)
  qed
qed

lemma free_pages_ok:
  assumes ok: "pmm_ok s" and k: "k < MAX_ORDER" and p: "2 ^ k dvd p" "pregion s p k" and d: "block p k \<inter> pavail s = {}"
  shows "\<exists>s'. free_pages_pmm s (Some p) k = Some s' \<and> pmm_ok s' \<and> pavail s' = pavail s \<union> block p k \<and> pmm_frame s s'"
proof -
  have zs: "zones_ok s" and init: "initialized s" using ok by (simp_all add: pmm_ok_def)
  obtain i where i: "i < 3" "zone_lo i \<le> p" "p + 2 ^ k \<le> zone_hi s i" and len: "p + 2 ^ k \<le> length (page_array s)"
    using p(2) by (auto simp: pregion_def)
  have "(0::nat) < 2 ^ k" by simp
  then have plen: "p < length (page_array s)" "p < zone_hi s i" using len i(3) by linarith+
  have zi: "zone_id (page_array s ! p) = i" using zones_okD(6) [OF zs plen(1)] zone_of_iff [OF plen(1) i(1)] i(2) plen(2) by simp
  define pages1 where "pages1 = (if k > 0 then clear_compound p k (page_array s) else page_array s)"
  define pages2 where "pages2 = pages1[p := page_clear_flag (pages1 ! p) PG_KERNEL]"
  have same: "same_pages (page_array s) pages2"
    unfolding pages2_def by (rule same_pages_trans [of _ pages1]) (use len in \<open>simp_all add: pages1_def same_pages_clear same_pages_upd\<close>)
  let ?s = "s\<lparr>page_array := pages2\<rparr>"
  have len2: "length pages2 = length (page_array s)" using same by (simp add: same_pages_def)
  have zs2: "zones_ok ?s" using zones_ok_same [OF zs same] .
  then have ok2: "pmm_ok ?s" using ok len2 by (simp add: pmm_ok_def)
  have iz: "in_zone pages2 (zones s ! i) p k"
    using i len p(1) len2 zones_okD(4,5) [OF zs i(1)] by (simp add: in_zone_def)
  have dis: "block p k \<inter> free_frames (zones s ! i) = {}" using d i(1) by (auto simp: pavail_def)
  have m: "zone_ok (pages2, zones s ! i)" "array_ok pages2 (zones s ! i)"
    using pmm_mem_ok [OF ok2 i(1)] by (simp_all add: mem_ok_def)
  from free_ok [OF m(1) k iz dis m(2)]
  obtain pages3 z where f: "buddy_free_pages (pages2, zones s ! i) p k = Some (pages3, z)" "zone_ok (pages3, z)"
    "zone_frame (pages2, zones s ! i) (pages3, z)" "free_frames z = free_frames (zones s ! i) \<union> block p k" by blast
  let ?s' = "s\<lparr>page_array := pages3, zones := (zones s)[i := z]\<rparr>"
  have "zones_ok ?s'" using zone_update [OF zs2 i(1) f(2)] f(3) by simp
  moreover have l3: "length pages3 = length (page_array s)" using zone_frameD(3) [OF f(3)] len2 by simp
  ultimately have "pmm_ok ?s'" using ok by (simp add: pmm_ok_def)
  moreover have "pavail ?s' = pavail s \<union> block p k" using pavail_add [OF zs i(1) f(4)] .
  moreover have "free_pages_pmm s (Some p) k = Some ?s'"
    using init len zi i(1) f(1) unfolding free_pages_pmm_def pages2_def pages1_def
    by (simp add: Let_def MAX_ZONES_def)
  ultimately show ?thesis using l3 by (simp add: pmm_frame_def)
qed

text \<open>The memory manager as a page allocator: a request goes to \<^verbatim>\<open>alloc_pages\<close> or to
  \<^verbatim>\<open>alloc_pages_zone\<close>.\<close>

datatype pmm_request = Any_zone u32 | One_zone nat u32

fun pmm_alloc :: "pmm_state \<Rightarrow> pmm_request \<Rightarrow> nat \<Rightarrow> (pmm_state \<times> nat option) option" where
  "pmm_alloc s (Any_zone g) k = alloc_pages s k g"
| "pmm_alloc s (One_zone zi g) k = alloc_pages_zone s zi k g"

abbreviation pmm_free :: "pmm_state \<Rightarrow> nat \<Rightarrow> nat \<Rightarrow> pmm_state option" where
  "pmm_free s p k \<equiv> free_pages_pmm s (Some p) k"

lemma pmm_alloc_ok: "pmm_ok s \<Longrightarrow> \<exists>s' r. pmm_alloc s g k = Some (s', r) \<and> got s s' k 3 r"
proof (cases g)
  case (Any_zone f)
  assume "pmm_ok s"
  then show ?thesis
    using alloc_pages_ok [of s k f] got_mono [of s _ k "Suc (start_zone f)" _ 3] start_zone_le [of f] Any_zone by fastforce
qed (use alloc_pages_zone_ok in simp)

interpretation phys_pages: page_allocator pmm_ok pavail pregion pmm_alloc pmm_free MAX_ORDER
proof
  fix s :: pmm_state and g k s' r p
  assume ok: "pmm_ok s"
  note a = pmm_alloc_ok [OF ok, of g k]
  show "\<exists>s' r. pmm_alloc s g k = Some (s', r)" using a by blast
  show "pmm_alloc s g k = Some (s', r) \<Longrightarrow> pmm_ok s'" using a by (auto simp: got_def)
  show "pmm_alloc s g k = Some (s', r) \<Longrightarrow> pregion s' p j = pregion s p j" for j
    using a by (auto simp: got_def pregion_frame)
  show "pmm_alloc s g k = Some (s', None) \<Longrightarrow> pavail s' = pavail s" using a by (auto simp: got_def)
  show "pmm_alloc s g k = Some (s', Some p) \<Longrightarrow> k < MAX_ORDER \<and> 2 ^ k dvd p \<and> pregion s p k \<and>
      block p k \<subseteq> pavail s \<and> pavail s' = pavail s - block p k"
    using a unfolding got_def pregion_def by auto
next
  fix s k p
  assume "pmm_ok s" "k < MAX_ORDER" "2 ^ k dvd p" "pregion s p k" "block p k \<inter> pavail s = {}"
  from free_pages_ok [OF this]
  show "\<exists>s'. pmm_free s p k = Some s' \<and> pmm_ok s' \<and> pavail s' = pavail s \<union> block p k \<and>
      (\<forall>q j. pregion s' q j = pregion s q j)" using pregion_frame by blast
qed

subsection \<open>Adding the usable memory\<close>

lemma unat_u64_of_nat: "n < 2 ^ 64 \<Longrightarrow> unat (of_nat n :: u64) = n"
  by (simp add: unsigned_of_nat take_bit_eq_mod)

lemma unat_PFN_TO_PHYS: "p < 2 ^ 52 \<Longrightarrow> unat (PFN_TO_PHYS p) = p * 4096"
proof -
  assume "p < 2 ^ 52"
  then have "p * 4096 < 2 ^ 64" by simp
  moreover have "PFN_TO_PHYS p = of_nat (p * 4096)" by (simp add: PFN_TO_PHYS_def PAGE_SHIFT_def push_bit_eq_mult)
  ultimately show ?thesis by (simp only: unat_u64_of_nat)
qed

lemma zone_type: "p < 2 ^ 52 \<Longrightarrow> pfn_to_zone_type p = zone_of p"
  using unat_PFN_TO_PHYS [of p] by (simp add: pfn_to_zone_type_def zone_of_def zone_const word_less_nat_alt)

abbreviation unreserved :: "pmm_state \<Rightarrow> nat \<Rightarrow> bool" where
  "unreserved s p \<equiv> flags (page_array s ! p) AND PG_RESERVED = 0"

lemma add_area_reserved:
  assumes "add_to_free_area m p k = Some m'"
  shows "flags (fst m' ! i) AND PG_RESERVED = flags (fst m ! i) AND PG_RESERVED"
proof -
  have "(f OR PG_BUDDY) AND PG_RESERVED = f AND PG_RESERVED" for f :: u32
    by (simp add: PG_BUDDY_def PG_RESERVED_def and_one_eq mod_2_eq_odd even_or_iff)
  then show ?thesis using assms
    by (auto simp: add_to_free_area_def page_set_flag_def nth_upd split: prod.splits if_splits)
qed

lemma add_loop_reserved:
  assumes "buddy_add_loop m p e = Some m'"
  shows "flags (fst m' ! i) AND PG_RESERVED = flags (fst m ! i) AND PG_RESERVED"
  using assms
proof (induction "e - p" arbitrary: m p rule: less_induct)
  case less
  show ?case
  proof (cases "p < e")
    case True
    with less.prems obtain m1 where m1: "add_to_free_area m p (add_order p e) = Some m1"
      "buddy_add_loop (add_free_pages m1 (2 ^ add_order p e)) (p + 2 ^ add_order p e) e = Some m'"
      by (subst (asm) buddy_add_loop.simps) (auto simp: Let_def elim: bind_eq_SomeE)
    have "e - (p + 2 ^ add_order p e) < e - p" using True by (simp add: diff_less_mono2)
    from less.hyps [OF this m1(2)] add_area_reserved [OF m1(1)] show ?thesis
      by (simp add: add_free_pages_def split: prod.splits)
  qed (use less.prems in \<open>simp add: buddy_add_loop.simps\<close>)
qed

text \<open>The counter of each zone is the number of its free frames.\<close>

definition counted :: "pmm_state \<Rightarrow> bool" where
  "counted s \<longleftrightarrow> (\<forall>i < 3. free_pages (zones s ! i) = of_nat (card (free_frames (zones s ! i))))"

lemma finite_free: "zone_ok (ps, z) \<Longrightarrow> finite (free_frames z)"
  by (rule finite_subset [of _ "{..<length ps}"]) (use free_zone in auto)

definition run_ok :: "pmm_state \<Rightarrow> nat \<Rightarrow> nat \<Rightarrow> nat \<Rightarrow> bool" where
  "run_ok s rs rl cz \<longleftrightarrow> cz < 3 \<and> rs + rl \<le> length (page_array s) \<and> {rs..<rs + rl} \<inter> pavail s = {} \<and>
     (\<forall>p \<in> {rs..<rs + rl}. zone_of p = cz)"

lemma run_bounds:
  assumes "run_ok s rs rl cz" "rl > 0"
  shows "zone_lo cz \<le> rs" "rs + rl \<le> zone_hi s cz"
proof -
  have "rs + rl - 1 < length (page_array s)" "zone_of (rs + rl - 1) = cz" "zone_of rs = cz" "rs < length (page_array s)" "cz < 3"
    using assms by (auto simp: run_ok_def)
  then show "zone_lo cz \<le> rs" "rs + rl \<le> zone_hi s cz"
    using zone_of_iff [of rs s cz] zone_of_iff [of "rs + rl - 1" s cz] assms(2) by (blast, linarith)
qed

lemma zones_ok_present:
  assumes "zones_ok (s\<lparr>page_array := pages, zones := (zones s)[i := z]\<rparr>)"
  shows "zones_ok (s\<lparr>page_array := pages, zones := (zones s)[i := z\<lparr>present_pages := x\<rparr>]\<rparr>)"
proof -
  have "zone_ok (pages, (zones s)[i := z\<lparr>present_pages := x\<rparr>] ! j) = zone_ok (pages, (zones s)[i := z] ! j)"
    "start_pfn ((zones s)[i := z\<lparr>present_pages := x\<rparr>] ! j) = start_pfn ((zones s)[i := z] ! j)"
    "end_pfn ((zones s)[i := z\<lparr>present_pages := x\<rparr>] ! j) = end_pfn ((zones s)[i := z] ! j)" for j
    by (simp_all add: nth_upd)
  then show ?thesis using assms by (simp add: zones_ok_def zone_hi_def)
qed

lemma end_run_ok:
  assumes ok: "zones_ok s" "counted s" and run: "run_ok s rs rl cz"
  shows "\<exists>s'. end_run s cz rs rl = Some s' \<and> zones_ok s' \<and> counted s' \<and> pavail s' = pavail s \<union> {rs..<rs + rl} \<and>
    s' = s\<lparr>page_array := page_array s', zones := zones s'\<rparr> \<and> length (page_array s') = length (page_array s) \<and>
    (\<forall>p. unreserved s' p = unreserved s p)"
proof (cases "rl > 0")
  case False
  then show ?thesis using ok by (simp add: end_run_def)
next
  case True
  have cz: "cz < 3" using run by (simp add: run_ok_def)
  let ?z = "zones s ! cz"
  note zo = zones_okD(3) [OF ok(1) cz] and zb = zones_okD(4,5) [OF ok(1) cz] and b = run_bounds [OF run True]
  have dis: "{rs..<rs + rl} \<inter> free_frames ?z = {}" using run cz by (auto simp: run_ok_def pavail_def)
  have "start_pfn ?z \<le> rs" "rs + rl \<le> end_pfn ?z" "rs + rl \<le> length (page_array s)" "rs \<le> rs + rl"
    using zb b run by (simp_all add: run_ok_def)
  from add_loop_ok [OF zo this(1-3) dis this(4)] obtain pages z where
    a: "buddy_add_loop (page_array s, ?z) rs (rs + rl) = Some (pages, z)" "zone_ok (pages, z)"
    "zone_frame (page_array s, ?z) (pages, z)" "free_frames z = free_frames ?z \<union> {rs..<rs + rl}"
    "free_pages z = free_pages ?z + of_nat rl" by auto
  let ?z' = "z\<lparr>present_pages := present_pages z + of_nat rl\<rparr>"
  let ?s' = "s\<lparr>page_array := pages, zones := (zones s)[cz := ?z']\<rparr>"
  have z': "zone_ok (pages, ?z')" "free_frames ?z' = free_frames ?z \<union> {rs..<rs + rl}"
    using a(2,4) by simp_all
  have zs: "zones_ok ?s'" using zones_ok_present [OF zone_update [OF ok(1) cz a(2,3)]] .
  have "card (free_frames ?z') = card (free_frames ?z) + rl"
    unfolding z'(2) using dis finite_free [OF zo] by (subst card_Un_disjoint) auto
  then have "counted ?s'"
    using ok(2) a(5) cz zones_okD(1) [OF ok(1)] by (auto simp: counted_def nth_upd)
  moreover have "unreserved ?s' p = unreserved s p" for p using add_loop_reserved [OF a(1), of p] by simp
  moreover have "pavail ?s' = pavail s \<union> {rs..<rs + rl}" using pavail_add [OF ok(1) cz z'(2)] .
  moreover have "end_run s cz rs rl = Some ?s'" using True a(1) by (simp add: end_run_def buddy_add_pages_def)
  moreover have "length pages = length (page_array s)" using zone_frameD(3) [OF a(3)] by simp
  ultimately show ?thesis using zs by (intro exI [of _ ?s']) simp
qed

lemma add_usable_ok:
  assumes "zones_ok s" "counted s" "run_ok s rs rl cz" "rl > 0 \<Longrightarrow> rs + rl = a" "a \<le> length (page_array s)"
    "pavail s \<union> {rs..<rs + rl} = {p. p < a \<and> unreserved s p}"
  shows "\<exists>s'. add_usable_loop [a..<length (page_array s)] s rs rl cz = Some s' \<and> zones_ok s' \<and> counted s' \<and>
    pavail s' = {p. p < length (page_array s) \<and> unreserved s p} \<and>
    s' = s\<lparr>page_array := page_array s', zones := zones s'\<rparr> \<and> length (page_array s') = length (page_array s)"
  using assms
proof (induction "length (page_array s) - a" arbitrary: s rs rl cz a)
  case 0
  then have "[a..<length (page_array s)] = []" "a = length (page_array s)" by simp_all
  then show ?case using end_run_ok [OF 0(2-4)] 0(7) by auto
next
  case (Suc n)
  let ?len = "length (page_array s)"
  have a: "a < ?len" "[a..<?len] = a # [Suc a..<?len]" "n = ?len - Suc a"
    using Suc.hyps(2) by (auto simp: upt_conv_Cons)
  have za: "pfn_to_zone_type a = zone_of a" using zone_type a(1) zones_okD(2) [OF Suc.prems(1)] by simp
  have lt: "{p. p < Suc a \<and> unreserved s p} = {p. p < a \<and> unreserved s p} \<union> (if unreserved s a then {a} else {})"
    by (auto simp: less_Suc_eq)
  have na: "a \<notin> pavail s" using Suc.prems(6) by auto
  have cz: "cz < 3" using Suc.prems(3) by (simp add: run_ok_def)
  show ?case
  proof (cases "unreserved s a \<and> zone_of a = cz")
    case True
    let ?rs = "if rl = 0 then a else rs"
    have i: "{?rs..<?rs + (rl + 1)} = insert a {rs..<rs + rl}" using Suc.prems(4) by auto
    have "run_ok s ?rs (rl + 1) cz" using Suc.prems(3,4) True na a(1) unfolding run_ok_def i by auto
    from Suc.hyps(1) [OF a(3) Suc.prems(1,2) this] Suc.prems(4-6) True a(1,2) lt i za show ?thesis by (auto simp: Let_def)
  next
    case False
    obtain s1 where e: "end_run s cz rs rl = Some s1" "zones_ok s1" "counted s1" "pavail s1 = pavail s \<union> {rs..<rs + rl}"
      "s1 = s\<lparr>page_array := page_array s1, zones := zones s1\<rparr>" "length (page_array s1) = ?len"
      "\<And>p. unreserved s1 p = unreserved s p" using end_run_ok [OF Suc.prems(1-3)] by blast
    have n1: "n = length (page_array s1) - Suc a" using e(6) a(3) by simp
    have p1: "pavail s1 = {p. p < a \<and> unreserved s1 p}" using e(4,7) Suc.prems(6) by simp
    have comp: "s' = s\<lparr>page_array := page_array s', zones := zones s'\<rparr>" if "s' = s1\<lparr>page_array := page_array s', zones := zones s'\<rparr>" for s'
      by (subst that, subst e(5)) simp
    let ?rl = "if unreserved s a then 1 else 0 :: nat" and ?rs = "if unreserved s a then a else rs"
      and ?cz = "if unreserved s a then zone_of a else cz"
    have run: "run_ok s1 ?rs ?rl ?cz"
      using a(1) e(6) p1 Suc.prems(3) by (auto simp: run_ok_def zone_of_def)
    have pv: "pavail s1 \<union> {?rs..<?rs + ?rl} = {p. p < Suc a \<and> unreserved s1 p}"
      unfolding p1 using e(7) [of a] by (auto simp: less_Suc_eq)
    have rr: "?rs + ?rl = Suc a" if "?rl > 0" using that by (auto split: if_splits)
    have ll: "Suc a \<le> length (page_array s1)" using a(1) e(6) by simp
    have "\<exists>s'. add_usable_loop [Suc a..<?len] s1 ?rs ?rl ?cz = Some s' \<and> zones_ok s' \<and> counted s' \<and>
      pavail s' = {p. p < ?len \<and> unreserved s p} \<and> s' = s1\<lparr>page_array := page_array s', zones := zones s'\<rparr> \<and>
      length (page_array s') = ?len" using Suc.hyps(1) [OF n1 e(2,3) run rr ll pv] unfolding e(6,7) .
    then show ?thesis using False a(2) za e(1) comp by (auto simp: Let_def)
  qed
qed

subsection \<open>Set up from the memory map\<close>

definition usable_entry :: "memmap_entry \<Rightarrow> bool" where
  "usable_entry e \<longleftrightarrow> type e = LIMINE_MEMMAP_USABLE \<or> type e = LIMINE_MEMMAP_BOOTLOADER_RECLAIMABLE"

lemma scan_fold:
  assumes "fold scan_entry es (m, b, n) = (M, B, N)"
  shows "m \<le> M \<and> (\<forall>e \<in> set es. usable_entry e \<longrightarrow> base e + length_of e \<le> M) \<and>
    (M = m \<or> (\<exists>e \<in> set es. M = base e + length_of e)) \<and>
    (B = b \<and> N = n \<or> (\<exists>e \<in> set es. B = base e \<and> N = length_of e))"
  using assms
proof (induction es arbitrary: m b n)
  case (Cons x es)
  obtain m1 b1 n1 where x: "scan_entry x (m, b, n) = (m1, b1, n1)" by (metis prod_cases3)
  then have "fold scan_entry es (m1, b1, n1) = (M, B, N)" using Cons.prems by simp
  note IH = Cons.IH [OF this]
  have s: "m \<le> m1" "usable_entry x \<Longrightarrow> base x + length_of x \<le> m1" "m1 = m \<or> m1 = base x + length_of x"
    "b1 = b \<and> n1 = n \<or> b1 = base x \<and> n1 = length_of x"
    using x by (auto simp: scan_entry_def usable_entry_def split: if_splits)
  then show ?case using IH by (auto intro: order_trans)
qed auto

lemma unat_add_u64: "unat a + unat b < 2 ^ 64 \<Longrightarrow> unat (a + b :: u64) = unat a + unat b"
  by (simp add: unat_word_ariths)

lemma mark_entries:
  assumes "bm_ok b" "\<And>e. e \<in> set es \<Longrightarrow> unat (base e) + unat (length_of e) < 2 ^ 46"
  shows "bm_ok (fold mark_entry es b) \<and> tracked (fold mark_entry es b) = tracked b \<and>
    usable (fold mark_entry es b) = usable b \<union> {p. tracked b p \<and> (\<exists>e \<in> set es. usable_entry e \<and>
      unat (base e) \<le> p * 4096 \<and> (p + 1) * 4096 \<le> unat (base e) + unat (length_of e))}"
  using assms
proof (induction es arbitrary: b)
  case (Cons x es)
  have l: "unat (base x) + unat (length_of x) < 2 ^ 46" using Cons.prems(2) by simp
  have u: "unat (base x + length_of x) = unat (base x) + unat (length_of x)" using l by (intro unat_add_u64) simp
  let ?b = "mark_entry x b"
  have b: "bm_ok ?b" "tracked ?b = tracked b"
    "usable ?b = usable b \<union> {p. tracked b p \<and> usable_entry x \<and>
      unat (base x) \<le> p * 4096 \<and> (p + 1) * 4096 \<le> unat (base x) + unat (length_of x)}"
    using mark_ok(1,2) [OF Cons.prems(1)] usable_mark(1) [OF Cons.prems(1), of "base x" "base x + length_of x"] u l Cons.prems(1)
    unfolding mark_entry_def usable_entry_def [symmetric] by auto
  from Cons.IH [OF b(1)] Cons.prems(2) b(2,3) show ?case by auto
qed auto

lemma PFN_word: "PHYS_TO_PFN a = unat a div 4096"
  by (simp add: PHYS_TO_PFN_def PAGE_SHIFT_def drop_bit_eq_div unat_div)

lemma unat_mult_u64: "unat a * unat b < 2 ^ 64 \<Longrightarrow> unat (a * b :: u64) = unat a * unat b"
  by (simp add: unat_word_ariths)

lemma unat_PAGE_SIZE: "unat PAGE_SIZE = 4096"
  by (simp add: ocean_const)

lemma unat_PAGE_ALIGN: "unat x + 4095 < 2 ^ 64 \<Longrightarrow> unat (PAGE_ALIGN x) = (unat x + 4095) div 4096 * 4096"
  using ALIGN_UP_pow2 [of 12 x] by (simp add: ocean_const)

lemma boot_alloc_ok:
  assumes "unat (ba_current (boot_alloc s)) + 4096 + unat nr * 4096 \<le> unat (ba_end (boot_alloc s))"
  shows "\<exists>A c. boot_alloc_pages s nr = (s\<lparr>boot_alloc := (boot_alloc s)\<lparr>ba_current := c\<rparr>\<rparr>, A + hhdm_offset s) \<and>
    unat A = (unat (ba_current (boot_alloc s)) + 4095) div 4096 * 4096 \<and> unat c = unat A + unat nr * 4096"
proof -
  let ?A = "PAGE_ALIGN (ba_current (boot_alloc s))" and ?n = "nr * PAGE_SIZE"
  have lt: "unat (ba_end (boot_alloc s)) < 2 ^ 64" by (rule unat_u64_less)
  have A: "unat ?A = (unat (ba_current (boot_alloc s)) + 4095) div 4096 * 4096"
    using assms lt by (intro unat_PAGE_ALIGN) linarith
  have n: "unat ?n = unat nr * 4096" using assms lt by (subst unat_mult_u64) (simp_all add: unat_PAGE_SIZE)
  have le: "unat ?A + unat ?n \<le> unat (ba_end (boot_alloc s))"
    using assms div_mult_mod_eq [of "unat (ba_current (boot_alloc s)) + 4095" 4096] unfolding A n by linarith
  then have c: "unat (?A + ?n) = unat ?A + unat ?n" using lt by (intro unat_add_u64) linarith
  then have "\<not> ?A + ?n > ba_end (boot_alloc s)" using le by (simp add: word_less_nat_alt)
  then show ?thesis using A c n by (intro exI [of _ ?A] exI [of _ "?A + ?n"]) (simp add: boot_alloc_pages_def Let_def phys_to_virt_def)
qed

lemma mark_pages_ok:
  assumes "distinct pfns" "\<And>p. p \<in> set pfns \<Longrightarrow> p < length (page_array s)"
  shows "\<exists>s'. mark_pages pfns s = Some s' \<and> length (page_array s') = length (page_array s) \<and>
    (\<forall>i. page_array s' ! i = (if i \<in> set pfns \<and> i \<in> usable (bitmap s) then page_clear_flag (page_array s ! i) PG_RESERVED
       else page_array s ! i)) \<and>
    boot_alloc s' = boot_alloc s \<and> hhdm_offset s' = hhdm_offset s \<and> page_array_addr s' = page_array_addr s \<and> bitmap s' = bitmap s"
  using assms
proof (induction pfns arbitrary: s)
  case (Cons p ps)
  obtain s1 where s1: "mark_page p s = Some s1" "length (page_array s1) = length (page_array s)"
    "page_array s1 = (if p \<in> usable (bitmap s) then (page_array s)[p := page_clear_flag (page_array s ! p) PG_RESERVED] else page_array s)"
    "boot_alloc s1 = boot_alloc s" "hhdm_offset s1 = hhdm_offset s" "page_array_addr s1 = page_array_addr s" "bitmap s1 = bitmap s"
    by (rule that [of "the (mark_page p s)"]) (use Cons.prems(2) [of p] in \<open>simp_all add: mark_page_def usable_def\<close>)
  have "\<exists>s'. mark_pages ps s1 = Some s' \<and> length (page_array s') = length (page_array s1) \<and>
    (\<forall>i. page_array s' ! i = (if i \<in> set ps \<and> i \<in> usable (bitmap s1) then page_clear_flag (page_array s1 ! i) PG_RESERVED
       else page_array s1 ! i)) \<and>
    boot_alloc s' = boot_alloc s1 \<and> hhdm_offset s' = hhdm_offset s1 \<and> page_array_addr s' = page_array_addr s1 \<and> bitmap s' = bitmap s1"
    using Cons.prems s1(2) by (intro Cons.IH) auto
  then show ?case using s1 Cons.prems by (auto simp: nth_upd)
qed simp

lemma init_zones_ok:
  assumes len: "length (page_array s) \<le> 2 ^ 52"
    and pg: "\<And>p. p < length (page_array s) \<Longrightarrow> \<not> marked (page_array s ! p) \<and> zone_id (page_array s ! p) = zone_of p"
  shows "zones_ok (init_zones s)" "pavail (init_zones s) = {}" "counted (init_zones s)"
proof -
  let ?z = "\<lparr>start_pfn = 0, end_pfn = 0, present_pages = 0, free_pages = 0, free_areas = [], alloc_count = 0, free_count = 0\<rparr>"
  have e: "PHYS_TO_PFN ZONE_DMA_END = 4096" "PHYS_TO_PFN ZONE_DMA32_END = 1048576" by (simp_all add: PFN_word zone_const)
  define zs where "zs = (\<lambda>i. buddy_init_zone (?z\<lparr>start_pfn := zone_lo i, end_pfn := zone_hi s i\<rparr>))"
  have zs: "zones (init_zones s) = map zs [0..<3]" "page_array (init_zones s) = page_array s"
    by (simp_all add: init_zones_def zs_def e zone_lo_def zone_hi_def upt_rec buddy_init_zone_def)
  have nz: "map zs [0..<3] ! i = zs i" if "i < 3" for i using that by simp
  have i: "zone_ok (page_array s, zs i)" "free_frames (zs i) = {}" for i
    unfolding zs_def using pg by (intro init_zone_ok; blast)+
  have f: "start_pfn (zs i) = zone_lo i" "end_pfn (zs i) = zone_hi s i" "free_pages (zs i) = 0" for i
    by (simp_all add: zs_def buddy_init_zone_def)
  show "zones_ok (init_zones s)"
    unfolding zones_ok_def zs using len pg i(1) f nz by (auto simp: zone_hi_def zs(2))
  show "pavail (init_zones s) = {}" unfolding pavail_def zs using nz i(2) by simp
  show "counted (init_zones s)" unfolding counted_def zs using nz i(2) f(3) by simp
qed

text \<open>
  What the set up relies on: regions lie in the low 64 TiB; the page array
  ends at a multiple of the largest block or covers the two low zones; the largest usable region
  holds the bitmap and the page array with room for the rounding; and the direct map is in the
  upper half of the address space.
\<close>

definition memmap_ok :: "boot_info \<Rightarrow> bool" where
  "memmap_ok bi \<longleftrightarrow> (\<forall>e \<in> set (memmap bi). unat (base e) + unat (length_of e) < 2 ^ 46) \<and>
     0 < boot_hhdm bi \<and> unat (boot_hhdm bi) + 2 ^ 46 \<le> 2 ^ 64 \<and>
     (case fold scan_entry (memmap bi) (0, 0, 0) of (max_addr, b, n) \<Rightarrow>
        let max_pfn = unat max_addr div 4096
        in (1048576 \<le> max_pfn \<or> 1024 dvd max_pfn) \<and>
           mem_bitmap_size_for max_pfn + 64 * max_pfn + 4 * 4096 \<le> unat n)"

text \<open>The state in which the boot allocator has been used up to \<open>c\<close>.\<close>

definition boot_at :: "pmm_state \<Rightarrow> boot_info \<Rightarrow> u64 \<Rightarrow> u64 \<Rightarrow> u64 \<Rightarrow> pmm_state" where
  "boot_at s bi b n c = s\<lparr>hhdm_offset := boot_hhdm bi, boot_alloc := \<lparr>ba_base = b, ba_current = c, ba_end = b + n\<rparr>\<rparr>"

lemma boot_at_alloc:
  assumes h: "0 < boot_hhdm bi" "unat (boot_hhdm bi) + 2 ^ 46 \<le> 2 ^ 64"
    and e: "unat b + unat n < 2 ^ 46" and nr: "unat c + 4096 + unat nr * 4096 \<le> unat b + unat n"
  shows "\<exists>A c'. boot_alloc_pages (boot_at s bi b n c) nr = (boot_at s bi b n c', A + boot_hhdm bi) \<and> A + boot_hhdm bi \<noteq> 0 \<and>
    unat A = (unat c + 4095) div 4096 * 4096 \<and> unat c' = unat A + unat nr * 4096"
proof -
  have "unat (b + n) = unat b + unat n" using e by (intro unat_add_u64) simp
  with boot_alloc_ok [of "boot_at s bi b n c" nr] nr obtain A c' where
    a: "boot_alloc_pages (boot_at s bi b n c) nr = (boot_at s bi b n c', A + boot_hhdm bi)"
    "unat A = (unat c + 4095) div 4096 * 4096" "unat c' = unat A + unat nr * 4096"
    by (auto simp: boot_at_def)
  have "(unat c + 4095) div 4096 * 4096 \<le> unat c + 4095" by simp
  then have "unat A + unat (boot_hhdm bi) < 2 ^ 64" using a(2) h(2) nr e by linarith
  then have "unat (A + boot_hhdm bi) = unat A + unat (boot_hhdm bi)" by (rule unat_add_u64)
  moreover have "0 < unat (boot_hhdm bi)" using h(1) by (simp add: word_less_nat_alt)
  ultimately have "A + boot_hhdm bi \<noteq> 0" by (metis add_is_0 less_numeral_extra(3) unat_0)
  then show ?thesis using a by blast
qed

text \<open>The memory map gives bounds on what the scan finds.\<close>

lemma memmap_okD:
  assumes "memmap_ok bi" "fold scan_entry (memmap bi) (0, 0, 0) = (M, B, N)"
  shows "unat M < 2 ^ 46" "unat B + unat N < 2 ^ 46" "e \<in> set (memmap bi) \<Longrightarrow> unat (base e) + unat (length_of e) < 2 ^ 46"
    "e \<in> set (memmap bi) \<Longrightarrow> usable_entry e \<Longrightarrow> unat (base e) + unat (length_of e) \<le> unat M"
    "0 < boot_hhdm bi" "unat (boot_hhdm bi) + 2 ^ 46 \<le> 2 ^ 64"
    "1048576 \<le> unat M div 4096 \<or> 1024 dvd unat M div 4096"
    "mem_bitmap_size_for (unat M div 4096) + 64 * (unat M div 4096) + 4 * 4096 \<le> unat N"
proof -
  have lt: "unat (base e) + unat (length_of e) < 2 ^ 46" if "e \<in> set (memmap bi)" for e
    using assms(1) that by (simp add: memmap_ok_def)
  have u: "unat (base e + length_of e) = unat (base e) + unat (length_of e)" if "e \<in> set (memmap bi)" for e
    using lt [OF that] by (intro unat_add_u64) simp
  note f = scan_fold [OF assms(2)]
  show "unat M < 2 ^ 46" using f lt u by auto
  show "unat B + unat N < 2 ^ 46" using f lt by auto
  show "e \<in> set (memmap bi) \<Longrightarrow> unat (base e) + unat (length_of e) < 2 ^ 46" by (rule lt)
  show "e \<in> set (memmap bi) \<Longrightarrow> usable_entry e \<Longrightarrow> unat (base e) + unat (length_of e) \<le> unat M"
    using f u by (auto simp: word_le_nat_alt)
qed (use assms in \<open>simp_all add: memmap_ok_def Let_def\<close>)

lemma bitmap_page_count:
  assumes "n < 2 ^ 40"
  shows "unat ((of_nat (mem_bitmap_size_for n) + PAGE_SIZE - 1) div PAGE_SIZE) = (mem_bitmap_size_for n + 4095) div 4096"
proof -
  have "mem_bitmap_size_for n + 4095 < 2 ^ 64" using assms by (simp add: mem_bitmap_size_for_def)
  moreover have "of_nat (mem_bitmap_size_for n) + PAGE_SIZE - 1 = (of_nat (mem_bitmap_size_for n + 4095) :: u64)"
    by (simp add: ocean_const)
  ultimately show ?thesis by (simp only: unat_div unat_PAGE_SIZE unat_u64_of_nat)
qed

lemma array_page_count:
  assumes "n < 2 ^ 40"
  shows "unat (of_nat n * sizeof_page) = 64 * n"
    and "unat (PAGE_ALIGN (of_nat n * sizeof_page) div PAGE_SIZE) = (64 * n + 4095) div 4096"
proof -
  have "of_nat n * sizeof_page = (of_nat (64 * n) :: u64)" by (simp add: sizeof_page_def)
  moreover have "64 * n < 2 ^ 64" using assms by simp
  ultimately show u: "unat (of_nat n * sizeof_page) = 64 * n" by (simp only: unat_u64_of_nat)
  have "unat (PAGE_ALIGN (of_nat n * sizeof_page)) = (64 * n + 4095) div 4096 * 4096"
    using unat_PAGE_ALIGN [of "of_nat n * sizeof_page"] u assms by simp
  then show "unat (PAGE_ALIGN (of_nat n * sizeof_page) div PAGE_SIZE) = (64 * n + 4095) div 4096"
    by (simp add: unat_div unat_PAGE_SIZE)
qed

text \<open>Where the bitmap and the page array come to lie.\<close>

lemma boot_layout:
  assumes mo: "memmap_ok bi" and sc: "fold scan_entry (memmap bi) (0, 0, 0) = (M, B, N)" and n: "n = unat M div 4096"
  obtains A c1 c2 where
    "boot_alloc_pages (boot_at s bi B N B) ((of_nat (mem_bitmap_size_for n) + PAGE_SIZE - 1) div PAGE_SIZE) =
       (boot_at s bi B N c1, A)" "A \<noteq> 0"
    "boot_alloc_pages (boot_at s bi B N c1) (PAGE_ALIGN (of_nat n * sizeof_page) div PAGE_SIZE) =
       (boot_at s bi B N c2, c1 + boot_hhdm bi)" "c1 + boot_hhdm bi \<noteq> 0"
    "4096 dvd unat c1" "unat B \<le> unat c1" "unat c2 = unat c1 + (64 * n + 4095) div 4096 * 4096" "unat c2 < 2 ^ 46"
    "unat c2 \<le> unat B + mem_bitmap_size_for n + 64 * n + 3 * 4095"
proof -
  note D = memmap_okD [OF mo sc]
  have n40: "n < 2 ^ 40" using D(1) n by simp
  let ?w = "mem_bitmap_size_for n"
  have fit: "?w + 64 * n + 4 * 4096 \<le> unat N" using D(8) n by simp
  have r: "(?w + 4095) div 4096 * 4096 \<le> ?w + 4095" "(64 * n + 4095) div 4096 * 4096 \<le> 64 * n + 4095"
    "(unat B + 4095) div 4096 * 4096 \<le> unat B + 4095" by simp_all
  have "unat B + 4096 + (?w + 4095) div 4096 * 4096 \<le> unat B + unat N" using fit r by linarith
  from boot_at_alloc [OF D(5,6,2) this [folded bitmap_page_count [OF n40]], of s] obtain A c1 where
    1: "boot_alloc_pages (boot_at s bi B N B) ((of_nat ?w + PAGE_SIZE - 1) div PAGE_SIZE) =
       (boot_at s bi B N c1, A + boot_hhdm bi)" "A + boot_hhdm bi \<noteq> 0"
    "unat A = (unat B + 4095) div 4096 * 4096" "unat c1 = unat A + (?w + 4095) div 4096 * 4096"
    unfolding bitmap_page_count [OF n40] by blast
  have al: "4096 dvd unat c1" using 1(3,4) by simp
  have "unat c1 + 4096 + (64 * n + 4095) div 4096 * 4096 \<le> unat B + unat N" using fit r 1(3,4) by linarith
  from boot_at_alloc [OF D(5,6,2) this [folded array_page_count(2) [OF n40]], of s] obtain A2 c2 where
    2: "boot_alloc_pages (boot_at s bi B N c1) (PAGE_ALIGN (of_nat n * sizeof_page) div PAGE_SIZE) =
       (boot_at s bi B N c2, A2 + boot_hhdm bi)" "A2 + boot_hhdm bi \<noteq> 0"
    "unat A2 = (unat c1 + 4095) div 4096 * 4096" "unat c2 = unat A2 + (64 * n + 4095) div 4096 * 4096"
    unfolding array_page_count(2) [OF n40] by blast
  have uA: "unat A2 = unat c1" unfolding 2(3) using al by auto
  then have A2: "A2 = c1" by (simp add: word_unat_eq_iff)
  have "unat B \<le> unat c1" using 1(3,4) by linarith
  moreover have "unat c2 < 2 ^ 46" using 2(4) uA fit r 1(3,4) D(2) by linarith
  moreover have "unat c2 \<le> unat B + ?w + 64 * n + 3 * 4095" using 2(4) uA r 1(3,4) by linarith
  ultimately show ?thesis using that 1(1,2) 2 al A2 by blast
qed

lemma bitmap_final:
  assumes mo: "memmap_ok bi" and sc: "fold scan_entry (memmap bi) (0, 0, 0) = (M, B, N)" and n: "n = unat M div 4096"
    and c: "4096 dvd unat c1" "unat B \<le> unat c1" "unat c2 = unat c1 + (64 * n + 4095) div 4096 * 4096" "unat c2 < 2 ^ 46"
  shows "usable (mem_bitmap_mark_reserved (mem_bitmap_mark_reserved (fold mark_entry (memmap bi) (mem_bitmap_init n)) B c1)
      c1 (c1 + of_nat n * sizeof_page)) =
    {p. \<exists>e \<in> set (memmap bi). usable_entry e \<and> unat (base e) \<le> p * 4096 \<and> (p + 1) * 4096 \<le> unat (base e) + unat (length_of e)} -
    {p. p * 4096 < unat c2 \<and> unat B < (p + 1) * 4096}"
proof -
  note D = memmap_okD [OF mo sc]
  let ?U = "\<lambda>p. \<exists>e \<in> set (memmap bi). usable_entry e \<and> unat (base e) \<le> p * 4096 \<and> (p + 1) * 4096 \<le> unat (base e) + unat (length_of e)"
  let ?b = "fold mark_entry (memmap bi) (mem_bitmap_init n)"
  have n40: "n < 2 ^ 40" using D(1) n by simp
  note an = array_page_count(1) [OF n40]
  have tr: "?U p \<Longrightarrow> tracked (mem_bitmap_init n) p" for p
  proof -
    assume "?U p"
    then have "(p + 1) * 4096 \<le> unat M" using D(4) by (meson order_trans)
    then have "p < n" using n frame_bounds(1) [of p "unat M"] by simp
    then show ?thesis by (simp add: tracked_def mem_bitmap_init_def)
  qed
  have b: "bm_ok ?b" "usable ?b = {p. ?U p}"
    using mark_entries [OF padding_init(1), of "memmap bi" n] D(3) padding_init(3) [of n] tr by auto
  have e: "unat (c1 + of_nat n * sizeof_page) = unat c1 + 64 * n"
    using c(3,4) an by (subst unat_add_u64) auto
  have lt: "unat B + 4095 < 2 ^ 64" "unat c1 + 4095 < 2 ^ 64" "unat (c1 + of_nat n * sizeof_page) + 4095 < 2 ^ 64"
    using c n40 e by auto
  obtain q where q: "unat c1 = 4096 * q" using c(1) by (elim dvdE)
  define m where "m = (64 * n + 4095) div 4096"
  have mb: "64 * n \<le> m * 4096" "m * 4096 \<le> 64 * n + 4095" unfolding m_def by linarith+
  then have m: "p * 4096 < 4096 * q + 64 * n \<longleftrightarrow> p < q + m" for p by linarith
  have "{p. p * 4096 < unat c2 \<and> unat B < (p + 1) * 4096} =
    {p. p * 4096 < unat c1 \<and> unat B < (p + 1) * 4096} \<union> {p. p * 4096 < unat c1 + 64 * n \<and> unat c1 < (p + 1) * 4096}"
    using c(2) unfolding c(3) q m m_def [symmetric] by auto
  then show ?thesis
    using usable_mark(2) [OF b(1) lt(1,2)] usable_mark(2) [OF mark_ok(3) [OF b(1)] lt(2,3), of B c1] b(2) e by auto
qed

text \<open>The loops over the page array, once the bitmap is final.\<close>

lemma array_setup:
  assumes n: "n < 2 ^ 40" and pa: "page_array s = map (\<lambda>pfn. \<lparr>flags = PG_RESERVED, order = 0,
      zone_id = pfn_to_zone_type pfn, head = None\<rparr>) [0..<n]"
    and us: "usable (bitmap s) \<subseteq> {..<n}"
  shows "\<exists>s5 s6. mark_pages [0..<n] s = Some s5 \<and> add_usable_memory (init_zones s5) = Some s6 \<and> zones_ok s6 \<and> counted s6 \<and>
    length (page_array s6) = n \<and> pavail s6 = usable (bitmap s) \<and> boot_alloc s6 = boot_alloc s \<and>
    hhdm_offset s6 = hhdm_offset s \<and> page_array_addr s6 = page_array_addr s"
proof -
  have len: "length (page_array s) = n" using pa by simp
  obtain s5 where s5: "mark_pages [0..<n] s = Some s5" "length (page_array s5) = n"
    "\<And>i. page_array s5 ! i = (if i \<in> set [0..<n] \<and> i \<in> usable (bitmap s) then page_clear_flag (page_array s ! i) PG_RESERVED
       else page_array s ! i)"
    "boot_alloc s5 = boot_alloc s" "hhdm_offset s5 = hhdm_offset s" "page_array_addr s5 = page_array_addr s"
    using mark_pages_ok [of "[0..<n]" s] len by auto
  have f: "PG_RESERVED AND NOT PG_RESERVED = 0" "PG_RESERVED AND PG_BUDDY = 0" "PG_RESERVED AND PG_RESERVED \<noteq> 0"
    by (simp_all add: PG_RESERVED_def PG_BUDDY_def)
  have res: "flags (page_array s5 ! p) AND PG_RESERVED = 0 \<longleftrightarrow> p \<in> usable (bitmap s)"
    and pg: "\<not> marked (page_array s5 ! p)" "zone_id (page_array s5 ! p) = zone_of p" if "p < n" for p
    using that pa f zone_type [of p] n by (simp_all add: s5(3) page_clear_flag_def)
  have zi: "page_array (init_zones s5) = page_array s5" "boot_alloc (init_zones s5) = boot_alloc s5"
    "hhdm_offset (init_zones s5) = hhdm_offset s5" "page_array_addr (init_zones s5) = page_array_addr s5"
    by (simp_all add: init_zones_def Let_def)
  have iz: "zones_ok (init_zones s5)" "pavail (init_zones s5) = {}" "counted (init_zones s5)"
    using init_zones_ok [of s5] pg s5(2) n by simp_all
  have "run_ok (init_zones s5) 0 0 ZONE_DMA" by (simp add: run_ok_def ZONE_DMA_def)
  from add_usable_ok [OF iz(1,3) this, of 0] iz(2) obtain s6 where
    s6: "add_usable_memory (init_zones s5) = Some s6" "zones_ok s6" "counted s6"
    "pavail s6 = {p. p < n \<and> unreserved s5 p}"
    "s6 = (init_zones s5)\<lparr>page_array := page_array s6, zones := zones s6\<rparr>" "length (page_array s6) = n"
    by (auto simp: add_usable_memory_def zi s5(2))
  have "pavail s6 = usable (bitmap s)" using s6(4) res us by auto
  moreover have "boot_alloc s6 = boot_alloc s" "hhdm_offset s6 = hhdm_offset s" "page_array_addr s6 = page_array_addr s"
    by (subst s6(5), simp add: zi s5)+
  ultimately show ?thesis using s5(1) s6(1-3,6) by blast
qed

lemma counted_sum:
  assumes "zones_ok s" "counted s"
  shows "sum_list (map free_pages (zones s)) = of_nat (card (pavail s))"
proof -
  have z: "zones s = map (\<lambda>i. zones s ! i) [0..<3]" using zones_okD(1) [OF assms(1)] by (metis map_nth)
  have d: "free_frames (zones s ! i) \<inter> free_frames (zones s ! j) = {}" if "i < 3" "j < 3" "i \<noteq> j" for i j
    using free_zone_of [OF assms(1) that(1)] free_zone_of [OF assms(1) that(2)] that(3) by blast
  have "card (pavail s) = (\<Sum>i < 3. card (free_frames (zones s ! i)))"
    unfolding pavail_def using d finite_free [OF zones_okD(3) [OF assms(1)]] by (intro card_UN_disjoint) auto
  then show ?thesis using assms(2) by (subst z) (simp add: counted_def eval_nat_numeral)
qed

lemma pmm_init_steps:
  assumes "fold scan_entry (memmap bi) (0, 0, 0) = (M, B, N)" "n = PHYS_TO_PFN M"
    "boot_alloc_pages (boot_at s bi B N B) ((of_nat (mem_bitmap_size_for n) + PAGE_SIZE - 1) div PAGE_SIZE) = (s3, A)" "A \<noteq> 0"
    "init_page_array s3 n = s4" "pa = virt_to_phys s4 (page_array_addr s4)"
    "b = mem_bitmap_mark_reserved (mem_bitmap_mark_reserved (fold mark_entry (memmap bi) (mem_bitmap_init n))
        (ba_base (boot_alloc s3)) (ba_current (boot_alloc s3))) pa (pa + of_nat n * sizeof_page)"
    "mark_pages [0..<n] (s4\<lparr>bitmap := b\<rparr>) = Some s5" "add_usable_memory (init_zones s5) = Some s6"
  shows "pmm_init s (Some bi) = Some (s6\<lparr>pmm_free_pages := sum_list (map free_pages (zones s6)), initialized := True\<rparr>)"
  using assms unfolding pmm_init_def boot_at_def by (simp add: Let_def)

lemma pmm_init_ok:
  assumes mo: "memmap_ok bi" and sc: "fold scan_entry (memmap bi) (0, 0, 0) = (M, B, N)"
  shows "\<exists>s'. pmm_init s (Some bi) = Some s' \<and> pmm_ok s' \<and> counted s' \<and> hhdm_offset s' = boot_hhdm bi \<and>
    length (page_array s') = unat M div 4096 \<and> pmm_free_pages s' = of_nat (card (pavail s')) \<and>
    ba_base (boot_alloc s') = B \<and> unat B \<le> unat (virt_to_phys s' (page_array_addr s')) \<and>
    unat (virt_to_phys s' (page_array_addr s')) + 64 * length (page_array s') \<le> unat (ba_current (boot_alloc s')) \<and>
    unat (ba_current (boot_alloc s')) \<le> unat B + mem_bitmap_size_for (unat M div 4096) + 64 * (unat M div 4096) + 3 * 4095 \<and>
    pavail s' = {p. \<exists>e \<in> set (memmap bi). usable_entry e \<and> unat (base e) \<le> p * 4096 \<and>
        (p + 1) * 4096 \<le> unat (base e) + unat (length_of e)} -
      {p. p * 4096 < unat (ba_current (boot_alloc s')) \<and> unat B < (p + 1) * 4096}"
proof -
  define n where "n = unat M div 4096"
  obtain A c1 c2 where l:
    "boot_alloc_pages (boot_at s bi B N B) ((of_nat (mem_bitmap_size_for n) + PAGE_SIZE - 1) div PAGE_SIZE) =
       (boot_at s bi B N c1, A)" "A \<noteq> 0"
    "boot_alloc_pages (boot_at s bi B N c1) (PAGE_ALIGN (of_nat n * sizeof_page) div PAGE_SIZE) =
       (boot_at s bi B N c2, c1 + boot_hhdm bi)" "c1 + boot_hhdm bi \<noteq> 0"
    "4096 dvd unat c1" "unat B \<le> unat c1" "unat c2 = unat c1 + (64 * n + 4095) div 4096 * 4096" "unat c2 < 2 ^ 46"
    "unat c2 \<le> unat B + mem_bitmap_size_for n + 64 * n + 3 * 4095"
    using boot_layout [OF mo sc n_def] .
  note D = memmap_okD [OF mo sc] and bf = bitmap_final [OF mo sc n_def l(5-8)]
  define b3 where "b3 = mem_bitmap_mark_reserved (mem_bitmap_mark_reserved (fold mark_entry (memmap bi) (mem_bitmap_init n)) B c1)
      c1 (c1 + of_nat n * sizeof_page)"
  define s4 where "s4 = (boot_at s bi B N c2)\<lparr>page_array_addr := c1 + boot_hhdm bi, page_array := map (\<lambda>pfn. \<lparr>flags = PG_RESERVED,
      order = 0, zone_id = pfn_to_zone_type pfn, head = None\<rparr>) [0..<n]\<rparr>"
  have s4: "init_page_array (boot_at s bi B N c1) n = s4"
    using l(3,4) by (simp add: init_page_array_def s4_def Let_def)
  have n40: "n < 2 ^ 40" using D(1) by (simp add: n_def)
  have us: "usable b3 \<subseteq> {..<n}"
  proof
    fix p assume "p \<in> usable b3"
    then have "(p + 1) * 4096 \<le> unat M" using D(4) unfolding b3_def bf by (blast intro: order_trans)
    then show "p \<in> {..<n}" using frame_bounds(1) [of p "unat M"] by (simp add: n_def)
  qed
  from array_setup [OF n40, of "s4\<lparr>bitmap := b3\<rparr>"] us obtain s5 s6 where 6:
    "mark_pages [0..<n] (s4\<lparr>bitmap := b3\<rparr>) = Some s5" "add_usable_memory (init_zones s5) = Some s6" "zones_ok s6" "counted s6"
    "length (page_array s6) = n" "pavail s6 = usable b3" "boot_alloc s6 = \<lparr>ba_base = B, ba_current = c2, ba_end = B + N\<rparr>"
    "hhdm_offset s6 = boot_hhdm bi" "page_array_addr s6 = c1 + boot_hhdm bi" by (auto simp: s4_def boot_at_def)
  let ?s' = "s6\<lparr>pmm_free_pages := sum_list (map free_pages (zones s6)), initialized := True\<rparr>"
  have run: "pmm_init s (Some bi) = Some ?s'"
  proof (rule pmm_init_steps [OF sc _ l(1,2) s4 _ _ 6(1,2)])
    show "n = PHYS_TO_PFN M" by (simp add: PFN_word n_def)
    show "c1 = virt_to_phys s4 (page_array_addr s4)" by (simp add: s4_def virt_to_phys_def boot_at_def)
    show "b3 = mem_bitmap_mark_reserved (mem_bitmap_mark_reserved (fold mark_entry (memmap bi) (mem_bitmap_init n))
        (ba_base (boot_alloc (boot_at s bi B N c1))) (ba_current (boot_alloc (boot_at s bi B N c1))))
        c1 (c1 + of_nat n * sizeof_page)" by (simp add: b3_def boot_at_def)
  qed
  have "pmm_ok ?s'" "counted ?s'" "pavail ?s' = pavail s6"
    using 6(3-5) D(7) n_def by (simp_all add: pmm_ok_def zones_ok_def zone_hi_def pavail_def counted_def)
  moreover have "unat c1 + 64 * n \<le> unat c2" unfolding l(7) by linarith
  ultimately show ?thesis
    using run 6 bf l(6,9) counted_sum [OF 6(3,4)] unfolding b3_def [symmetric]
    by (intro exI [of _ ?s']) (simp add: virt_to_phys_def n_def)
qed

subsection \<open>Completeness of allocation\<close>

text \<open>The counters of the zones report at least the free frames.\<close>

definition not_under :: "pmm_state \<Rightarrow> bool" where
  "not_under s \<longleftrightarrow> (\<forall>i < 3. card (free_frames (zones s ! i)) \<le> unat (free_pages (zones s ! i)))"

lemma counted_not_under:
  assumes "zones_ok s" "counted s"
  shows "not_under s"
  unfolding not_under_def
proof (intro allI impI)
  fix i :: nat assume i: "i < 3"
  have "card (free_frames (zones s ! i)) \<le> card {..<length (page_array s)}"
    using free_zone_of [OF assms(1) i] by (intro card_mono) auto
  then have "card (free_frames (zones s ! i)) < 2 ^ 64" using zones_okD(2) [OF assms(1)] by simp
  then show "card (free_frames (zones s ! i)) \<le> unat (free_pages (zones s ! i))"
    using assms(2) i by (simp add: counted_def unat_u64_of_nat)
qed

lemma try_zones_complete:
  assumes ok: "pmm_ok s" "not_under s"
  shows "n \<le> 3 \<Longrightarrow> try_zones s k n = Some (s', None) \<Longrightarrow> i < n \<Longrightarrow> (p, j) \<in> blocks (zones s ! i) \<Longrightarrow> j < k"
proof (induction n)
  case (Suc n)
  have n: "n < 3" using Suc.prems(1) by simp
  have small: "j < k" if "free_pages (zones s ! n) < push_bit k 1" "(p, j) \<in> blocks (zones s ! n)"
  proof (rule ccontr)
    assume "\<not> j < k"
    have j: "j < MAX_ORDER" using that(2) by (auto simp: blocks_def)
    then have k: "unat (push_bit k 1 :: u64) = 2 ^ k"
      using \<open>\<not> j < k\<close> unat_u64_pow2 [of k] by (simp add: push_bit_eq_mult MAX_ORDER_def)
    have zo: "zone_ok (page_array s, zones s ! n)" using pmm_mem_ok [OF ok(1) n] by (simp add: mem_ok_def)
    have "card (block p j) \<le> card (free_frames (zones s ! n))"
      using block_free [OF that(2)] finite_free [OF zo] by (rule card_mono [rotated])
    then have "2 ^ j \<le> unat (free_pages (zones s ! n))" using ok(2) n by (auto simp: not_under_def)
    moreover have "(2 :: nat) ^ k \<le> 2 ^ j" using \<open>\<not> j < k\<close> by (intro power_increasing) auto
    ultimately show False using that(1) unfolding word_less_nat_alt k by linarith
  qed
  show ?case
  proof (cases "free_pages (zones s ! n) < push_bit k 1")
    case True
    then show ?thesis using Suc small by (cases "i = n") auto
  next
    case False
    from pmm_mem_ok [OF ok(1) n] show ?thesis
    proof (rule alloc_cases [where k = k])
      assume a: "buddy_alloc_pages (page_array s, zones s ! n) k = Some ((page_array s, zones s ! n), None)"
        "\<And>p j. (p, j) \<in> blocks (snd (page_array s, zones s ! n)) \<Longrightarrow> j < k"
      have "try_zones s k n = Some (s', None)" using Suc.prems(2) False a(1) by (simp add: Let_def)
      then show ?thesis using Suc a(2) by (cases "i = n") auto
    next
      fix m q assume "buddy_alloc_pages (page_array s, zones s ! n) k = Some (m, Some q)"
      then show ?thesis using Suc.prems(2) False by (auto simp: Let_def split: prod.splits)
    qed
  qed
qed simp

lemma alloc_complete:
  assumes ok: "pmm_ok s" "not_under s" and i: "i \<le> start_zone g" "(p, j) \<in> blocks (zones s ! i)" "k \<le> j"
  shows "\<exists>s' q. alloc_pages s k g = Some (s', Some q)"
proof -
  obtain s' r where a: "alloc_pages s k g = Some (s', r)" using alloc_pages_ok [OF ok(1)] by blast
  obtain s1 r1 where t: "try_zones s k (Suc (start_zone g)) = Some (s1, r1)"
    using try_zones_ok [OF ok(1)] start_zone_le [of g] by (meson Suc_leI)
  have "r1 \<noteq> None"
    using try_zones_complete [OF ok, of "Suc (start_zone g)" k s1 i p j] t i start_zone_le [of g] by auto
  then have "r \<noteq> None" using a t ok(1) by (auto simp: alloc_pages_def pmm_ok_def Let_def split: if_splits)
  then show ?thesis using a by auto
qed

subsection \<open>Properties\<close>

text \<open>The state before initialisation: all zeroes, as the memory of global variables.\<close>

definition pmm_bss :: pmm_state where
  "pmm_bss = \<lparr>page_array = [], page_array_addr = 0, zones = [], total_pages = 0, pmm_free_pages = 0,
     reserved_pages = 0, hhdm_offset = 0, initialized = False,
     bitmap = \<lparr>bits = [], nr_bits = 0, nr_words = 0, base_pfn = 0\<rparr>,
     boot_alloc = \<lparr>ba_base = 0, ba_current = 0, ba_end = 0\<rparr>, phys_mem = (\<lambda>_. 0)\<rparr>"

text \<open>A machine with 4 MiB of usable memory at address 0.\<close>

definition ex_memmap :: boot_info where
  "ex_memmap = \<lparr>memmap = [\<lparr>base = 0, length_of = 0x400000, type = LIMINE_MEMMAP_USABLE\<rparr>], boot_hhdm = 0xFFFF800000000000\<rparr>"

lemma ex_scan: "fold scan_entry (memmap ex_memmap) (0, 0, 0) = (0x400000, 0, 0x400000)"
  by (simp add: ex_memmap_def scan_entry_def LIMINE_MEMMAP_USABLE_def)

lemma ex_memmap_ok: "memmap_ok ex_memmap"
  unfolding memmap_ok_def ex_scan by (simp add: ex_memmap_def mem_bitmap_size_for_def)

lemma ex_start:
  obtains s where "pmm_init s0 (Some ex_memmap) = Some s" "pmm_ok s" "not_under s" "1000 \<in> pavail s" "hhdm_offset s = 0xFFFF800000000000" "length (page_array s) = 1024"
proof -
  from pmm_init_ok [OF ex_memmap_ok ex_scan, of s0] obtain s where
    s: "pmm_init s0 (Some ex_memmap) = Some s" "pmm_ok s" "counted s" "hhdm_offset s = boot_hhdm ex_memmap" "length (page_array s) = 1024"
    "unat (ba_current (boot_alloc s)) \<le> mem_bitmap_size_for 1024 + 64 * 1024 + 3 * 4095"
    "pavail s = {p. \<exists>e \<in> set (memmap ex_memmap). usable_entry e \<and> unat (base e) \<le> p * 4096 \<and>
        (p + 1) * 4096 \<le> unat (base e) + unat (length_of e)} -
      {p. p * 4096 < unat (ba_current (boot_alloc s)) \<and> unat (0 :: u64) < (p + 1) * 4096}" by auto
  have "1000 \<in> pavail s"
    unfolding s(7) using s(6) by (simp add: ex_memmap_def usable_entry_def mem_bitmap_size_for_def)
  moreover have "not_under s" using counted_not_under s(2,3) by (simp add: pmm_ok_def)
  ultimately show ?thesis using that s(1,2,4,5) by (simp add: ex_memmap_def)
qed

lemma ex_alloc:
  obtains s s' p where "pmm_init s0 (Some ex_memmap) = Some s" "pmm_ok s" "not_under s" "hhdm_offset s = 0xFFFF800000000000" "length (page_array s) = 1024"
    "start_zone g = 2 \<Longrightarrow> alloc_pages s 0 g = Some (s', Some p)"
proof -
  obtain s where s: "pmm_init s0 (Some ex_memmap) = Some s" "pmm_ok s" "not_under s" "1000 \<in> pavail s" "hhdm_offset s = 0xFFFF800000000000" "length (page_array s) = 1024"
    by (rule ex_start)
  then obtain i q j where "i < 3" "(q, j) \<in> blocks (zones s ! i)" by (auto simp: pavail_def free_frames_def)
  then show ?thesis using alloc_complete [OF s(2,3), of i g q j 0] that s by force
qed

text \<open>
  C1: No frame is handed out twice by the memory manager, and no request faults: over any sequence of \<^verbatim>\<open>alloc_pages\<close> (with any
  flags), \<^verbatim>\<open>alloc_pages_zone\<close> and \<^verbatim>\<open>free_pages\<close> of blocks in use, every block in use is aligned, lies in
  one zone, and overlaps neither another block in use nor free memory; and after any such sequence every
  further request, with any flags, zone and order, and the release of every block in use return without accessing memory
  outside the page array. The start is any state that satisfies the invariant \<open>pmm_ok\<close>, which includes that the number of frames is a multiple of 1024 or
  at least 1048576; \<open>pmm_odd_end_faults\<close> shows that the code needs this.
\<close>

theorem pmm_no_overlap:
  assumes "pmm_ok s" "(own_step pmm_alloc pmm_free)\<^sup>*\<^sup>* (s, {}) (s', B)"
  shows "pmm_ok s' \<and>
    (\<forall>p k. (p, k) \<in> B \<longrightarrow> k < MAX_ORDER \<and> 2 ^ k dvd p \<and> pregion s' p k \<and> block p k \<inter> pavail s' = {}) \<and>
    (\<forall>p k q j. (p, k) \<in> B \<longrightarrow> (q, j) \<in> B \<longrightarrow> (p, k) = (q, j) \<or> block p k \<inter> block q j = {}) \<and>
    (\<forall>k g zi. alloc_pages s' k g \<noteq> None \<and> alloc_pages_zone s' zi k g \<noteq> None) \<and>
    (\<forall>p k. (p, k) \<in> B \<longrightarrow> free_pages_pmm s' (Some p) k \<noteq> None)"
proof -
  have "phys_pages.owned s {}" using assms(1) by (simp add: phys_pages.owned_def)
  then have o: "phys_pages.owned s' B" using phys_pages.owned_steps [OF assms(2)] by simp
  have "alloc_pages s' k g \<noteq> None" "alloc_pages_zone s' zi k g \<noteq> None" for k g zi
    using phys_pages.owned_progress(1) [OF o, of "Any_zone g" k] phys_pages.owned_progress(1) [OF o, of "One_zone zi g" k] by simp_all
  moreover have "free_pages_pmm s' (Some p) k \<noteq> None" if "(p, k) \<in> B" for p k using phys_pages.owned_progress(2) [OF o that] .
  ultimately show ?thesis using o unfolding phys_pages.owned_def by blast
qed

theorem pmm_no_overlap_witness:
  "\<exists>s s' p. pmm_init pmm_bss (Some ex_memmap) = Some s \<and> alloc_pages s 0 GFP_KERNEL = Some (s', Some p) \<and>
     pregion s' p 0 \<and> p \<notin> pavail s' \<and> free_pages_pmm s' (Some p) 0 \<noteq> None \<and> alloc_pages s' 3 0 \<noteq> None"
proof -
  have z: "start_zone GFP_KERNEL = 2" by (simp add: start_zone_def zone_const)
  obtain s s' p where s: "pmm_init pmm_bss (Some ex_memmap) = Some s" "pmm_ok s" "alloc_pages s 0 GFP_KERNEL = Some (s', Some p)"
    using ex_alloc [of pmm_bss GFP_KERNEL] z by metis
  let ?step = "own_step pmm_alloc pmm_free"
  have "?step (s, {}) (s', insert (p, 0) {})" by (rule own_step.Get [where g = "Any_zone GFP_KERNEL"]) (simp add: s(3))
  then have "?step\<^sup>*\<^sup>* (s, {}) (s', insert (p, 0) {})" using r_into_rtranclp [of ?step "(s, {})"] by simp
  note b = pmm_no_overlap [OF s(2) this]
  have "pregion s' p 0 \<and> block p 0 \<inter> pavail s' = {}" using conjunct1 [OF conjunct2 [OF b], rule_format, of p 0] by simp
  moreover have "free_pages_pmm s' (Some p) 0 \<noteq> None" "alloc_pages s' 3 0 \<noteq> None" using b by simp_all
  ultimately show ?thesis using s(1,3) by auto
qed

text \<open>
  C14: Initialisation is exact: from a memory map that ends below 64 TiB at a multiple of 1024 frames or at no less than 1048576 frames,
  whose largest usable region has room for the bitmap and the page array, and with a direct map in the upper half, \<^verbatim>\<open>pmm_init\<close>
  returns without accessing memory outside the page array, establishes the invariant, and makes free
  exactly the frames that lie wholly in a usable or bootloader reclaimable region, except those
  that the boot allocator has used up to then; the page array lies within that excluded
  part, and the total of the zone counters is the number of free frames.
\<close>

theorem pmm_init_exact:
  assumes "memmap_ok bi"
  shows "\<exists>s'. pmm_init s (Some bi) = Some s' \<and> pmm_ok s' \<and> pmm_get_free_pages s' = of_nat (card (pavail s')) \<and>
    unat (ba_base (boot_alloc s')) \<le> unat (virt_to_phys s' (page_array_addr s')) \<and>
    unat (virt_to_phys s' (page_array_addr s')) + 64 * length (page_array s') \<le> unat (ba_current (boot_alloc s')) \<and>
    pavail s' = {p. \<exists>e \<in> set (memmap bi). usable_entry e \<and> unat (base e) \<le> p * 4096 \<and>
        (p + 1) * 4096 \<le> unat (base e) + unat (length_of e)} -
      {p. p * 4096 < unat (ba_current (boot_alloc s')) \<and> unat (ba_base (boot_alloc s')) < (p + 1) * 4096}"
proof -
  obtain M B N where sc: "fold scan_entry (memmap bi) (0, 0, 0) = (M, B, N)" by (metis prod_cases3)
  note i = pmm_init_ok [OF assms sc, of s]
  then obtain s' where s': "pmm_init s (Some bi) = Some s'" "pmm_ok s'" "counted s'" "ba_base (boot_alloc s') = B" by blast
  have "pmm_get_free_pages s' = of_nat (card (pavail s'))"
    using counted_sum s'(2,3) by (simp add: pmm_get_free_pages_def pmm_ok_def)
  then show ?thesis using i s' by (intro exI [of _ s']) simp
qed

theorem pmm_init_exact_witness:
  "memmap_ok ex_memmap \<and> (\<exists>s. pmm_init pmm_bss (Some ex_memmap) = Some s \<and> pmm_ok s)"
  using pmm_init_exact [OF ex_memmap_ok, of pmm_bss] ex_memmap_ok by blast

lemma odd_part: "0 < (n :: nat) \<Longrightarrow> \<exists>k m. n = 2 ^ k * (2 * m + 1)"
proof (induction n rule: less_induct)
  case (less n)
  show ?case
  proof (cases "even n")
    case True
    then obtain h where h: "n = 2 * h" by (rule evenE)
    then obtain k m where "h = 2 ^ k * (2 * m + 1)" using less.IH [of h] less.prems by auto
    then show ?thesis using h by (intro exI [of _ "Suc k"] exI [of _ m]) simp
  next
    case False
    then obtain m where "n = 2 * m + 1" by (rule oddE)
    then show ?thesis by (intro exI [of _ 0] exI [of _ m]) simp
  qed
qed

text \<open>
  C36: The limit on the number of frames is needed. On a machine with less than 4 GiB whose number of frames is not a multiple of 1024, the release of the
  last aligned block of the page array, which lies within its zone, reads the page array out of bounds: the zone ends behind the array, so
  its buddy passes the range test of \<^verbatim>\<open>page_is_buddy\<close>.
\<close>

theorem pmm_odd_end_faults:
  assumes "zones_ok s" "initialized s" "length (page_array s) < 1048576" "\<not> 1024 dvd length (page_array s)"
  shows "\<exists>p k. k < MAX_ORDER \<and> 2 ^ k dvd p \<and> p + 2 ^ k = length (page_array s) \<and> pregion s p k \<and> free_pages_pmm s (Some p) k = None"
proof -
  let ?n = "length (page_array s)"
  have "0 < ?n" using assms(4) by (cases "?n = 0") auto
  then obtain k m where n: "?n = 2 ^ k * (2 * m + 1)" using odd_part by blast
  define p where "p = 2 ^ Suc k * m"
  have pn: "p + 2 ^ k = ?n" by (simp add: n p_def)
  have k: "k < 10"
  proof (rule ccontr)
    assume "\<not> k < 10"
    then have "(2 :: nat) ^ 10 dvd 2 ^ k" by (intro le_imp_power_dvd) simp
    then have "2 ^ 10 dvd ?n" unfolding n by (rule dvd_mult2)
    then show False using assms(4) by simp
  qed
  have d: "2 ^ k dvd p" by (simp add: p_def)
  have b: "buddy_pfn p k = ?n" using pn buddy_pfn_aligned [OF d] by (simp add: p_def)
  have d12: "(2 :: nat) ^ k dvd 2 ^ 12" using k by (intro le_imp_power_dvd) simp
  define i where "i = zone_of p"
  have i: "i < 3" "zone_lo i \<le> p" "?n < zone_hi s i"
  proof -
    have "?n < 4096 \<or> 4096 \<le> p"
    proof (rule ccontr)
      assume a: "\<not> (?n < 4096 \<or> 4096 \<le> p)"
      have "2 ^ k dvd 4096 - p" using d d12 by (intro dvd_diff_nat) simp_all
      then have "2 ^ k \<le> 4096 - p" using a by (intro dvd_imp_le) simp_all
      then have "?n = 4096" using a pn by linarith
      then show False using assms(4) by simp
    qed
    then show "i < 3" "zone_lo i \<le> p" "?n < zone_hi s i" using assms(3) pn by (auto simp: i_def zone_of_def zone_lo_def zone_hi_def)
  qed
  have pl: "p < ?n" using pn by (simp flip: pn)
  have zi: "zone_id (page_array s ! p) = i" using zones_okD(6) [OF assms(1) pl] by (simp add: i_def)
  define pages1 where "pages1 = (if k > 0 then clear_compound p k (page_array s) else page_array s)"
  define pages2 where "pages2 = pages1[p := page_clear_flag (pages1 ! p) PG_KERNEL]"
  have len: "length pages2 = ?n" using same_pages_clear [of p k "page_array s"] pn by (simp add: pages2_def pages1_def same_pages_def)
  have "page_is_buddy pages2 (zones s ! i) ?n k = None"
    using zones_okD(4,5) [OF assms(1) i(1)] i pl len by (simp add: page_is_buddy_def)
  then have "buddy_free_pages (pages2, zones s ! i) p k = None"
    using k b by (simp add: buddy_free_pages_def MAX_ORDER_def buddy_coalesce.simps [of _ p k])
  then have "free_pages_pmm s (Some p) k = None"
    using assms(2) zi by (simp add: free_pages_pmm_def pages1_def [symmetric] pages2_def [symmetric] Let_def)
  moreover have "pregion s p k" using i pn by (auto simp: pregion_def intro!: exI [of _ i])
  ultimately show ?thesis using k d pn by (intro exI [of _ p] exI [of _ k]) (simp add: MAX_ORDER_def)
qed

definition ex_zone :: "nat \<Rightarrow> nat \<Rightarrow> zone" where
  "ex_zone lo hi = buddy_init_zone \<lparr>start_pfn = lo, end_pfn = hi, present_pages = 0, free_pages = 0, free_areas = [], alloc_count = 0, free_count = 0\<rparr>"

definition ex_odd :: pmm_state where
  "ex_odd = pmm_bss\<lparr>page_array := replicate 1001 ex_page, zones := [ex_zone 0 4096, ex_zone 4096 1048576, ex_zone 1048576 1001], initialized := True\<rparr>"

theorem pmm_odd_end_faults_witness:
  "length (page_array ex_odd) = 1001 \<and> (\<exists>p k. p + 2 ^ k = 1001 \<and> pregion ex_odd p k \<and> free_pages_pmm ex_odd (Some p) k = None)"
proof -
  have z: "zone_ok (replicate 1001 ex_page, ex_zone lo hi)" "start_pfn (ex_zone lo hi) = lo" "end_pfn (ex_zone lo hi) = hi" for lo hi
    unfolding ex_zone_def by (rule init_zone_ok) (simp_all add: ex_page_def buddy_init_zone_def)
  have l: "length (page_array ex_odd) = 1001" by (simp add: ex_odd_def)
  have "zones_ok ex_odd" unfolding zones_ok_def l
    using z by (auto simp: ex_odd_def zone_lo_def zone_hi_def zone_of_def ex_page_def numeral_3_eq_3 less_Suc_eq)
  moreover have "initialized ex_odd" by (simp add: ex_odd_def)
  ultimately show ?thesis using pmm_odd_end_faults [of ex_odd] by (simp add: l) blast
qed

text \<open>
  C23: Completeness: as long as the counters of the zones do not report fewer frames than are free,
  \<^verbatim>\<open>alloc_pages\<close> returns \<^verbatim>\<open>NULL\<close> exactly when no zone that the flags permit has a free block of the
  requested order or more.
\<close>

theorem pmm_alloc_complete:
  assumes "pmm_ok s" "not_under s"
  shows "(\<exists>s'. alloc_pages s k g = Some (s', None)) \<longleftrightarrow>
    \<not> (\<exists>i p j. i \<le> start_zone g \<and> (p, j) \<in> blocks (zones s ! i) \<and> k \<le> j)"
proof
  assume "\<exists>s'. alloc_pages s k g = Some (s', None)"
  then obtain s' where s': "alloc_pages s k g = Some (s', None)" by blast
  have False if "i \<le> start_zone g" "(p, j) \<in> blocks (zones s ! i)" "k \<le> j" for i p j
    using alloc_complete [OF assms that] s' by simp
  then show "\<not> (\<exists>i p j. i \<le> start_zone g \<and> (p, j) \<in> blocks (zones s ! i) \<and> k \<le> j)" by blast
next
  assume none: "\<not> (\<exists>i p j. i \<le> start_zone g \<and> (p, j) \<in> blocks (zones s ! i) \<and> k \<le> j)"
  have "\<exists>s'. try_zones s k n = Some (s', None)" if "n \<le> Suc (start_zone g)" for n
    using that
  proof (induction n)
    case (Suc n)
    have n: "n < 3" using Suc.prems start_zone_le [of g] by simp
    from pmm_mem_ok [OF assms(1) n] show ?case
    proof (rule alloc_cases [where k = k])
      fix m p c assume "(p, c) \<in> blocks (snd (page_array s, zones s ! n))" "k \<le> c"
      then show ?thesis using none Suc.prems by auto
    qed (use Suc in \<open>auto simp: Let_def\<close>)
  qed simp
  from this [OF order_refl] obtain s' where "try_zones s k (Suc (start_zone g)) = Some (s', None)" by blast
  then have "alloc_pages s k g = Some (s', None)"
    using assms(1) unfolding alloc_pages_def pmm_ok_def by (simp del: try_zones.simps)
  then show "\<exists>s'. alloc_pages s k g = Some (s', None)" by blast
qed

theorem pmm_alloc_complete_witness:
  "\<exists>s i p j. pmm_init pmm_bss (Some ex_memmap) = Some s \<and> i \<le> start_zone GFP_KERNEL \<and> (p, j) \<in> blocks (zones s ! i) \<and>
     (\<nexists>s'. alloc_pages s j GFP_KERNEL = Some (s', None))"
proof -
  have z: "start_zone GFP_KERNEL = 2" by (simp add: start_zone_def zone_const)
  obtain s where s: "pmm_init pmm_bss (Some ex_memmap) = Some s" "pmm_ok s" "not_under s" "1000 \<in> pavail s"
    by (rule ex_start)
  then obtain i p j where i: "i < 3" "(p, j) \<in> blocks (zones s ! i)" by (auto simp: pavail_def free_frames_def)
  then have "i \<le> start_zone GFP_KERNEL" using z by simp
  then show ?thesis using pmm_alloc_complete [OF s(2,3), of j GFP_KERNEL] s(1) i(2) by blast
qed

text \<open>
  C27: The flags are honoured: a block allocated with \<^verbatim>\<open>GFP_DMA\<close> ends below 16 MiB and with \<^verbatim>\<open>GFP_DMA32\<close>
  below 4 GiB; with \<^verbatim>\<open>GFP_ZERO\<close> every byte of the block is zero; and no byte of physical
  memory outside the block changes.
\<close>

theorem pmm_alloc_flags:
  assumes "pmm_ok s" "alloc_pages s k g = Some (s', Some p)"
  shows "(g AND GFP_DMA \<noteq> 0 \<longrightarrow> (p + 2 ^ k) * 4096 \<le> 16 * 1024 * 1024) \<and>
    (g AND GFP_DMA32 \<noteq> 0 \<longrightarrow> (p + 2 ^ k) * 4096 \<le> 4 * 1024 * 1024 * 1024) \<and>
    (g AND GFP_ZERO \<noteq> 0 \<longrightarrow> (\<forall>a. p * 4096 \<le> a \<and> a < (p + 2 ^ k) * 4096 \<longrightarrow> phys_mem s' a = 0)) \<and>
    (\<forall>a. a < p * 4096 \<or> (p + 2 ^ k) * 4096 \<le> a \<longrightarrow> phys_mem s' a = phys_mem s a)"
proof -
  from alloc_pages_ok [OF assms(1), of k g] assms(2) have g: "got s s' k (Suc (start_zone g)) (Some p)"
    and m: "phys_mem s' = (if g AND GFP_ZERO \<noteq> 0 then zero_block p k (phys_mem s) else phys_mem s)" by auto
  obtain i where i: "i \<le> start_zone g" "p + 2 ^ k \<le> zone_hi s i" using g by (auto simp: got_def less_Suc_eq_le)
  have "(p + 2 ^ k) * 4096 \<le> 16 * 1024 * 1024" if "g AND GFP_DMA \<noteq> 0"
    using i that by (simp add: start_zone_def ZONE_DMA_def zone_hi_def)
  moreover have "p + 2 ^ k \<le> 1048576" if "g AND GFP_DMA32 \<noteq> 0"
    using i that by (auto simp: start_zone_def ZONE_DMA_def ZONE_DMA32_def zone_hi_def split: if_splits)
  then have "(p + 2 ^ k) * 4096 \<le> 4 * 1024 * 1024 * 1024" if "g AND GFP_DMA32 \<noteq> 0" using that by simp
  ultimately show ?thesis unfolding m zero_block_def by auto
qed

theorem pmm_alloc_flags_witness:
  "\<exists>s s' p. pmm_init pmm_bss (Some ex_memmap) = Some s \<and> alloc_pages s 0 GFP_ZERO = Some (s', Some p) \<and>
     phys_mem s' (p * 4096) = 0"
proof -
  have z: "start_zone GFP_ZERO = 2" "GFP_ZERO AND GFP_ZERO \<noteq> 0" by (simp_all add: start_zone_def zone_const)
  obtain s s' p where s: "pmm_init pmm_bss (Some ex_memmap) = Some s" "pmm_ok s" "alloc_pages s 0 GFP_ZERO = Some (s', Some p)"
    using ex_alloc [of pmm_bss GFP_ZERO] z by metis
  then show ?thesis using pmm_alloc_flags [OF s(2,3)] z(2) by auto
qed

text \<open>
  C26: Virtual addresses and pages convert both ways: the address that \<^verbatim>\<open>simple_get_free_pages\<close> returns, if
  not \<^verbatim>\<open>NULL\<close>, names the allocated block again in \<^verbatim>\<open>simple_free_pages\<close>, which gives back exactly
  the frames that were taken.
\<close>

theorem pmm_virt_roundtrip:
  assumes ok: "pmm_ok s" and g: "simple_get_free_pages s k = Some (s', addr)" and nz: "addr \<noteq> 0"
  shows "\<exists>p s''. virt_to_page s' addr = Some p \<and> block p k \<subseteq> pavail s \<and> pavail s' = pavail s - block p k \<and>
    simple_free_pages s' addr k = Some s'' \<and> pmm_ok s'' \<and> pavail s'' = pavail s"
proof -
  from alloc_pages_ok [OF ok, of k GFP_KERNEL] obtain s1 r where
    a: "alloc_pages s k GFP_KERNEL = Some (s1, r)" "got s s1 k (Suc (start_zone GFP_KERNEL)) r" by blast
  with g nz obtain p where p: "r = Some p" "s' = s1" "addr = phys_to_virt s1 (PFN_TO_PHYS p)"
    by (auto simp: simple_get_free_pages_def get_free_pages_def split: option.splits)
  have o: "pmm_ok s'" "2 ^ k dvd p" "k < MAX_ORDER" "p + 2 ^ k \<le> length (page_array s')" "block p k \<subseteq> pavail s"
    "pavail s' = pavail s - block p k"
    using a(2) p unfolding got_def pmm_frame_def by auto
  have reg: "pregion s' p k" using got_region a(2) p by blast
  have "(0 :: nat) < 2 ^ k" by simp
  then have pl: "p < length (page_array s')" using o(4) by linarith
  moreover have "length (page_array s') \<le> 2 ^ 52" using o(1) zones_okD(2) by (simp add: pmm_ok_def)
  ultimately have "unat (PFN_TO_PHYS p) = p * 4096" by (intro unat_PFN_TO_PHYS) simp
  then have v: "virt_to_page s' addr = Some p"
    using pl p(2,3) by (simp add: virt_to_page_def virt_to_phys_def phys_to_virt_def PFN_word)
  obtain s'' where "free_pages_pmm s' (Some p) k = Some s''" "pmm_ok s''" "pavail s'' = pavail s' \<union> block p k"
    using free_pages_ok [OF o(1,3,2) reg] o(6) by blast
  then show ?thesis using v o(5,6) nz by (intro exI [of _ p] exI [of _ s'']) (auto simp: simple_free_pages_def)
qed

theorem pmm_virt_roundtrip_witness:
  "\<exists>s s' s'' addr. pmm_init pmm_bss (Some ex_memmap) = Some s \<and> simple_get_free_pages s 0 = Some (s', addr) \<and> addr \<noteq> 0 \<and>
     simple_free_pages s' addr 0 = Some s'' \<and> pavail s'' = pavail s"
proof -
  have z: "start_zone GFP_KERNEL = 2" by (simp add: start_zone_def zone_const)
  obtain s s' p where s: "pmm_init pmm_bss (Some ex_memmap) = Some s" "pmm_ok s" "hhdm_offset s = 0xFFFF800000000000" "length (page_array s) = 1024"
    "alloc_pages s 0 GFP_KERNEL = Some (s', Some p)" using ex_alloc [of pmm_bss GFP_KERNEL] z by metis
  have g: "got s s' 0 (Suc (start_zone GFP_KERNEL)) (Some p)" using alloc_pages_ok [OF s(2), of 0 GFP_KERNEL] s(5) by auto
  let ?addr = "phys_to_virt s' (PFN_TO_PHYS p)"
  have get: "simple_get_free_pages s 0 = Some (s', ?addr)"
    using s(5) by (simp add: simple_get_free_pages_def get_free_pages_def)
  have p: "p < 1024" "hhdm_offset s' = 0xFFFF800000000000" using g s(3,4) by (auto simp: got_def pmm_frame_def)
  have "unat ?addr = p * 4096 + 0xFFFF800000000000"
    using p unat_PFN_TO_PHYS [of p] unfolding phys_to_virt_def by (subst unat_add_u64) simp_all
  then have "?addr \<noteq> 0" by (metis add_is_0 unat_0 zero_neq_numeral)
  from pmm_virt_roundtrip [OF s(2) get this] this get s(1) show ?thesis by blast
qed

end
