(* ===== verification/Msg_Tag.thy ===== *)
theory Msg_Tag
  imports Ocean_Prelude
begin

text \<open>
  The bit layouts that kernel and user space share: the message tag, packed and unpacked by the
  macros of \<^verbatim>\<open>kernel/include/ocean/ipc.h\<close> in the kernel and by those of
  \<^verbatim>\<open>include/ocean/ipc_proto.h\<close> in user programs, and the reference to a slice of the IPC window.
\<close>

subsection \<open>Message tags\<close>

definition MSG_TAG_LABEL_SHIFT :: nat where "MSG_TAG_LABEL_SHIFT = 44"
definition MSG_TAG_LABEL_MASK :: u64 where "MSG_TAG_LABEL_MASK = 0xFFFFF"
definition MSG_TAG_LENGTH_SHIFT :: nat where "MSG_TAG_LENGTH_SHIFT = 38"
definition MSG_TAG_LENGTH_MASK :: u64 where "MSG_TAG_LENGTH_MASK = 0x3F"
definition MSG_TAG_CAPS_SHIFT :: nat where "MSG_TAG_CAPS_SHIFT = 34"
definition MSG_TAG_CAPS_MASK :: u64 where "MSG_TAG_CAPS_MASK = 0xF"
definition MSG_TAG_FLAGS_SHIFT :: nat where "MSG_TAG_FLAGS_SHIFT = 26"
definition MSG_TAG_FLAGS_MASK :: u64 where "MSG_TAG_FLAGS_MASK = 0xFF"
definition MSG_TAG_ERROR_SHIFT :: nat where "MSG_TAG_ERROR_SHIFT = 10"
definition MSG_TAG_ERROR_MASK :: u64 where "MSG_TAG_ERROR_MASK = 0xFFFF"

definition MSG_TAG :: "u64 \<Rightarrow> u64 \<Rightarrow> u64 \<Rightarrow> u64 \<Rightarrow> u64" where
  "MSG_TAG label len caps flags =
     push_bit MSG_TAG_LABEL_SHIFT label OR push_bit MSG_TAG_LENGTH_SHIFT len OR
     push_bit MSG_TAG_CAPS_SHIFT caps OR push_bit MSG_TAG_FLAGS_SHIFT flags"

definition MSG_LABEL :: "u64 \<Rightarrow> u64" where
  "MSG_LABEL tag = drop_bit MSG_TAG_LABEL_SHIFT tag AND MSG_TAG_LABEL_MASK"

definition MSG_LENGTH :: "u64 \<Rightarrow> u64" where
  "MSG_LENGTH tag = drop_bit MSG_TAG_LENGTH_SHIFT tag AND MSG_TAG_LENGTH_MASK"

definition MSG_CAPS :: "u64 \<Rightarrow> u64" where
  "MSG_CAPS tag = drop_bit MSG_TAG_CAPS_SHIFT tag AND MSG_TAG_CAPS_MASK"

definition MSG_FLAGS :: "u64 \<Rightarrow> u64" where
  "MSG_FLAGS tag = drop_bit MSG_TAG_FLAGS_SHIFT tag AND MSG_TAG_FLAGS_MASK"

definition MSG_ERROR :: "u64 \<Rightarrow> u64" where
  "MSG_ERROR tag = drop_bit MSG_TAG_ERROR_SHIFT tag AND MSG_TAG_ERROR_MASK"

definition MSG_SET_ERROR :: "u64 \<Rightarrow> u64 \<Rightarrow> u64" where
  "MSG_SET_ERROR tag err =
     (tag AND NOT (push_bit MSG_TAG_ERROR_SHIFT MSG_TAG_ERROR_MASK)) OR push_bit MSG_TAG_ERROR_SHIFT err"

text \<open>The user space macros.\<close>

definition IPC_MAKE_TAG :: "u64 \<Rightarrow> u64 \<Rightarrow> u64 \<Rightarrow> u64 \<Rightarrow> u64" where
  "IPC_MAKE_TAG label len caps flags =
     push_bit 44 label OR push_bit 38 len OR push_bit 34 caps OR push_bit 26 flags"

definition IPC_TAG_LABEL :: "u64 \<Rightarrow> u64" where "IPC_TAG_LABEL tag = drop_bit 44 tag AND 0xFFFFF"
definition IPC_TAG_LENGTH :: "u64 \<Rightarrow> u64" where "IPC_TAG_LENGTH tag = drop_bit 38 tag AND 0x3F"
definition IPC_TAG_CAPS :: "u64 \<Rightarrow> u64" where "IPC_TAG_CAPS tag = drop_bit 34 tag AND 0xF"
definition IPC_TAG_FLAGS :: "u64 \<Rightarrow> u64" where "IPC_TAG_FLAGS tag = drop_bit 26 tag AND 0xFF"
definition IPC_TAG_ERROR :: "u64 \<Rightarrow> u64" where "IPC_TAG_ERROR tag = drop_bit 10 tag AND 0xFFFF"

subsection \<open>Window slices\<close>

definition OCEAN_IPC_WINDOW_SIZE :: u64 where "OCEAN_IPC_WINDOW_SIZE = 4096"

definition IPC_SLICE_PACK :: "u32 \<Rightarrow> u32 \<Rightarrow> u64" where
  "IPC_SLICE_PACK off len = push_bit 32 (ucast off) OR ucast len"

definition IPC_SLICE_OFF :: "u64 \<Rightarrow> u32" where "IPC_SLICE_OFF packed = ucast (drop_bit 32 packed)"
definition IPC_SLICE_LEN :: "u64 \<Rightarrow> u32" where "IPC_SLICE_LEN packed = ucast packed"

definition ipc_slice_valid :: "u32 \<Rightarrow> u32 \<Rightarrow> bool" where
  "ipc_slice_valid off len \<longleftrightarrow> \<not> (ucast off + ucast len :: u64) > OCEAN_IPC_WINDOW_SIZE"

subsection \<open>Fields\<close>

lemmas tag_shift = MSG_TAG_LABEL_SHIFT_def MSG_TAG_LENGTH_SHIFT_def MSG_TAG_CAPS_SHIFT_def
  MSG_TAG_FLAGS_SHIFT_def MSG_TAG_ERROR_SHIFT_def

lemma tag_mask:
  "MSG_TAG_LABEL_MASK = mask 20" "MSG_TAG_LENGTH_MASK = mask 6" "MSG_TAG_CAPS_MASK = mask 4"
  "MSG_TAG_FLAGS_MASK = mask 8" "MSG_TAG_ERROR_MASK = mask 16"
  by (simp_all add: MSG_TAG_LABEL_MASK_def MSG_TAG_LENGTH_MASK_def MSG_TAG_CAPS_MASK_def
    MSG_TAG_FLAGS_MASK_def MSG_TAG_ERROR_MASK_def mask_eq_exp_minus_1)

lemmas tag_fields = MSG_TAG_def MSG_LABEL_def MSG_LENGTH_def MSG_CAPS_def MSG_FLAGS_def MSG_ERROR_def
  MSG_SET_ERROR_def tag_shift tag_mask

lemma bit_bound:
  assumes "x < 2 ^ k" "k < 64" "k \<le> n"
  shows "\<not> bit (x :: u64) n"
proof -
  have "unat x < 2 ^ k" using assms(1,2) unat_u64_pow2 [of k] by (simp add: word_less_nat_alt)
  also have "(2 :: nat) ^ k \<le> 2 ^ n" using assms(3) by (simp add: power_increasing)
  finally have "\<not> bit (unat x) n" by (simp add: bit_iff_odd)
  then show ?thesis by (auto simp: bit_unsigned_iff dest: bit_imp_le_length)
qed

text \<open>Bit \<open>n\<close> of a tag with an error code, by field.\<close>

lemma bit_tag:
  assumes "label < 2 ^ 20" "len < 2 ^ 6" "caps < 2 ^ 4" "flags < 2 ^ 8" "err < 2 ^ 16"
  shows "bit (MSG_SET_ERROR (MSG_TAG label len caps flags) err) n \<longleftrightarrow>
    (if 44 \<le> n then n < 64 \<and> bit label (n - 44) else if 38 \<le> n then bit len (n - 38)
     else if 34 \<le> n then bit caps (n - 34) else if 26 \<le> n then bit flags (n - 26)
     else 10 \<le> n \<and> bit err (n - 10))"
proof -
  note nb = bit_bound [OF assms(1)] bit_bound [OF assms(2)] bit_bound [OF assms(3)] bit_bound [OF assms(4)]
    bit_bound [OF assms(5)]
  consider "44 \<le> n" | "38 \<le> n" "n < 44" | "34 \<le> n" "n < 38" | "26 \<le> n" "n < 34" | "n < 26" by linarith
  then show ?thesis by cases (auto simp: tag_fields bit_simps nb)
qed

lemma slice_valid_iff: "ipc_slice_valid off len \<longleftrightarrow> unat off + unat len \<le> 4096"
proof -
  have "unat off + unat len < 2 ^ 64" using unat_u32_less [of off] unat_u32_less [of len] by simp
  then have "unat (ucast off + ucast len :: u64) = unat off + unat len"
    by (simp add: unat_word_ariths unsigned_ucast_eq take_bit_nat_eq_self)
  then show ?thesis by (simp add: ipc_slice_valid_def OCEAN_IPC_WINDOW_SIZE_def word_less_nat_alt not_less)
qed

subsection \<open>Properties\<close>

lemma tag_fields_back:
  assumes "label < 2 ^ 20" "len < 2 ^ 6" "caps < 2 ^ 4" "flags < 2 ^ 8" "err < 2 ^ 16"
  shows "MSG_LABEL (MSG_SET_ERROR (MSG_TAG label len caps flags) err) = label \<and>
    MSG_LENGTH (MSG_SET_ERROR (MSG_TAG label len caps flags) err) = len \<and>
    MSG_CAPS (MSG_SET_ERROR (MSG_TAG label len caps flags) err) = caps \<and>
    MSG_FLAGS (MSG_SET_ERROR (MSG_TAG label len caps flags) err) = flags \<and>
    MSG_ERROR (MSG_SET_ERROR (MSG_TAG label len caps flags) err) = err \<and>
    MSG_ERROR (MSG_TAG label len caps flags) = 0"
proof -
  note nb = bit_bound [OF assms(1)] bit_bound [OF assms(2)] bit_bound [OF assms(3)] bit_bound [OF assms(4)]
    bit_bound [OF assms(5)]
  note bt = bit_tag [OF assms] and eq = bit_word_eqI [where 'a = 64]
  let ?t = "MSG_SET_ERROR (MSG_TAG label len caps flags) err"
  have lt: "bit label n \<Longrightarrow> n < 20" "bit len n \<Longrightarrow> n < 6" "bit caps n \<Longrightarrow> n < 4" "bit flags n \<Longrightarrow> n < 8"
    "bit err n \<Longrightarrow> n < 16" for n using nb [of n] by (simp_all add: not_le [symmetric]) blast+
  have "bit (MSG_LABEL ?t) n = bit label n" "bit (MSG_LENGTH ?t) n = bit len n" "bit (MSG_CAPS ?t) n = bit caps n"
    "bit (MSG_FLAGS ?t) n = bit flags n" "bit (MSG_ERROR ?t) n = bit err n" for n
    using lt [of n] unfolding MSG_LABEL_def MSG_LENGTH_def MSG_CAPS_def MSG_FLAGS_def MSG_ERROR_def tag_shift tag_mask
    by (auto simp: bit_simps bt)
  moreover have "MSG_ERROR (MSG_TAG label len caps flags) = 0"
    by (rule bit_word_eqI) (auto simp: tag_fields bit_simps nb)
  ultimately show ?thesis by (simp add: eq)
qed

lemma tag_headers_agree:
  "IPC_MAKE_TAG label len caps flags = MSG_TAG label len caps flags \<and> IPC_TAG_LABEL tag = MSG_LABEL tag \<and>
   IPC_TAG_LENGTH tag = MSG_LENGTH tag \<and> IPC_TAG_CAPS tag = MSG_CAPS tag \<and> IPC_TAG_FLAGS tag = MSG_FLAGS tag \<and>
   IPC_TAG_ERROR tag = MSG_ERROR tag"
  by (simp add: IPC_MAKE_TAG_def IPC_TAG_LABEL_def IPC_TAG_LENGTH_def IPC_TAG_CAPS_def IPC_TAG_FLAGS_def IPC_TAG_ERROR_def
    MSG_TAG_def MSG_LABEL_def MSG_LENGTH_def MSG_CAPS_def MSG_FLAGS_def MSG_ERROR_def tag_shift
    MSG_TAG_LABEL_MASK_def MSG_TAG_LENGTH_MASK_def MSG_TAG_CAPS_MASK_def MSG_TAG_FLAGS_MASK_def MSG_TAG_ERROR_MASK_def)

text \<open>
  C40: A tag carries its fields: label, length, capability count and flags that fit their widths
  (20, 6, 4 and 8 bits) are read back from the tag that \<^verbatim>\<open>MSG_TAG\<close> packs, the error field starts as
  0, and \<^verbatim>\<open>MSG_SET_ERROR\<close> of a 16-bit code sets that field and leaves the four others as they are. And kernel and user space
  agree on the tag: the macros of \<^verbatim>\<open>ipc_proto.h\<close> pack any fields and unpack any tag exactly as those of \<^verbatim>\<open>ipc.h\<close> do.
\<close>

theorem msg_tag_roundtrip:
  "(label < 2 ^ 20 \<and> len < 2 ^ 6 \<and> caps < 2 ^ 4 \<and> flags < 2 ^ 8 \<and> err < 2 ^ 16 \<longrightarrow>
      MSG_LABEL (MSG_SET_ERROR (MSG_TAG label len caps flags) err) = label \<and>
      MSG_LENGTH (MSG_SET_ERROR (MSG_TAG label len caps flags) err) = len \<and>
      MSG_CAPS (MSG_SET_ERROR (MSG_TAG label len caps flags) err) = caps \<and>
      MSG_FLAGS (MSG_SET_ERROR (MSG_TAG label len caps flags) err) = flags \<and>
      MSG_ERROR (MSG_SET_ERROR (MSG_TAG label len caps flags) err) = err \<and>
      MSG_ERROR (MSG_TAG label len caps flags) = 0) \<and>
   IPC_MAKE_TAG label len caps flags = MSG_TAG label len caps flags \<and> IPC_TAG_LABEL tag = MSG_LABEL tag \<and>
   IPC_TAG_LENGTH tag = MSG_LENGTH tag \<and> IPC_TAG_CAPS tag = MSG_CAPS tag \<and> IPC_TAG_FLAGS tag = MSG_FLAGS tag \<and>
   IPC_TAG_ERROR tag = MSG_ERROR tag"
  using tag_fields_back [of label len caps flags err] tag_headers_agree by blast

theorem msg_tag_roundtrip_witness: "MSG_LABEL (MSG_TAG 0x300 4 0 8) = 0x300 \<and> MSG_ERROR (MSG_SET_ERROR (MSG_TAG 0x300 4 0 8) 7) = 7"
  using msg_tag_roundtrip [of "0x300" 4 0 8 0] msg_tag_roundtrip [of "0x300" 4 0 8 7]
  by (simp add: MSG_SET_ERROR_def MSG_TAG_def tag_shift MSG_TAG_ERROR_MASK_def MSG_LABEL_def MSG_TAG_LABEL_MASK_def)

text \<open>
  C39: A slice is checked without overflow: packing and unpacking a slice reference is the identity, and
  \<^verbatim>\<open>ipc_slice_valid\<close> accepts exactly the offsets and lengths whose range lies in the 4096 bytes of
  the window, for all 32-bit values.
\<close>

theorem ipc_slice_exact:
  "IPC_SLICE_OFF (IPC_SLICE_PACK off len) = off \<and> IPC_SLICE_LEN (IPC_SLICE_PACK off len) = len \<and>
   (ipc_slice_valid off len \<longleftrightarrow> unat off + unat len \<le> 4096)"
proof (intro conjI)
  show "IPC_SLICE_OFF (IPC_SLICE_PACK off len) = off"
    unfolding IPC_SLICE_OFF_def IPC_SLICE_PACK_def
    by (rule bit_word_eqI) (auto simp: bit_simps dest: bit_imp_le_length)
  show "IPC_SLICE_LEN (IPC_SLICE_PACK off len) = len"
    unfolding IPC_SLICE_LEN_def IPC_SLICE_PACK_def by (rule bit_word_eqI) (auto simp: bit_simps)
qed (rule slice_valid_iff)

end
