(* ===== verification/Endpoint.thy ===== *)
theory Endpoint
  imports Sched Msg_Tag "HOL-Library.Monad_Syntax"
begin

text \<open>
  IPC endpoints, \<^verbatim>\<open>kernel/ipc/endpoint.c\<close>: the global table, reference counts, and destruction with
  its wake-up of all waiters. The state is that of the whole IPC subsystem on top of the scheduler.
  Endpoints and wait objects live in heaps that map addresses to objects, so that an access to a
  freed object is the result \<open>None\<close>; the address that \<^verbatim>\<open>kmalloc\<close> returns, or its failure, is an
  argument. The queues and lists hold addresses, in the order of the links.
\<close>

subsection \<open>State\<close>

definition EP_FLAG_BOUND :: u32 where "EP_FLAG_BOUND = 1"
definition EP_FLAG_DEAD :: u32 where "EP_FLAG_DEAD = 8"
definition EP_FLAG_LISTED :: u32 where "EP_FLAG_LISTED = 16"

definition EP_WKE_MIN :: u32 where "EP_WKE_MIN = 1"
definition EP_WKE_MAX :: u32 where "EP_WKE_MAX = 15"

definition IPC_OK :: int where "IPC_OK = 0"
definition IPC_ERR_INVALID :: int where "IPC_ERR_INVALID = 1"
definition IPC_ERR_DEAD :: int where "IPC_ERR_DEAD = 2"
definition IPC_ERR_OVERFLOW :: int where "IPC_ERR_OVERFLOW = 5"
definition IPC_ERR_NOPARTNER :: int where "IPC_ERR_NOPARTNER = 6"
definition IPC_ERR_BUSY :: int where "IPC_ERR_BUSY = 7"

lemmas ipc_err = IPC_OK_def IPC_ERR_INVALID_def IPC_ERR_DEAD_def IPC_ERR_OVERFLOW_def IPC_ERR_NOPARTNER_def IPC_ERR_BUSY_def

record ipc_message =
  m_tag :: u64
  m_regs :: "u64 list"
  m_buffer :: "u8 list option"
  m_nr_caps :: int

record ipc_endpoint =
  ep_id :: u32
  ep_flags :: u32
  send_queue :: "nat list"
  recv_queue :: "nat list"
  refcount :: int
  ep_owner :: "nat option"
  bound_thread :: "nat option"
  msgs_sent :: u64
  msgs_received :: u64

text \<open>The fields \<^verbatim>\<open>msg\<close> and \<^verbatim>\<open>partner\<close> of a wait object are never \<^verbatim>\<open>NULL\<close> where the code creates one.\<close>

record ipc_wait =
  w_endpoint :: nat
  w_msg :: nat
  w_partner :: nat
  w_operation :: int
  w_result :: int

record ipc_state =
  sched :: sched_state
  eps :: "nat \<Rightarrow> ipc_endpoint option"
  endpoint_list :: "nat list"
  owned_endpoints :: "nat \<Rightarrow> nat list"
  next_endpoint_id :: u32
  waits :: "nat \<Rightarrow> ipc_wait option"
  msgs :: "nat \<Rightarrow> ipc_message"
  windows :: "nat \<Rightarrow> u8 list option"
  ipc_total_messages :: u64
  ipc_fast_path_count :: u64

definition upd_ep :: "ipc_state \<Rightarrow> nat \<Rightarrow> (ipc_endpoint \<Rightarrow> ipc_endpoint) \<Rightarrow> ipc_state option" where
  "upd_ep s e f = do { ep \<leftarrow> eps s e; Some (s\<lparr>eps := (eps s)(e := Some (f ep))\<rparr>) }"

abbreviation ep_dead :: "ipc_endpoint \<Rightarrow> bool" where
  "ep_dead ep \<equiv> ep_flags ep AND EP_FLAG_DEAD \<noteq> 0"

abbreviation ep_listed :: "ipc_endpoint \<Rightarrow> bool" where
  "ep_listed ep \<equiv> ep_flags ep AND EP_FLAG_LISTED \<noteq> 0"

subsection \<open>Creation and lookup\<close>

definition alloc_endpoint_id :: "ipc_state \<Rightarrow> ipc_state \<times> u32" where
  "alloc_endpoint_id s =
     (let n = (if next_endpoint_id s \<le> EP_WKE_MAX then EP_WKE_MAX + 1 else next_endpoint_id s)
      in (s\<lparr>next_endpoint_id := n + 1\<rparr>, n))"

definition link_to_owner :: "ipc_state \<Rightarrow> nat \<Rightarrow> ipc_state option" where
  "link_to_owner s e = do {
     ep \<leftarrow> eps s e;
     Some (case ep_owner ep of
             None \<Rightarrow> s
           | Some p \<Rightarrow> s\<lparr>owned_endpoints := (owned_endpoints s)(p := owned_endpoints s p @ [e])\<rparr>)
   }"

definition unlink_from_owner :: "ipc_state \<Rightarrow> nat \<Rightarrow> ipc_state option" where
  "unlink_from_owner s e = do {
     ep \<leftarrow> eps s e;
     Some (case ep_owner ep of
             None \<Rightarrow> s
           | Some p \<Rightarrow> s\<lparr>owned_endpoints := (owned_endpoints s)(p := remove1 e (owned_endpoints s p))\<rparr>)
   }"

text \<open>The walk over the global list, which reads every endpoint it passes.\<close>

fun find_endpoint :: "ipc_state \<Rightarrow> u32 \<Rightarrow> nat list \<Rightarrow> nat option option" where
  "find_endpoint s eid [] = Some None"
| "find_endpoint s eid (e # es) = do {
     ep \<leftarrow> eps s e;
     if ep_id ep = eid \<and> \<not> ep_dead ep then Some (Some e) else find_endpoint s eid es
   }"

definition find_endpoint_locked :: "ipc_state \<Rightarrow> u32 \<Rightarrow> nat option option" where
  "find_endpoint_locked s eid = find_endpoint s eid (endpoint_list s)"

definition init_endpoint :: "ipc_state \<Rightarrow> nat option \<Rightarrow> u32 \<Rightarrow> u32 \<Rightarrow> nat option \<Rightarrow> ipc_state" where
  "init_endpoint s owner eid flags a =
     (case a of
        None \<Rightarrow> s
      | Some e \<Rightarrow> s\<lparr>eps := (eps s)(e := Some \<lparr>ep_id = eid, ep_flags = flags OR EP_FLAG_LISTED, send_queue = [],
           recv_queue = [], refcount = 1, ep_owner = owner, bound_thread = None, msgs_sent = 0, msgs_received = 0\<rparr>)\<rparr>)"

definition endpoint_create :: "ipc_state \<Rightarrow> nat option \<Rightarrow> u32 \<Rightarrow> nat option \<Rightarrow> (ipc_state \<times> nat option) option" where
  "endpoint_create s owner flags a =
     (case alloc_endpoint_id s of (s1, eid) \<Rightarrow>
        case a of
          None \<Rightarrow> Some (s1, None)
        | Some e \<Rightarrow> do {
            let s2 = init_endpoint s1 owner eid flags a;
            s3 \<leftarrow> link_to_owner (s2\<lparr>endpoint_list := e # endpoint_list s2\<rparr>) e;
            Some (s3, Some e)
          })"

definition endpoint_create_well_known ::
    "ipc_state \<Rightarrow> nat option \<Rightarrow> u32 \<Rightarrow> u32 \<Rightarrow> nat option \<Rightarrow> (ipc_state \<times> nat option) option" where
  "endpoint_create_well_known s owner eid flags a =
     (if eid < EP_WKE_MIN \<or> eid > EP_WKE_MAX then Some (s, None)
      else case a of
        None \<Rightarrow> Some (s, None)
      | Some e \<Rightarrow> do {
          let s1 = init_endpoint s owner eid flags a;
          found \<leftarrow> find_endpoint_locked s1 eid;
          if found \<noteq> None then Some (s1\<lparr>eps := (eps s1)(e := None)\<rparr>, None)
          else do {
            s2 \<leftarrow> link_to_owner (s1\<lparr>endpoint_list := e # endpoint_list s1\<rparr>) e;
            Some (s2, Some e)
          }
        })"

definition endpoint_get :: "ipc_state \<Rightarrow> u32 \<Rightarrow> (ipc_state \<times> nat option) option" where
  "endpoint_get s eid = do {
     found \<leftarrow> find_endpoint s eid (endpoint_list s);
     case found of
       None \<Rightarrow> Some (s, None)
     | Some e \<Rightarrow> do {
         s1 \<leftarrow> upd_ep s e (\<lambda>ep. ep\<lparr>refcount := refcount ep + 1\<rparr>);
         Some (s1, Some e)
       }
   }"

definition endpoint_put :: "ipc_state \<Rightarrow> nat \<Rightarrow> ipc_state option" where
  "endpoint_put s e = do {
     ep \<leftarrow> eps s e;
     let refs = refcount ep - 1;
     if refs = 0 then Some (s\<lparr>eps := (eps s)(e := None)\<rparr>)
     else Some (s\<lparr>eps := (eps s)(e := Some (ep\<lparr>refcount := refs\<rparr>))\<rparr>)
   }"

subsection \<open>Destruction\<close>

text \<open>Wake the waiters of a queue with an error.\<close>

fun wake_dead :: "nat list \<Rightarrow> ipc_state \<Rightarrow> ipc_state option" where
  "wake_dead [] s = Some s"
| "wake_dead (w # ws) s = do {
     x \<leftarrow> waits s w;
     wake_dead ws (s\<lparr>waits := (waits s)(w := Some (x\<lparr>w_result := IPC_ERR_DEAD\<rparr>)),
                     sched := sched_wakeup (sched s) (w_partner x)\<rparr>)
   }"

text \<open>The last access is the printout, which reads the identifier after the reference of the list has been dropped.\<close>

definition endpoint_destroy :: "ipc_state \<Rightarrow> nat \<Rightarrow> ipc_state option" where
  "endpoint_destroy s e = do {
     ep \<leftarrow> eps s e;
     if ep_dead ep then Some s
     else do {
       let fl = ep_flags ep OR EP_FLAG_DEAD;
       let remove_from_list = (fl AND EP_FLAG_LISTED \<noteq> 0);
       let fl1 = (if remove_from_list then fl AND NOT EP_FLAG_LISTED else fl);
       s1 \<leftarrow> wake_dead (send_queue ep) (s\<lparr>eps := (eps s)(e := Some (ep\<lparr>ep_flags := fl1\<rparr>))\<rparr>);
       s2 \<leftarrow> upd_ep s1 e (\<lambda>ep. ep\<lparr>send_queue := []\<rparr>);
       s3 \<leftarrow> wake_dead (recv_queue ep) s2;
       s4 \<leftarrow> upd_ep s3 e (\<lambda>ep. ep\<lparr>recv_queue := []\<rparr>);
       s6 \<leftarrow> (if remove_from_list
             then do {
               s5 \<leftarrow> unlink_from_owner (s4\<lparr>endpoint_list := remove1 e (endpoint_list s4)\<rparr>) e;
               endpoint_put s5 e
             }
             else Some s4);
       printed \<leftarrow> eps s6 e;
       Some s6
     }
   }"

partial_function (option) ipc_destroy_owned_by_process :: "ipc_state \<Rightarrow> nat \<Rightarrow> ipc_state option" where
  "ipc_destroy_owned_by_process s p =
     (case owned_endpoints s p of
        [] \<Rightarrow> Some s
      | e # es \<Rightarrow>
          Option.bind (upd_ep (s\<lparr>owned_endpoints := (owned_endpoints s)(p := es)\<rparr>) e (\<lambda>ep. ep\<lparr>refcount := refcount ep + 1\<rparr>))
            (\<lambda>s1. Option.bind (endpoint_destroy s1 e)
               (\<lambda>s2. Option.bind (endpoint_put s2 e) (\<lambda>s3. ipc_destroy_owned_by_process s3 p))))"

declare ipc_destroy_owned_by_process.simps [code]

subsection \<open>The self-test at boot\<close>

text \<open>
  \<^verbatim>\<open>ipc_test_wke\<close> of \<^verbatim>\<open>kernel/ipc/test.c\<close>, which runs on every boot; the last three arguments are the results of
  \<^verbatim>\<open>kmalloc\<close> for its three claims, and the result says whether the test passed.
\<close>

definition EP_RS :: u32 where "EP_RS = 7"

definition ipc_test_wke :: "ipc_state \<Rightarrow> nat option \<Rightarrow> nat option \<Rightarrow> nat option \<Rightarrow> (ipc_state \<times> bool) option" where
  "ipc_test_wke s a1 a2 a3 = do {
     (s0, r0) \<leftarrow> endpoint_create_well_known s None (EP_WKE_MAX + 1) 0 None;
     if r0 \<noteq> None then Some (s0, False)
     else do {
       let probe_id = EP_RS + 1;
       (s1, r1) \<leftarrow> endpoint_create_well_known s0 None probe_id 0 a1;
       case r1 of
         None \<Rightarrow> Some (s1, False)
       | Some first \<Rightarrow> do {
           ep \<leftarrow> eps s1 first;
           if ep_id ep \<noteq> probe_id then Some (s1, False)
           else do {
             (s2, looked) \<leftarrow> endpoint_get s1 probe_id;
             if looked \<noteq> Some first then Some (s2, False)
             else do {
               s3 \<leftarrow> endpoint_put s2 first;
               (s4, r2) \<leftarrow> endpoint_create_well_known s3 None probe_id 0 a2;
               if r2 \<noteq> None then Some (s4, False)
               else do {
                 s5 \<leftarrow> endpoint_destroy s4 first;
                 s6 \<leftarrow> endpoint_put s5 first;
                 (s7, r3) \<leftarrow> endpoint_create_well_known s6 None probe_id 0 a3;
                 case r3 of
                   None \<Rightarrow> Some (s7, False)
                 | Some third \<Rightarrow> do {
                     s8 \<leftarrow> endpoint_destroy s7 third;
                     s9 \<leftarrow> endpoint_put s8 third;
                     Some (s9, True)
                   }
               }
             }
           }
         }
     }
   }"

subsection \<open>Binding and queries\<close>

definition endpoint_bind :: "ipc_state \<Rightarrow> nat option \<Rightarrow> nat option \<Rightarrow> (ipc_state \<times> int) option" where
  "endpoint_bind s e t =
     (case (e, t) of
        (Some e, Some t) \<Rightarrow> do {
          ep \<leftarrow> eps s e;
          if bound_thread ep \<noteq> None then Some (s, -1)
          else Some (s\<lparr>eps := (eps s)(e := Some (ep\<lparr>bound_thread := Some t, ep_flags := ep_flags ep OR EP_FLAG_BOUND\<rparr>))\<rparr>, 0)
        }
      | _ \<Rightarrow> Some (s, -1))"

definition endpoint_unbind :: "ipc_state \<Rightarrow> nat option \<Rightarrow> (ipc_state \<times> int) option" where
  "endpoint_unbind s e =
     (case e of
        None \<Rightarrow> Some (s, -1)
      | Some e \<Rightarrow> do {
          ep \<leftarrow> eps s e;
          Some (s\<lparr>eps := (eps s)(e := Some (ep\<lparr>bound_thread := None, ep_flags := ep_flags ep AND NOT EP_FLAG_BOUND\<rparr>))\<rparr>, 0)
        })"

definition endpoint_has_receiver :: "ipc_state \<Rightarrow> nat \<Rightarrow> bool option" where
  "endpoint_has_receiver s e = do { ep \<leftarrow> eps s e; Some (recv_queue ep \<noteq> []) }"

definition endpoint_has_sender :: "ipc_state \<Rightarrow> nat \<Rightarrow> bool option" where
  "endpoint_has_sender s e = do { ep \<leftarrow> eps s e; Some (send_queue ep \<noteq> []) }"

end
