(* ===== verification/Ipc.thy ===== *)
theory Ipc
  imports Endpoint
begin

text \<open>
  Synchronous message passing, \<^verbatim>\<open>kernel/ipc/message.c\<close>: send, receive, call and reply with rendezvous at an
  endpoint, the copy of window slices, and the cleanup of an exiting thread. An operation that blocks is
  split where it sleeps: the first half ends with the thread asleep on its wait object, the second half
  is what it does when it runs again. A locked section together with the following sleep is
  one step, as on one processor, where the kernel is only left by a call of \<^verbatim>\<open>schedule\<close>.
\<close>

subsection \<open>Messages and windows\<close>

definition MSG_FLAG_NONBLOCK :: u64 where "MSG_FLAG_NONBLOCK = 8"
definition MSG_FLAG_SLICE :: u64 where "MSG_FLAG_SLICE = 16"

definition IPC_OP_SEND :: int where "IPC_OP_SEND = 1"
definition IPC_OP_RECV :: int where "IPC_OP_RECV = 2"
definition IPC_OP_CALL :: int where "IPC_OP_CALL = 3"

lemmas ipc_op = IPC_OP_SEND_def IPC_OP_RECV_def IPC_OP_CALL_def

definition IPC_FAST_REGS :: nat where "IPC_FAST_REGS = 8"

text \<open>A window is the page behind \<^verbatim>\<open>ipc_window_phys\<close>, or \<open>None\<close> if the process has none.\<close>

definition copy_ipc_slice :: "ipc_state \<Rightarrow> nat \<Rightarrow> nat \<Rightarrow> u32 \<Rightarrow> u32 \<Rightarrow> ipc_state \<times> int" where
  "copy_ipc_slice s src_proc dst_proc off len =
     (if len = 0 then (s, IPC_OK)
      else if \<not> ipc_slice_valid off len then (s, IPC_ERR_OVERFLOW)
      else case (windows s src_proc, windows s dst_proc) of
        (Some src, Some dst) \<Rightarrow>
          let o1 = unat off; n = unat len
          in (s\<lparr>windows := (windows s)(dst_proc := Some (take o1 dst @ take n (drop o1 src) @ drop (o1 + n) dst))\<rparr>, IPC_OK)
      | _ \<Rightarrow> (s, IPC_ERR_INVALID))"

definition maybe_copy_window :: "ipc_state \<Rightarrow> nat \<Rightarrow> nat \<Rightarrow> ipc_message \<Rightarrow> ipc_state \<times> int" where
  "maybe_copy_window s sender_proc receiver_proc m =
     (if MSG_FLAGS (m_tag m) AND MSG_FLAG_SLICE = 0 then (s, IPC_OK)
      else copy_ipc_slice s sender_proc receiver_proc (IPC_SLICE_OFF (m_regs m ! 0)) (IPC_SLICE_LEN (m_regs m ! 0)))"

text \<open>The slice copy between the processes of two threads, as send, receive and reply do it.\<close>

definition slice_transfer :: "ipc_state \<Rightarrow> nat \<Rightarrow> nat \<Rightarrow> ipc_message \<Rightarrow> ipc_state \<times> int" where
  "slice_transfer s from to m =
     (case (t_process (threads (sched s) from), t_process (threads (sched s) to)) of
        (Some p, Some q) \<Rightarrow> maybe_copy_window s p q m
      | _ \<Rightarrow> if MSG_FLAGS (m_tag m) AND MSG_FLAG_SLICE \<noteq> 0 then (s, IPC_ERR_INVALID) else (s, IPC_OK))"

definition copy_message :: "ipc_message \<Rightarrow> ipc_message \<Rightarrow> ipc_message" where
  "copy_message dst src =
     dst\<lparr>m_tag := m_tag src, m_regs := m_regs src,
         m_buffer := (case (m_buffer src, m_buffer dst) of
                        (Some b, Some d) \<Rightarrow> Some (take (length d) b @ drop (length b) d)
                      | _ \<Rightarrow> m_buffer dst),
         m_nr_caps := 0\<rparr>"

definition peek_waiter :: "nat list \<Rightarrow> nat option" where
  "peek_waiter q = (case q of [] \<Rightarrow> None | w # ws \<Rightarrow> Some w)"

definition link_call :: "ipc_state \<Rightarrow> nat \<Rightarrow> nat \<Rightarrow> ipc_state" where
  "link_call s caller server =
     s\<lparr>sched := upd_thread (upd_thread (sched s) caller
          (\<lambda>th. th\<lparr>ipc_reply_pending := 1, ipc_reply_result := IPC_ERR_DEAD, ipc_reply_server := Some server\<rparr>))
        server (\<lambda>th. th\<lparr>ipc_caller := Some caller\<rparr>)\<rparr>"

subsection \<open>Send\<close>

text \<open>An operation returns a result, or leaves its thread asleep on a wait object.\<close>

datatype ipc_ret = Ret int | Sleep nat

definition block_on :: "ipc_state \<Rightarrow> nat \<Rightarrow> nat \<Rightarrow> nat \<Rightarrow> int \<Rightarrow> nat \<Rightarrow> ipc_state" where
  "block_on s self e m opn w =
     s\<lparr>waits := (waits s)(w := Some \<lparr>w_endpoint = e, w_msg = m, w_partner = self, w_operation = opn,
          w_result = IPC_ERR_NOPARTNER\<rparr>),
       sched := thread_sleep_prepare (sched s) self (Chan w)\<rparr>"

definition ipc_send_op :: "ipc_state \<Rightarrow> nat \<Rightarrow> nat option \<Rightarrow> nat option \<Rightarrow> int \<Rightarrow> nat option \<Rightarrow> (ipc_state \<times> ipc_ret) option" where
  "ipc_send_op s self epp msgp opn a =
     (case (epp, msgp) of
        (Some e, Some m) \<Rightarrow> do {
          ep \<leftarrow> eps s e;
          if ep_dead ep then Some (s, Ret IPC_ERR_DEAD)
          else case peek_waiter (recv_queue ep) of
            Some w \<Rightarrow> do {
              x \<leftarrow> waits s w;
              let receiver = w_partner x;
              let (s1, slice_err) = slice_transfer s self receiver (msgs s m);
              if slice_err \<noteq> IPC_OK then Some (s1, Ret slice_err)
              else do {
                let s2 = s1\<lparr>msgs := (msgs s1)(w_msg x := copy_message (msgs s1 (w_msg x)) (msgs s1 m)),
                            waits := (waits s1)(w := Some (x\<lparr>w_operation := opn, w_result := IPC_OK, w_partner := self\<rparr>)),
                            ipc_total_messages := ipc_total_messages s1 + 1,
                            ipc_fast_path_count := ipc_fast_path_count s1 + 1\<rparr>;
                s3 \<leftarrow> upd_ep s2 e (\<lambda>ep. ep\<lparr>recv_queue := tl (recv_queue ep), msgs_sent := msgs_sent ep + 1\<rparr>);
                let s4 = (if opn = IPC_OP_CALL then link_call s3 self receiver else s3);
                Some (s4\<lparr>sched := sched_wakeup (sched s4) receiver\<rparr>, Ret IPC_OK)
              }
            }
          | None \<Rightarrow>
              if MSG_FLAGS (m_tag (msgs s m)) AND MSG_FLAG_NONBLOCK \<noteq> 0 then Some (s, Ret IPC_ERR_NOPARTNER)
              else case a of
                None \<Rightarrow> Some (s, Ret IPC_ERR_BUSY)
              | Some w \<Rightarrow> do {
                  s1 \<leftarrow> upd_ep s e (\<lambda>ep. ep\<lparr>send_queue := send_queue ep @ [w]\<rparr>);
                  Some (block_on s1 self e m opn w, Sleep w)
                }
        }
      | _ \<Rightarrow> Some (s, Ret IPC_ERR_INVALID))"

text \<open>After the sleep: unlink the wait object if it is still queued, and return its result.\<close>

definition ipc_send_resume :: "ipc_state \<Rightarrow> nat \<Rightarrow> nat \<Rightarrow> nat \<Rightarrow> (ipc_state \<times> int) option" where
  "ipc_send_resume s self e w = do {
     s1 \<leftarrow> upd_ep (s\<lparr>sched := thread_sleep_resume (sched s) self\<rparr>) e (\<lambda>ep. ep\<lparr>send_queue := remove1 w (send_queue ep)\<rparr>);
     x \<leftarrow> waits s1 w;
     Some (s1\<lparr>waits := (waits s1)(w := None)\<rparr>, w_result x)
   }"

definition ipc_send :: "ipc_state \<Rightarrow> nat \<Rightarrow> nat option \<Rightarrow> nat option \<Rightarrow> nat option \<Rightarrow> (ipc_state \<times> ipc_ret) option" where
  "ipc_send s self epp msgp a = ipc_send_op s self epp msgp IPC_OP_SEND a"

subsection \<open>Receive\<close>

definition ipc_recv :: "ipc_state \<Rightarrow> nat \<Rightarrow> nat option \<Rightarrow> nat option \<Rightarrow> nat option \<Rightarrow> (ipc_state \<times> ipc_ret) option" where
  "ipc_recv s self epp msgp a =
     (case (epp, msgp) of
        (Some e, Some m) \<Rightarrow> do {
          ep \<leftarrow> eps s e;
          if ep_dead ep then Some (s, Ret IPC_ERR_DEAD)
          else case peek_waiter (send_queue ep) of
            Some w \<Rightarrow> do {
              x \<leftarrow> waits s w;
              let sender = w_partner x;
              let (s1, slice_err) = slice_transfer s sender self (msgs s (w_msg x));
              if slice_err \<noteq> IPC_OK
              then do {
                s2 \<leftarrow> upd_ep (s1\<lparr>waits := (waits s1)(w := Some (x\<lparr>w_result := slice_err\<rparr>))\<rparr>) e
                        (\<lambda>ep. ep\<lparr>send_queue := tl (send_queue ep)\<rparr>);
                Some (s2\<lparr>sched := sched_wakeup (sched s2) sender\<rparr>, Ret slice_err)
              }
              else do {
                let s2 = s1\<lparr>msgs := (msgs s1)(m := copy_message (msgs s1 m) (msgs s1 (w_msg x))),
                            waits := (waits s1)(w := Some (x\<lparr>w_result := IPC_OK, w_partner := self\<rparr>)),
                            ipc_total_messages := ipc_total_messages s1 + 1\<rparr>;
                s3 \<leftarrow> upd_ep s2 e (\<lambda>ep. ep\<lparr>send_queue := tl (send_queue ep), msgs_received := msgs_received ep + 1\<rparr>);
                let s4 = (if w_operation x = IPC_OP_CALL then link_call s3 sender self else s3);
                Some (s4\<lparr>sched := sched_wakeup (sched s4) sender\<rparr>, Ret IPC_OK)
              }
            }
          | None \<Rightarrow>
              if MSG_FLAGS (m_tag (msgs s m)) AND MSG_FLAG_NONBLOCK \<noteq> 0 then Some (s, Ret IPC_ERR_NOPARTNER)
              else case a of
                None \<Rightarrow> Some (s, Ret IPC_ERR_BUSY)
              | Some w \<Rightarrow> do {
                  s1 \<leftarrow> upd_ep s e (\<lambda>ep. ep\<lparr>recv_queue := recv_queue ep @ [w]\<rparr>);
                  Some (block_on s1 self e m IPC_OP_RECV w, Sleep w)
                }
        }
      | _ \<Rightarrow> Some (s, Ret IPC_ERR_INVALID))"

definition ipc_recv_resume :: "ipc_state \<Rightarrow> nat \<Rightarrow> nat \<Rightarrow> nat \<Rightarrow> (ipc_state \<times> int) option" where
  "ipc_recv_resume s self e w = do {
     s1 \<leftarrow> upd_ep (s\<lparr>sched := thread_sleep_resume (sched s) self\<rparr>) e (\<lambda>ep. ep\<lparr>recv_queue := remove1 w (recv_queue ep)\<rparr>);
     x \<leftarrow> waits s1 w;
     Some (s1\<lparr>waits := (waits s1)(w := None)\<rparr>, w_result x)
   }"

subsection \<open>Call and reply\<close>

text \<open>
  A call first sends; when the send has failed it clears the reply state, and otherwise it waits for the
  reply in a loop, one turn of which is \<open>ipc_call_wait\<close>: it sees that the reply is there, or sleeps.
\<close>

definition ipc_call_failed :: "ipc_state \<Rightarrow> nat \<Rightarrow> ipc_state" where
  "ipc_call_failed s self =
     s\<lparr>sched := upd_thread (sched s) self (\<lambda>th. th\<lparr>ipc_reply_pending := 0, ipc_reply_server := None\<rparr>)\<rparr>"

definition ipc_call_wait :: "ipc_state \<Rightarrow> nat \<Rightarrow> ipc_state \<times> bool" where
  "ipc_call_wait s self =
     (if ipc_reply_pending (threads (sched s) self) = 0
      then (s\<lparr>sched := upd_thread (sched s) self (\<lambda>th. th\<lparr>t_state := TASK_RUNNING, wait_channel := None\<rparr>)\<rparr>, True)
      else (s\<lparr>sched := upd_thread (sched s) self
                (\<lambda>th. th\<lparr>t_state := TASK_INTERRUPTIBLE, wait_channel := Some (Reply_pending_of self)\<rparr>)\<rparr>, False))"

definition ipc_call_finish :: "ipc_state \<Rightarrow> nat \<Rightarrow> nat \<Rightarrow> ipc_state \<times> int" where
  "ipc_call_finish s self m =
     (let th = threads (sched s) self; result = ipc_reply_result th;
          s1 = (if result = IPC_OK
                then s\<lparr>msgs := (msgs s)(m := (msgs s m)\<lparr>m_tag := ipc_reply_tag th, m_regs := ipc_reply_regs th\<rparr>)\<rparr> else s)
      in (s1\<lparr>sched := upd_thread (sched s1) self (\<lambda>th. th\<lparr>ipc_reply_server := None\<rparr>)\<rparr>, result))"

definition ipc_reply :: "ipc_state \<Rightarrow> nat \<Rightarrow> nat option \<Rightarrow> ipc_state \<times> int" where
  "ipc_reply s self msgp =
     (case msgp of
        None \<Rightarrow> (s, IPC_ERR_INVALID)
      | Some m \<Rightarrow>
          (case ipc_caller (threads (sched s) self) of
             None \<Rightarrow> (s, IPC_ERR_INVALID)
           | Some caller \<Rightarrow>
               let s1 = s\<lparr>sched := upd_thread (sched s) self (\<lambda>th. th\<lparr>ipc_caller := None\<rparr>)\<rparr>;
                   (s2, slice_err) = slice_transfer s1 self caller (msgs s1 m);
                   s3 = s2\<lparr>sched := upd_thread (sched s2) caller (\<lambda>th.
                          (if slice_err \<noteq> IPC_OK then th\<lparr>ipc_reply_result := slice_err\<rparr>
                           else th\<lparr>ipc_reply_result := IPC_OK, ipc_reply_tag := m_tag (msgs s2 m),
                                   ipc_reply_regs := m_regs (msgs s2 m)\<rparr>)\<lparr>ipc_reply_pending := 0\<rparr>)\<rparr>
               in (s3\<lparr>sched := sched_wakeup (sched s3) caller\<rparr>, IPC_OK)))"

definition ipc_reply_recv :: "ipc_state \<Rightarrow> nat \<Rightarrow> nat option \<Rightarrow> nat option \<Rightarrow> nat option \<Rightarrow> (ipc_state \<times> ipc_ret) option" where
  "ipc_reply_recv s self epp msgp a = ipc_recv (fst (ipc_reply s self msgp)) self epp msgp a"

subsection \<open>Exit of a thread\<close>

definition cleanup_caller :: "ipc_state \<Rightarrow> nat \<Rightarrow> ipc_state" where
  "cleanup_caller s t =
     (case ipc_caller (threads (sched s) t) of
        None \<Rightarrow> s
      | Some caller \<Rightarrow>
          let c1 = upd_thread (sched s) t (\<lambda>th. th\<lparr>ipc_caller := None\<rparr>);
              c2 = upd_thread c1 caller (\<lambda>th.
                     (if ipc_reply_server th = Some t then th\<lparr>ipc_reply_server := None\<rparr> else th)
                       \<lparr>ipc_reply_result := IPC_ERR_DEAD, ipc_reply_pending := 0\<rparr>)
          in s\<lparr>sched := sched_wakeup c2 caller\<rparr>)"

definition cleanup_server :: "ipc_state \<Rightarrow> nat \<Rightarrow> ipc_state" where
  "cleanup_server s t =
     (case ipc_reply_server (threads (sched s) t) of
        None \<Rightarrow> s
      | Some server \<Rightarrow>
          let c1 = upd_thread (sched s) t (\<lambda>th. th\<lparr>ipc_reply_server := None\<rparr>)
          in s\<lparr>sched := upd_thread c1 server (\<lambda>th. if ipc_caller th = Some t then th\<lparr>ipc_caller := None\<rparr> else th)\<rparr>)"

definition ipc_thread_cleanup :: "ipc_state \<Rightarrow> nat option \<Rightarrow> ipc_state" where
  "ipc_thread_cleanup s tp =
     (case tp of
        None \<Rightarrow> s
      | Some t \<Rightarrow>
          let s1 = cleanup_server (cleanup_caller s t) t
          in s1\<lparr>sched := upd_thread (sched s1) t (\<lambda>th. th\<lparr>ipc_reply_pending := 0\<rparr>)\<rparr>)"

subsection \<open>Register messages\<close>

definition reg_message :: "u64 \<Rightarrow> u64 list \<Rightarrow> ipc_message" where
  "reg_message tag regs = \<lparr>m_tag = tag, m_regs = take IPC_FAST_REGS regs, m_buffer = None, m_nr_caps = 0\<rparr>"

text \<open>The first half of \<^verbatim>\<open>ipc_send_fast\<close> and \<^verbatim>\<open>ipc_recv_fast\<close>, up to the operation itself; the message is a
  local variable at address \<open>m\<close>. The reference to the endpoint is dropped when the operation returns.\<close>

definition ipc_send_fast :: "ipc_state \<Rightarrow> nat \<Rightarrow> u32 \<Rightarrow> u64 \<Rightarrow> u64 list \<Rightarrow> nat \<Rightarrow> nat option \<Rightarrow> (ipc_state \<times> ipc_ret) option" where
  "ipc_send_fast s self eid tag regs m a = do {
     (s1, found) \<leftarrow> endpoint_get s eid;
     case found of
       None \<Rightarrow> Some (s1, Ret IPC_ERR_INVALID)
     | Some e \<Rightarrow> do {
         (s2, r) \<leftarrow> ipc_send (s1\<lparr>msgs := (msgs s1)(m := reg_message tag regs)\<rparr>) self (Some e) (Some m) a;
         case r of
           Sleep w \<Rightarrow> Some (s2, Sleep w)
         | Ret i \<Rightarrow> do { s3 \<leftarrow> endpoint_put s2 e; Some (s3, Ret i) }
       }
   }"

definition ipc_recv_fast :: "ipc_state \<Rightarrow> nat \<Rightarrow> u32 \<Rightarrow> nat \<Rightarrow> nat option \<Rightarrow> (ipc_state \<times> ipc_ret) option" where
  "ipc_recv_fast s self eid m a = do {
     (s1, found) \<leftarrow> endpoint_get s eid;
     case found of
       None \<Rightarrow> Some (s1, Ret IPC_ERR_INVALID)
     | Some e \<Rightarrow> do {
         (s2, r) \<leftarrow> ipc_recv (s1\<lparr>msgs := (msgs s1)(m := reg_message 0 (replicate IPC_FAST_REGS 0))\<rparr>) self (Some e) (Some m) a;
         case r of
           Sleep w \<Rightarrow> Some (s2, Sleep w)
         | Ret i \<Rightarrow> do { s3 \<leftarrow> endpoint_put s2 e; Some (s3, Ret i) }
       }
   }"

end
