(* ===== verification/Ipc_Safety.thy ===== *)
theory Ipc_Safety
  imports Ipc
begin

text \<open>
  Any number of threads at work on the IPC subsystem, as a transition system with one step for each
  operation of \<open>Endpoint\<close> and \<open>Ipc\<close>, and its invariant: endpoints and wait objects are never used after
  they are freed and never leaked, an endpoint never has senders and receivers waiting at once, threads
  that wait are asleep until they are served, and the links between callers and servers agree.
\<close>

subsection \<open>What the scheduler operations do to the fields that matter here\<close>

abbreviation thr :: "ipc_state \<Rightarrow> nat \<Rightarrow> thread" where
  "thr s t \<equiv> threads (sched s) t"

definition ipc_view :: "thread \<Rightarrow> nat option \<times> nat option \<times> nat option \<times> int \<times> int \<times> u64 \<times> u64 list" where
  "ipc_view th = (t_process th, ipc_caller th, ipc_reply_server th, ipc_reply_pending th, ipc_reply_result th,
     ipc_reply_tag th, ipc_reply_regs th)"

lemma wakeup_view [simp]: "ipc_view (threads (sched_wakeup s t) u) = ipc_view (threads s u)"
  by (simp add: sched_wakeup_def sched_add_def Let_def enqueue_thread_locked_def ipc_view_def)

lemma wakeup_state [simp]:
  "t_state (threads (sched_wakeup s t) u) = (if u = t then TASK_RUNNING else t_state (threads s u))"
  by (simp add: sched_wakeup_def sched_add_def Let_def enqueue_thread_locked_def upd_thread_def)

lemma sched_remove_threads [simp]: "threads (sched_remove s t) = threads s"
  by (simp add: sched_remove_def Let_def)

lemma sleep_prepare_view [simp]:
  "ipc_view (threads (thread_sleep_prepare s t ch) u) = ipc_view (threads s u)"
  "t_state (threads (thread_sleep_prepare s t ch) u) = (if u = t then TASK_INTERRUPTIBLE else t_state (threads s u))"
  by (simp_all add: thread_sleep_prepare_def ipc_view_def)

lemma sleep_resume_view [simp]:
  "ipc_view (threads (thread_sleep_resume s t) u) = ipc_view (threads s u)"
  "t_state (threads (thread_sleep_resume s t) u) = t_state (threads s u)"
  by (simp_all add: thread_sleep_resume_def ipc_view_def)

lemma view_fields:
  assumes "ipc_view a = ipc_view b"
  shows "t_process a = t_process b" "ipc_caller a = ipc_caller b" "ipc_reply_server a = ipc_reply_server b"
    "ipc_reply_pending a = ipc_reply_pending b" "ipc_reply_result a = ipc_reply_result b"
    "ipc_reply_tag a = ipc_reply_tag b" "ipc_reply_regs a = ipc_reply_regs b"
  using assms by (simp_all add: ipc_view_def)

lemmas wakeup_fields [simp] = view_fields [OF wakeup_view]
lemmas sleep_prepare_fields [simp] = view_fields [OF sleep_prepare_view(1)]
lemmas sleep_resume_fields [simp] = view_fields [OF sleep_resume_view(1)]

subsection \<open>The transition system\<close>

text \<open>
  Where a thread is in the IPC code: not inside, asleep in a send, in the send half of a call, in a
  receive, or waiting for a reply. The second ghost component is the endpoint reference that the system
  call of a thread holds.
\<close>

datatype ipc_pc = Idle | Sending nat | Calling nat | Receiving nat | Replying

record ipc_sys =
  st :: ipc_state
  pc :: "nat \<Rightarrow> ipc_pc"
  ref :: "nat \<Rightarrow> nat option"

fun waiting :: "ipc_pc \<Rightarrow> nat option" where
  "waiting (Sending w) = Some w"
| "waiting (Calling w) = Some w"
| "waiting (Receiving w) = Some w"
| "waiting _ = None"

definition fresh :: "('a \<Rightarrow> 'b option) \<Rightarrow> 'a option \<Rightarrow> bool" where
  "fresh heap a \<longleftrightarrow> (case a of Some x \<Rightarrow> heap x = None | None \<Rightarrow> True)"

text \<open>The second half of a call, from the point where its message has been taken.\<close>

definition call_turn :: "ipc_state \<Rightarrow> nat \<Rightarrow> ipc_state \<times> ipc_pc" where
  "call_turn s t =
     (case ipc_call_wait s t of
        (s1, True) \<Rightarrow> (fst (ipc_call_finish s1 t t), Idle)
      | (s1, False) \<Rightarrow> (s1, Replying))"

inductive ipc_step :: "ipc_sys \<Rightarrow> ipc_sys \<Rightarrow> bool" where
  Create: "fresh (eps (st c)) a \<Longrightarrow> endpoint_create (st c) owner flags a = Some (s', r) \<Longrightarrow> ipc_step c (c\<lparr>st := s'\<rparr>)"
| Create_wke: "fresh (eps (st c)) a \<Longrightarrow> endpoint_create_well_known (st c) owner eid flags a = Some (s', r) \<Longrightarrow>
    ipc_step c (c\<lparr>st := s'\<rparr>)"
| Get: "pc c t = Idle \<Longrightarrow> ref c t = None \<Longrightarrow> endpoint_get (st c) eid = Some (s', Some e) \<Longrightarrow>
    ipc_step c (c\<lparr>st := s', ref := (ref c)(t := Some e)\<rparr>)"
| Put: "pc c t = Idle \<Longrightarrow> ref c t = Some e \<Longrightarrow> endpoint_put (st c) e = Some s' \<Longrightarrow>
    ipc_step c (c\<lparr>st := s', ref := (ref c)(t := None)\<rparr>)"
| Destroy: "pc c t = Idle \<Longrightarrow> ref c t = Some e \<Longrightarrow> endpoint_destroy (st c) e = Some s' \<Longrightarrow> ipc_step c (c\<lparr>st := s'\<rparr>)"
| Exit_process: "ipc_destroy_owned_by_process (st c) p = Some s' \<Longrightarrow> ipc_step c (c\<lparr>st := s'\<rparr>)"
| Message: "pc c t = Idle \<Longrightarrow> ipc_step c (c\<lparr>st := (st c)\<lparr>msgs := (msgs (st c))(t := m)\<rparr>\<rparr>)"
| Send: "pc c t = Idle \<Longrightarrow> ref c t = Some e \<Longrightarrow> fresh (waits (st c)) a \<Longrightarrow>
    ipc_send (st c) t (Some e) (Some t) a = Some (s', r) \<Longrightarrow>
    ipc_step c (c\<lparr>st := s', pc := (pc c)(t := (case r of Ret i \<Rightarrow> Idle | Sleep w \<Rightarrow> Sending w))\<rparr>)"
| Send_resume: "pc c t = Sending w \<Longrightarrow> ref c t = Some e \<Longrightarrow> t_state (thr (st c) t) = TASK_RUNNING \<Longrightarrow>
    ipc_send_resume (st c) t e w = Some (s', i) \<Longrightarrow> ipc_step c (c\<lparr>st := s', pc := (pc c)(t := Idle)\<rparr>)"
| Recv: "pc c t = Idle \<Longrightarrow> ref c t = Some e \<Longrightarrow> fresh (waits (st c)) a \<Longrightarrow>
    ipc_recv (st c) t (Some e) (Some t) a = Some (s', r) \<Longrightarrow>
    ipc_step c (c\<lparr>st := s', pc := (pc c)(t := (case r of Ret i \<Rightarrow> Idle | Sleep w \<Rightarrow> Receiving w))\<rparr>)"
| Recv_resume: "pc c t = Receiving w \<Longrightarrow> ref c t = Some e \<Longrightarrow> t_state (thr (st c) t) = TASK_RUNNING \<Longrightarrow>
    ipc_recv_resume (st c) t e w = Some (s', i) \<Longrightarrow> ipc_step c (c\<lparr>st := s', pc := (pc c)(t := Idle)\<rparr>)"
| Call_sleep: "pc c t = Idle \<Longrightarrow> ref c t = Some e \<Longrightarrow> fresh (waits (st c)) a \<Longrightarrow>
    ipc_send_op (st c) t (Some e) (Some t) IPC_OP_CALL a = Some (s', Sleep w) \<Longrightarrow>
    ipc_step c (c\<lparr>st := s', pc := (pc c)(t := Calling w)\<rparr>)"
| Call_ret: "pc c t = Idle \<Longrightarrow> ref c t = Some e \<Longrightarrow> fresh (waits (st c)) a \<Longrightarrow>
    ipc_send_op (st c) t (Some e) (Some t) IPC_OP_CALL a = Some (s1, Ret i) \<Longrightarrow>
    (s', p) = (if i = IPC_OK then call_turn s1 t else (ipc_call_failed s1 t, Idle)) \<Longrightarrow>
    ipc_step c (c\<lparr>st := s', pc := (pc c)(t := p)\<rparr>)"
| Call_resume: "pc c t = Calling w \<Longrightarrow> ref c t = Some e \<Longrightarrow> t_state (thr (st c) t) = TASK_RUNNING \<Longrightarrow>
    ipc_send_resume (st c) t e w = Some (s1, i) \<Longrightarrow>
    (s', p) = (if i = IPC_OK then call_turn s1 t else (ipc_call_failed s1 t, Idle)) \<Longrightarrow>
    ipc_step c (c\<lparr>st := s', pc := (pc c)(t := p)\<rparr>)"
| Call_turn: "pc c t = Replying \<Longrightarrow> t_state (thr (st c) t) = TASK_RUNNING \<Longrightarrow> (s', p) = call_turn (st c) t \<Longrightarrow>
    ipc_step c (c\<lparr>st := s', pc := (pc c)(t := p)\<rparr>)"
| Reply: "pc c t = Idle \<Longrightarrow> ipc_step c (c\<lparr>st := fst (ipc_reply (st c) t (Some t))\<rparr>)"
| Reply_recv: "pc c t = Idle \<Longrightarrow> ref c t = Some e \<Longrightarrow> fresh (waits (st c)) a \<Longrightarrow>
    ipc_reply_recv (st c) t (Some e) (Some t) a = Some (s', r) \<Longrightarrow>
    ipc_step c (c\<lparr>st := s', pc := (pc c)(t := (case r of Ret i \<Rightarrow> Idle | Sleep w \<Rightarrow> Receiving w))\<rparr>)"
| Exit_thread: "pc c t = Idle \<Longrightarrow> ref c t = None \<Longrightarrow> ipc_step c (c\<lparr>st := ipc_thread_cleanup (st c) (Some t)\<rparr>)"

subsection \<open>The invariant\<close>

text \<open>
  Exactly the listed endpoints are in the global list; the reference count of an endpoint is the number of
  threads that hold it, plus one while it is listed; held endpoints are allocated; and the lists of the
  owners hold listed endpoints.
\<close>

definition heap_ok :: "nat list \<Rightarrow> (nat \<Rightarrow> ipc_endpoint option) \<Rightarrow> (nat \<Rightarrow> nat list) \<Rightarrow> (nat \<Rightarrow> nat option) \<Rightarrow> bool" where
  "heap_ok L H W R \<longleftrightarrow> distinct L \<and> finite (dom R) \<and>
     (\<forall>e. e \<in> set L \<longleftrightarrow> (\<exists>ep. H e = Some ep \<and> ep_listed ep)) \<and>
     (\<forall>e ep. H e = Some ep \<longrightarrow> refcount ep = of_bool (ep_listed ep) + int (card {t. R t = Some e})) \<and>
     (\<forall>e ep. H e = Some ep \<longrightarrow> refcount ep > 0) \<and>
     (\<forall>t e. R t = Some e \<longrightarrow> (\<exists>ep. H e = Some ep)) \<and>
     (\<forall>p. distinct (W p)) \<and>
     (\<forall>p e. e \<in> set (W p) \<longrightarrow> (\<exists>ep. H e = Some ep \<and> ep_listed ep \<and> ep_owner ep = Some p))"

abbreviation endpoints_ok :: "ipc_sys \<Rightarrow> bool" where
  "endpoints_ok c \<equiv> heap_ok (endpoint_list (st c)) (eps (st c)) (owned_endpoints (st c)) (ref c)"

text \<open>A queued wait object, seen from its thread.\<close>

definition queued_wait :: "ipc_sys \<Rightarrow> nat \<Rightarrow> bool \<Rightarrow> nat \<Rightarrow> bool" where
  "queued_wait c e snd_q w \<longleftrightarrow> (\<exists>x. waits (st c) w = Some x \<and> w_endpoint x = e \<and> w_msg x = w_partner x \<and>
     w_result x = IPC_ERR_NOPARTNER \<and> ref c (w_partner x) = Some e \<and> t_state (thr (st c) (w_partner x)) = TASK_INTERRUPTIBLE \<and>
     (if snd_q then pc c (w_partner x) = Sending w \<and> w_operation x = IPC_OP_SEND \<or>
                    pc c (w_partner x) = Calling w \<and> w_operation x = IPC_OP_CALL
      else pc c (w_partner x) = Receiving w))"

definition queues_ok :: "ipc_sys \<Rightarrow> bool" where
  "queues_ok c \<longleftrightarrow> (\<forall>e ep. eps (st c) e = Some ep \<longrightarrow>
     distinct (send_queue ep) \<and> distinct (recv_queue ep) \<and> (send_queue ep = [] \<or> recv_queue ep = []) \<and>
     (ep_dead ep \<longrightarrow> send_queue ep = [] \<and> recv_queue ep = []) \<and>
     (\<forall>w \<in> set (send_queue ep). queued_wait c e True w) \<and> (\<forall>w \<in> set (recv_queue ep). queued_wait c e False w))"

definition queued :: "ipc_state \<Rightarrow> nat \<Rightarrow> bool" where
  "queued s w \<longleftrightarrow> (\<exists>e ep. eps s e = Some ep \<and> (w \<in> set (send_queue ep) \<or> w \<in> set (recv_queue ep)))"

definition waits_ok :: "ipc_sys \<Rightarrow> bool" where
  "waits_ok c \<longleftrightarrow>
     (\<forall>t w. waiting (pc c t) = Some w \<longrightarrow> (\<exists>x. waits (st c) w = Some x \<and> ref c t = Some (w_endpoint x)) \<and>
        (\<not> queued (st c) w \<longrightarrow> t_state (thr (st c) t) = TASK_RUNNING)) \<and>
     (\<forall>t u w. waiting (pc c t) = Some w \<longrightarrow> waiting (pc c u) = Some w \<longrightarrow> t = u) \<and>
     (\<forall>w. waits (st c) w \<noteq> None \<longrightarrow> (\<exists>t. waiting (pc c t) = Some w))"

definition calls_ok :: "ipc_sys \<Rightarrow> bool" where
  "calls_ok c \<longleftrightarrow>
     (\<forall>t u. ipc_caller (thr (st c) t) = Some u \<longrightarrow> ipc_reply_pending (thr (st c) u) \<noteq> 0 \<and> ipc_reply_server (thr (st c) u) = Some t) \<and>
     (\<forall>u. ipc_reply_pending (thr (st c) u) \<noteq> 0 \<longrightarrow> pc c u = Replying \<or>
        (\<exists>w x. pc c u = Calling w \<and> waits (st c) w = Some x \<and> w_result x = IPC_OK)) \<and>
     (\<forall>u. pc c u = Replying \<longrightarrow> (t_state (thr (st c) u) = TASK_RUNNING \<longleftrightarrow> ipc_reply_pending (thr (st c) u) = 0))"

definition ipc_inv :: "ipc_sys \<Rightarrow> bool" where
  "ipc_inv c \<longleftrightarrow> endpoints_ok c \<and> queues_ok c \<and> waits_ok c \<and> calls_ok c"

lemmas ipc_parts = queues_ok_def waits_ok_def calls_ok_def

lemma heap_okD:
  assumes "heap_ok L H W R"
  shows "distinct L" "finite (dom R)"
    "e \<in> set L \<longleftrightarrow> (\<exists>ep. H e = Some ep \<and> ep_listed ep)"
    "H e = Some ep \<Longrightarrow> refcount ep = of_bool (ep_listed ep) + int (card {t. R t = Some e})"
    "H e = Some ep \<Longrightarrow> refcount ep > 0"
    "R t = Some e \<Longrightarrow> \<exists>ep. H e = Some ep"
    "distinct (W p)"
    "e \<in> set (W p) \<Longrightarrow> \<exists>ep. H e = Some ep \<and> ep_listed ep \<and> ep_owner ep = Some p"
  using assms unfolding heap_ok_def by blast+

lemma heap_okI:
  assumes "distinct L" "finite (dom R)"
    "\<And>e. e \<in> set L \<longleftrightarrow> (\<exists>ep. H e = Some ep \<and> ep_listed ep)"
    "\<And>e ep. H e = Some ep \<Longrightarrow> refcount ep = of_bool (ep_listed ep) + int (card {t. R t = Some e})"
    "\<And>e ep. H e = Some ep \<Longrightarrow> refcount ep > 0"
    "\<And>t e. R t = Some e \<Longrightarrow> \<exists>ep. H e = Some ep"
    "\<And>p. distinct (W p)"
    "\<And>p e. e \<in> set (W p) \<Longrightarrow> \<exists>ep. H e = Some ep \<and> ep_listed ep \<and> ep_owner ep = Some p"
  shows "heap_ok L H W R"
  using assms unfolding heap_ok_def by blast

lemma queues_okD:
  assumes "queues_ok c" "eps (st c) e = Some ep"
  shows "distinct (send_queue ep)" "distinct (recv_queue ep)" "send_queue ep = [] \<or> recv_queue ep = []"
    "ep_dead ep \<Longrightarrow> send_queue ep = []" "ep_dead ep \<Longrightarrow> recv_queue ep = []"
    "w \<in> set (send_queue ep) \<Longrightarrow> queued_wait c e True w" "w \<in> set (recv_queue ep) \<Longrightarrow> queued_wait c e False w"
  using assms unfolding queues_ok_def by blast+

lemma waits_okD:
  assumes "waits_ok c"
  shows "waiting (pc c t) = Some w \<Longrightarrow> \<exists>x. waits (st c) w = Some x \<and> ref c t = Some (w_endpoint x)"
    "waiting (pc c t) = Some w \<Longrightarrow> \<not> queued (st c) w \<Longrightarrow> t_state (thr (st c) t) = TASK_RUNNING"
    "waiting (pc c t) = Some w \<Longrightarrow> waiting (pc c u) = Some w \<Longrightarrow> t = u"
    "waits (st c) w = Some x \<Longrightarrow> \<exists>t. waiting (pc c t) = Some w"
  using assms unfolding waits_ok_def by blast+

lemma calls_okD:
  assumes "calls_ok c"
  shows "ipc_caller (thr (st c) t) = Some u \<Longrightarrow> ipc_reply_pending (thr (st c) u) \<noteq> 0"
    "ipc_caller (thr (st c) t) = Some u \<Longrightarrow> ipc_reply_server (thr (st c) u) = Some t"
    "ipc_reply_pending (thr (st c) u) \<noteq> 0 \<Longrightarrow> pc c u = Replying \<or>
       (\<exists>w x. pc c u = Calling w \<and> waits (st c) w = Some x \<and> w_result x = IPC_OK)"
    "pc c u = Replying \<Longrightarrow> t_state (thr (st c) u) = TASK_RUNNING \<longleftrightarrow> ipc_reply_pending (thr (st c) u) = 0"
  using assms unfolding calls_ok_def by blast+

lemma queued_waitE:
  assumes "queued_wait c e q w"
  obtains x where "waits (st c) w = Some x" "w_endpoint x = e" "w_msg x = w_partner x" "w_result x = IPC_ERR_NOPARTNER"
    "ref c (w_partner x) = Some e" "t_state (thr (st c) (w_partner x)) = TASK_INTERRUPTIBLE"
    "waiting (pc c (w_partner x)) = Some w"
    "if q then pc c (w_partner x) = Sending w \<and> w_operation x = IPC_OP_SEND \<or>
                    pc c (w_partner x) = Calling w \<and> w_operation x = IPC_OP_CALL
      else pc c (w_partner x) = Receiving w"
  using assms unfolding queued_wait_def by (cases q) auto

text \<open>A change of the endpoint table alone that keeps the queues.\<close>

definition same_queues :: "(nat \<Rightarrow> ipc_endpoint option) \<Rightarrow> (nat \<Rightarrow> ipc_endpoint option) \<Rightarrow> bool" where
  "same_queues h h' \<longleftrightarrow>
     (\<forall>e ep'. h' e = Some ep' \<longrightarrow> send_queue ep' = [] \<and> recv_queue ep' = [] \<or>
        (\<exists>ep. h e = Some ep \<and> send_queue ep' = send_queue ep \<and> recv_queue ep' = recv_queue ep \<and> ep_dead ep' = ep_dead ep)) \<and>
     (\<forall>e ep. h e = Some ep \<longrightarrow> send_queue ep = [] \<and> recv_queue ep = [] \<or>
        (\<exists>ep'. h' e = Some ep' \<and> send_queue ep' = send_queue ep \<and> recv_queue ep' = recv_queue ep))"

lemma same_queues_queued:
  assumes "same_queues (eps s) (eps s')"
  shows "queued s' w = queued s w"
proof
  assume "queued s' w"
  then obtain e ep' where e: "eps s' e = Some ep'" "w \<in> set (send_queue ep') \<or> w \<in> set (recv_queue ep')"
    by (auto simp: queued_def)
  moreover from this assms obtain ep where "eps s e = Some ep" "send_queue ep' = send_queue ep" "recv_queue ep' = recv_queue ep"
    unfolding same_queues_def by (metis empty_iff empty_set)
  ultimately show "queued s w" unfolding queued_def by metis
next
  assume "queued s w"
  then obtain e ep where e: "eps s e = Some ep" "w \<in> set (send_queue ep) \<or> w \<in> set (recv_queue ep)"
    by (auto simp: queued_def)
  moreover from this assms obtain ep' where "eps s' e = Some ep'" "send_queue ep' = send_queue ep" "recv_queue ep' = recv_queue ep"
    unfolding same_queues_def by (metis empty_iff empty_set)
  ultimately show "queued s' w" unfolding queued_def by metis
qed

lemma table_frame:
  assumes ok: "queues_ok c" "waits_ok c" "calls_ok c"
    and s': "waits s' = waits (st c)" "sched s' = sched (st c)" "same_queues (eps (st c)) (eps s')"
    and r: "\<And>t. waiting (pc c t) \<noteq> None \<Longrightarrow> r' t = ref c t"
  shows "queues_ok (c\<lparr>st := s', ref := r'\<rparr>)" "waits_ok (c\<lparr>st := s', ref := r'\<rparr>)" "calls_ok (c\<lparr>st := s', ref := r'\<rparr>)"
proof -
  have qw: "queued_wait (c\<lparr>st := s', ref := r'\<rparr>) e q w" if "queued_wait c e q w" for e q w
  proof -
    from that obtain x where x: "waits (st c) w = Some x" "waiting (pc c (w_partner x)) = Some w" by (rule queued_waitE)
    then have "r' (w_partner x) = ref c (w_partner x)" using r by simp
    then show ?thesis using that x(1) s'(1,2) by (simp add: queued_wait_def)
  qed
  show "queues_ok (c\<lparr>st := s', ref := r'\<rparr>)"
    unfolding queues_ok_def
  proof (intro allI impI)
    fix e ep' assume "eps (st (c\<lparr>st := s', ref := r'\<rparr>)) e = Some ep'"
    then have "eps s' e = Some ep'" by simp
    then consider "send_queue ep' = [] \<and> recv_queue ep' = []"
      | ep where "eps (st c) e = Some ep" "send_queue ep' = send_queue ep" "recv_queue ep' = recv_queue ep" "ep_dead ep' = ep_dead ep"
      using s'(3) unfolding same_queues_def by blast
    then show "distinct (send_queue ep') \<and> distinct (recv_queue ep') \<and> (send_queue ep' = [] \<or> recv_queue ep' = []) \<and>
      (ep_dead ep' \<longrightarrow> send_queue ep' = [] \<and> recv_queue ep' = []) \<and>
      (\<forall>w \<in> set (send_queue ep'). queued_wait (c\<lparr>st := s', ref := r'\<rparr>) e True w) \<and>
      (\<forall>w \<in> set (recv_queue ep'). queued_wait (c\<lparr>st := s', ref := r'\<rparr>) e False w)"
    proof cases
      case (2 ep)
      then show ?thesis using queues_okD [OF ok(1) 2(1)] qw by simp
    qed simp
  qed
  have "queued s' w = queued (st c) w" for w using same_queues_queued [OF s'(3)] .
  then show "waits_ok (c\<lparr>st := s', ref := r'\<rparr>)"
    using ok(2) r s'(1,2) unfolding waits_ok_def by simp
  show "calls_ok (c\<lparr>st := s', ref := r'\<rparr>)" using ok(3) s'(1,2) unfolding calls_ok_def by simp
qed

subsection \<open>Endpoints: creation, references\<close>

lemma listed_flags: "(f OR EP_FLAG_LISTED) AND EP_FLAG_LISTED \<noteq> 0"
  by (simp add: EP_FLAG_LISTED_def or_and_same)

lemma no_ref_fresh: "heap_ok L H W R \<Longrightarrow> H e = None \<Longrightarrow> {t. R t = Some e} = {}"
  using heap_okD(6) [of L H W R _ e] by fastforce

lemma finite_refs: "heap_ok L H W R \<Longrightarrow> finite {t. R t = Some e}"
  by (rule finite_subset [OF _ heap_okD(2)]) auto

definition new_endpoint :: "nat option \<Rightarrow> u32 \<Rightarrow> u32 \<Rightarrow> ipc_endpoint" where
  "new_endpoint owner eid flags = \<lparr>ep_id = eid, ep_flags = flags OR EP_FLAG_LISTED, send_queue = [],
     recv_queue = [], refcount = 1, ep_owner = owner, bound_thread = None, msgs_sent = 0, msgs_received = 0\<rparr>"

definition add_endpoint :: "ipc_state \<Rightarrow> nat \<Rightarrow> nat option \<Rightarrow> u32 \<Rightarrow> u32 \<Rightarrow> ipc_state" where
  "add_endpoint s e owner eid flags =
     s\<lparr>eps := (eps s)(e := Some (new_endpoint owner eid flags)), endpoint_list := e # endpoint_list s,
       owned_endpoints := (case owner of None \<Rightarrow> owned_endpoints s
          | Some p \<Rightarrow> (owned_endpoints s)(p := owned_endpoints s p @ [e]))\<rparr>"

lemma new_endpoint_sel [simp]:
  "send_queue (new_endpoint owner eid flags) = []" "recv_queue (new_endpoint owner eid flags) = []"
  "ep_listed (new_endpoint owner eid flags)" "refcount (new_endpoint owner eid flags) = 1"
  "ep_owner (new_endpoint owner eid flags) = owner" "ep_id (new_endpoint owner eid flags) = eid"
  using listed_flags [of flags] by (simp_all add: new_endpoint_def)

lemma add_endpoint_heap:
  assumes ok: "heap_ok L H W R" and e: "H e = None"
  shows "heap_ok (e # L) (H(e := Some (new_endpoint owner eid flags)))
    (case owner of None \<Rightarrow> W | Some p \<Rightarrow> W(p := W p @ [e])) R" (is "heap_ok _ ?H ?W R")
proof (rule heap_okI)
  note D = heap_okD [OF ok]
  have notin: "e \<notin> set L" "e \<notin> set (W p)" for p using D(3) [of e] D(8) [of e p] e by auto
  have own: "x \<in> set (?W p) \<longleftrightarrow> x \<in> set (W p) \<or> x = e \<and> owner = Some p" for x p by (auto split: option.splits)
  show "distinct (e # L)" using D(1) notin(1) by simp
  show "finite (dom R)" by (rule D(2))
  show "x \<in> set (e # L) \<longleftrightarrow> (\<exists>ep. ?H x = Some ep \<and> ep_listed ep)" for x
    using D(3) [of x] by (cases "x = e") auto
  show "refcount ep = of_bool (ep_listed ep) + int (card {t. R t = Some x})" if "?H x = Some ep" for x ep
    using that D(4) [of x ep] no_ref_fresh [OF ok e] new_endpoint_sel [of owner eid flags] by (cases "x = e") auto
  show "refcount ep > 0" if "?H x = Some ep" for x ep using that D(5) [of x ep] by (cases "x = e") auto
  show "\<exists>ep. ?H x = Some ep" if "R t = Some x" for t x using D(6) [OF that] by auto
  show "distinct (?W p)" for p using D(7) [of p] notin(2) [of p] by (auto split: option.splits)
  show "\<exists>ep. ?H x = Some ep \<and> ep_listed ep \<and> ep_owner ep = Some p" if "x \<in> set (?W p)" for p x
    using that D(8) [of x p] notin(2) [of p] new_endpoint_sel [of owner eid flags] unfolding own by (cases "x = e") auto
qed

lemma add_endpoint_ok:
  assumes inv: "ipc_inv c" and e: "eps (st c) e = None"
  shows "ipc_inv (c\<lparr>st := add_endpoint (st c) e owner eid flags\<rparr>)"
proof -
  let ?s = "add_endpoint (st c) e owner eid flags"
  have ok: "endpoints_ok c" "queues_ok c" "waits_ok c" "calls_ok c" using inv by (simp_all add: ipc_inv_def)
  have "endpoints_ok (c\<lparr>st := ?s\<rparr>)"
    using add_endpoint_heap [OF ok(1) e, of owner eid flags] by (simp add: add_endpoint_def)
  moreover have "same_queues (eps (st c)) (eps ?s)" using e by (auto simp: same_queues_def add_endpoint_def)
  then have "queues_ok (c\<lparr>st := ?s\<rparr>)" "waits_ok (c\<lparr>st := ?s\<rparr>)" "calls_ok (c\<lparr>st := ?s\<rparr>)"
    using table_frame [OF ok(2-4), of ?s "ref c"] by (simp_all add: add_endpoint_def)
  ultimately show ?thesis by (simp add: ipc_inv_def)
qed

lemma ipc_inv_next_id [simp]: "ipc_inv (c\<lparr>st := (st c)\<lparr>next_endpoint_id := n\<rparr>\<rparr>) = ipc_inv c"
  by (simp add: ipc_inv_def ipc_parts queued_wait_def queued_def)

lemma create_eq:
  "endpoint_create s owner flags a = (case alloc_endpoint_id s of (s1, eid) \<Rightarrow>
     Some (case a of None \<Rightarrow> (s1, None) | Some e \<Rightarrow> (add_endpoint s1 e owner eid flags, Some e)))"
  by (cases owner)
    (auto simp: endpoint_create_def alloc_endpoint_id_def init_endpoint_def link_to_owner_def add_endpoint_def new_endpoint_def
      Let_def split: option.splits)

lemma create_ok:
  assumes "ipc_inv c" "fresh (eps (st c)) a" "endpoint_create (st c) owner flags a = Some (s', r)"
  shows "ipc_inv (c\<lparr>st := s'\<rparr>)"
proof -
  obtain n eid where a: "alloc_endpoint_id (st c) = ((st c)\<lparr>next_endpoint_id := n\<rparr>, eid)"
    by (auto simp: alloc_endpoint_id_def Let_def)
  let ?c = "c\<lparr>st := (st c)\<lparr>next_endpoint_id := n\<rparr>\<rparr>"
  show ?thesis
  proof (cases a)
    case None
    then have "s' = (st c)\<lparr>next_endpoint_id := n\<rparr>" using assms(3) a by (simp add: create_eq)
    then show ?thesis using assms(1) by simp
  next
    case (Some e)
    then have "eps (st ?c) e = None" using assms(2) by (simp add: fresh_def)
    moreover have "s' = add_endpoint (st ?c) e owner eid flags" using assms(3) a Some by (simp add: create_eq)
    ultimately show ?thesis using add_endpoint_ok [of ?c e owner eid flags] assms(1) by simp
  qed
qed

lemma find_endpoint_ok:
  assumes "\<And>e. e \<in> set es \<Longrightarrow> \<exists>ep. eps s e = Some ep"
  obtains "find_endpoint s eid es = Some None" "\<And>e ep. e \<in> set es \<Longrightarrow> eps s e = Some ep \<Longrightarrow> ep_id ep \<noteq> eid \<or> ep_dead ep"
  | e ep where "find_endpoint s eid es = Some (Some e)" "e \<in> set es" "eps s e = Some ep" "ep_id ep = eid" "\<not> ep_dead ep"
  using assms
proof (induction es arbitrary: thesis)
  case (Cons x es)
  obtain ep where x: "eps s x = Some ep" using Cons.prems(3) [of x] by auto
  show ?case
  proof (cases "ep_id ep = eid \<and> \<not> ep_dead ep")
    case True
    then show ?thesis using x by (intro Cons.prems(2) [of x ep]) auto
  next
    case False
    then have f: "find_endpoint s eid (x # es) = find_endpoint s eid es" using x by auto
    show ?thesis
    proof (rule Cons.IH)
      show "\<exists>ep. eps s e = Some ep" if "e \<in> set es" for e using Cons.prems(3) that by simp
      assume "find_endpoint s eid es = Some None" "\<And>e ep. e \<in> set es \<Longrightarrow> eps s e = Some ep \<Longrightarrow> ep_id ep \<noteq> eid \<or> ep_dead ep"
      then show ?thesis using f x False by (intro Cons.prems(1)) auto
    next
      fix e epp assume "find_endpoint s eid es = Some (Some e)" "e \<in> set es" "eps s e = Some epp" "ep_id epp = eid" "\<not> ep_dead epp"
      then show ?thesis using f by (intro Cons.prems(2) [of e epp]) auto
    qed
  qed
qed simp

lemma create_wke_ok:
  assumes inv: "ipc_inv c" and fr: "fresh (eps (st c)) a"
  shows "\<exists>s' r. endpoint_create_well_known (st c) owner eid flags a = Some (s', r) \<and> ipc_inv (c\<lparr>st := s'\<rparr>)"
proof (cases "a = None \<or> eid < EP_WKE_MIN \<or> eid > EP_WKE_MAX")
  case True
  then show ?thesis using inv by (cases a) (auto simp: endpoint_create_well_known_def)
next
  case False
  then obtain e where a: "a = Some e" by auto
  have e: "eps (st c) e = None" using fr a by (simp add: fresh_def)
  have ok: "endpoints_ok c" using inv by (simp add: ipc_inv_def)
  let ?s1 = "(st c)\<lparr>eps := (eps (st c))(e := Some (new_endpoint owner eid flags))\<rparr>"
  have s1: "init_endpoint (st c) owner eid flags (Some e) = ?s1" by (simp add: init_endpoint_def new_endpoint_def)
  have "\<exists>ep. eps ?s1 x = Some ep" if "x \<in> set (endpoint_list (st c))" for x
    using heap_okD(3) [OF ok, of x] that by auto
  then obtain r where r: "find_endpoint_locked ?s1 eid = Some r"
    using find_endpoint_ok [of "endpoint_list (st c)" ?s1 eid] unfolding find_endpoint_locked_def by force
  have undo: "?s1\<lparr>eps := (eps ?s1)(e := None)\<rparr> = st c" using e by (simp add: fun_upd_idem)
  show ?thesis
  proof (cases r)
    case None
    have "endpoint_create_well_known (st c) owner eid flags a = Some (add_endpoint (st c) e owner eid flags, Some e)"
      using False a r None s1
      by (cases owner) (auto simp: endpoint_create_well_known_def link_to_owner_def add_endpoint_def Let_def)
    then show ?thesis using add_endpoint_ok [OF inv e] by simp
  next
    case (Some y)
    then have "endpoint_create_well_known (st c) owner eid flags a = Some (st c, None)"
      using False a r s1 undo by (auto simp: endpoint_create_well_known_def Let_def)
    then show ?thesis using inv by simp
  qed
qed

text \<open>Taking and dropping a reference; also for the reference that the teardown of a process takes.\<close>

lemma card_ref_upd:
  assumes "heap_ok L H W R" "R t = None"
  shows "card {u. (R(t := Some e)) u = Some x} = card {u. R u = Some x} + of_bool (x = e)"
proof (cases "x = e")
  case True
  have "{u. (R(t := Some e)) u = Some x} = insert t {u. R u = Some x}" using True by auto
  then show ?thesis using finite_refs [OF assms(1), of x] assms(2) True by simp
next
  case False
  then have "{u. (R(t := Some e)) u = Some x} = {u. R u = Some x}" using assms(2) by auto
  then show ?thesis using False by simp
qed

lemma get_ref_heap:
  assumes ok: "heap_ok L H W R" and t: "R t = None" and e: "H e = Some ep"
    and own: "\<And>p. distinct (W' p)" "\<And>p. set (W' p) \<subseteq> set (W p)"
  shows "heap_ok L (H(e := Some (ep\<lparr>refcount := refcount ep + 1\<rparr>))) W' (R(t := Some e))" (is "heap_ok L ?H W' ?R")
proof (rule heap_okI)
  note D = heap_okD [OF ok]
  show "distinct L" by (rule D(1))
  show "finite (dom ?R)" using D(2) by simp
  show "x \<in> set L \<longleftrightarrow> (\<exists>ep. ?H x = Some ep \<and> ep_listed ep)" for x using D(3) [of x] e by (cases "x = e") auto
  show "refcount ep' = of_bool (ep_listed ep') + int (card {u. ?R u = Some x})" if "?H x = Some ep'" for x ep'
    using that D(4) [of x ep'] D(4) [OF e] unfolding card_ref_upd [OF ok t] by (cases "x = e") auto
  show "refcount ep' > 0" if "?H x = Some ep'" for x ep' using that D(5) [of x ep'] D(5) [OF e] by (cases "x = e") auto
  show "\<exists>ep. ?H x = Some ep" if "?R u = Some x" for u x using D(6) [of u x] that by (cases "u = t"; cases "x = e") auto
  show "distinct (W' p)" for p by (rule own(1))
  show "\<exists>ep. ?H x = Some ep \<and> ep_listed ep \<and> ep_owner ep = Some p" if "x \<in> set (W' p)" for p x
    using D(8) [of x p] own(2) [of p] that e by (cases "x = e") auto
qed

lemma get_ref_ok:
  assumes inv: "ipc_inv c" and t: "ref c t = None" and e: "eps (st c) e = Some ep"
    and own: "\<And>p. distinct (own p)" "\<And>p. set (own p) \<subseteq> set (owned_endpoints (st c) p)"
  shows "ipc_inv (c\<lparr>st := (st c)\<lparr>eps := (eps (st c))(e := Some (ep\<lparr>refcount := refcount ep + 1\<rparr>)), owned_endpoints := own\<rparr>,
    ref := (ref c)(t := Some e)\<rparr>)" (is "ipc_inv (c\<lparr>st := ?s, ref := ?r\<rparr>)")
proof -
  have ok: "endpoints_ok c" "queues_ok c" "waits_ok c" "calls_ok c" using inv by (simp_all add: ipc_inv_def)
  have "endpoints_ok (c\<lparr>st := ?s, ref := ?r\<rparr>)" using get_ref_heap [OF ok(1) t e own] by simp
  moreover have "same_queues (eps (st c)) (eps ?s)" using e by (auto simp: same_queues_def)
  moreover have "?r u = ref c u" if "waiting (pc c u) \<noteq> None" for u
    using waits_okD(1) [OF ok(3), of u] that t by (cases "u = t") auto
  ultimately show ?thesis using table_frame [OF ok(2-4), of ?s ?r] by (simp add: ipc_inv_def)
qed

lemma get_ok:
  assumes inv: "ipc_inv c" and t: "ref c t = None"
  shows "\<exists>s' r. endpoint_get (st c) eid = Some (s', r) \<and> (case r of
      None \<Rightarrow> s' = st c
    | Some e \<Rightarrow> ipc_inv (c\<lparr>st := s', ref := (ref c)(t := Some e)\<rparr>))"
proof -
  have ok: "endpoints_ok c" using inv by (simp add: ipc_inv_def)
  have al: "\<exists>ep. eps (st c) x = Some ep" if "x \<in> set (endpoint_list (st c))" for x
    using heap_okD(3) [OF ok, of x] that by auto
  from al show ?thesis
  proof (rule find_endpoint_ok [of "endpoint_list (st c)"])
    assume "find_endpoint (st c) eid (endpoint_list (st c)) = Some None"
    then show ?thesis by (simp add: endpoint_get_def)
  next
    fix e ep assume f: "find_endpoint (st c) eid (endpoint_list (st c)) = Some (Some e)" and e: "eps (st c) e = Some ep"
    from get_ref_ok [OF inv t e, of "owned_endpoints (st c)"] heap_okD(7) [OF ok] show ?thesis
      using f e by (simp add: endpoint_get_def upd_ep_def)
  qed
qed

subsection \<open>Waiters that are served\<close>

text \<open>
  Taking the wait objects \<open>D\<close> out of the queues and waking their threads, whatever the result they get.
\<close>

definition unqueue :: "nat set \<Rightarrow> (nat \<Rightarrow> ipc_endpoint option) \<Rightarrow> (nat \<Rightarrow> ipc_endpoint option) \<Rightarrow> bool" where
  "unqueue D h h' \<longleftrightarrow> (\<forall>e. h e = None \<longleftrightarrow> h' e = None) \<and> (\<forall>e ep ep'. h e = Some ep \<longrightarrow> h' e = Some ep' \<longrightarrow>
     send_queue ep' = filter (\<lambda>w. w \<notin> D) (send_queue ep) \<and> recv_queue ep' = filter (\<lambda>w. w \<notin> D) (recv_queue ep) \<and>
     (ep_dead ep' \<longrightarrow> ep_dead ep \<or> send_queue ep' = [] \<and> recv_queue ep' = []))"

lemma unqueueD:
  assumes "unqueue D h h'" "h' e = Some ep'"
  obtains ep where "h e = Some ep" "send_queue ep' = filter (\<lambda>w. w \<notin> D) (send_queue ep)"
    "recv_queue ep' = filter (\<lambda>w. w \<notin> D) (recv_queue ep)"
    "ep_dead ep' \<Longrightarrow> ep_dead ep \<or> send_queue ep' = [] \<and> recv_queue ep' = []"
proof -
  from assms obtain ep where "h e = Some ep" unfolding unqueue_def by (cases "h e") auto
  then show thesis using assms that unfolding unqueue_def by blast
qed

lemma unqueue_queued:
  assumes "unqueue D (eps s) (eps s')"
  shows "queued s' w \<longleftrightarrow> queued s w \<and> w \<notin> D"
proof
  assume "queued s' w"
  then obtain e ep' where "eps s' e = Some ep'" "w \<in> set (send_queue ep') \<or> w \<in> set (recv_queue ep')" by (auto simp: queued_def)
  moreover from unqueueD [OF assms this(1)] obtain ep where "eps s e = Some ep" "send_queue ep' = filter (\<lambda>w. w \<notin> D) (send_queue ep)"
    "recv_queue ep' = filter (\<lambda>w. w \<notin> D) (recv_queue ep)" by blast
  ultimately show "queued s w \<and> w \<notin> D" by (auto simp: queued_def)
next
  assume *: "queued s w \<and> w \<notin> D"
  from conjunct1 [OF *] obtain e ep where e: "eps s e = Some ep" "w \<in> set (send_queue ep) \<or> w \<in> set (recv_queue ep)" by (auto simp: queued_def)
  moreover from assms e(1) obtain ep' where "eps s' e = Some ep'" unfolding unqueue_def by (metis option.exhaust)
  moreover from unqueueD [OF assms this] e(1) have "send_queue ep' = filter (\<lambda>w. w \<notin> D) (send_queue ep)"
    "recv_queue ep' = filter (\<lambda>w. w \<notin> D) (recv_queue ep)" by (metis option.inject)+
  ultimately have "eps s' e = Some ep' \<and> (w \<in> set (send_queue ep') \<or> w \<in> set (recv_queue ep'))" using conjunct2 [OF *] by auto
  then show "queued s' w" unfolding queued_def by blast
qed

text \<open>What a step may do to the threads: wake those that wait on \<open>D\<close>, and set the results of \<open>D\<close>.\<close>

definition wakes :: "ipc_sys \<Rightarrow> nat set \<Rightarrow> ipc_state \<Rightarrow> bool" where
  "wakes c D s' \<longleftrightarrow>
     (\<forall>w. w \<notin> D \<longrightarrow> waits s' w = waits (st c) w) \<and>
     (\<forall>w \<in> D. \<exists>x x'. waits (st c) w = Some x \<and> waits s' w = Some x' \<and> w_endpoint x' = w_endpoint x) \<and>
     (\<forall>t. t_state (thr s' t) = (if \<exists>w \<in> D. waiting (pc c t) = Some w then TASK_RUNNING else t_state (thr (st c) t)))"

lemma wakesD:
  assumes "wakes c D s'"
  shows "w \<notin> D \<Longrightarrow> waits s' w = waits (st c) w"
    "waits (st c) w = Some x \<Longrightarrow> \<exists>x'. waits s' w = Some x' \<and> w_endpoint x' = w_endpoint x"
    "waits s' w = Some x' \<Longrightarrow> \<exists>x. waits (st c) w = Some x"
    "t_state (thr s' t) = (if \<exists>w \<in> D. waiting (pc c t) = Some w then TASK_RUNNING else t_state (thr (st c) t))"
proof -
  note D = assms [unfolded wakes_def]
  show "w \<notin> D \<Longrightarrow> waits s' w = waits (st c) w" using D by blast
  show "\<exists>x'. waits s' w = Some x' \<and> w_endpoint x' = w_endpoint x" if "waits (st c) w = Some x"
  proof (cases "w \<in> D")
    case True
    then obtain y x' where "waits (st c) w = Some y" "waits s' w = Some x'" "w_endpoint x' = w_endpoint y" using D by blast
    then show ?thesis using that by simp
  next
    case False then show ?thesis using D that by simp
  qed
  show "\<exists>x. waits (st c) w = Some x" if "waits s' w = Some x'"
    using D that by (cases "w \<in> D") (blast, simp)
  show "t_state (thr s' t) = (if \<exists>w \<in> D. waiting (pc c t) = Some w then TASK_RUNNING else t_state (thr (st c) t))" using D by blast
qed

lemma serve_queues:
  assumes ok: "queues_ok c" "waits_ok c" and u: "unqueue D (eps (st c)) (eps s')" and w: "wakes c D s'"
  shows "queues_ok (c\<lparr>st := s'\<rparr>)"
proof -
  have qw: "queued_wait (c\<lparr>st := s'\<rparr>) e q w" if "queued_wait c e q w" "w \<notin> D" for e q w
  proof -
    from that(1) obtain x where x: "waits (st c) w = Some x" "waiting (pc c (w_partner x)) = Some w" by (rule queued_waitE)
    then have "\<not> (\<exists>w \<in> D. waiting (pc c (w_partner x)) = Some w)" using that(2) by auto
    then have "t_state (thr s' (w_partner x)) = t_state (thr (st c) (w_partner x))" using wakesD(4) [OF w] by simp
    then show ?thesis using that(1) x(1) wakesD(1) [OF w that(2)] by (simp add: queued_wait_def)
  qed
  show ?thesis
    unfolding queues_ok_def
  proof (intro allI impI)
    fix e ep' assume "eps (st (c\<lparr>st := s'\<rparr>)) e = Some ep'"
    then have "eps s' e = Some ep'" by simp
    from unqueueD [OF u this] obtain ep where e: "eps (st c) e = Some ep" "send_queue ep' = filter (\<lambda>w. w \<notin> D) (send_queue ep)"
      "recv_queue ep' = filter (\<lambda>w. w \<notin> D) (recv_queue ep)" "ep_dead ep' \<Longrightarrow> ep_dead ep \<or> send_queue ep' = [] \<and> recv_queue ep' = []"
      by blast
    note q = queues_okD [OF ok(1) e(1)]
    have "distinct (send_queue ep')" "distinct (recv_queue ep')" using q(1,2) e(2,3) by simp_all
    moreover have "send_queue ep' = [] \<or> recv_queue ep' = []" using q(3) e(2,3) by auto
    moreover have "ep_dead ep' \<longrightarrow> send_queue ep' = [] \<and> recv_queue ep' = []" using q(4,5) e(2-4) by auto
    ultimately show "distinct (send_queue ep') \<and> distinct (recv_queue ep') \<and> (send_queue ep' = [] \<or> recv_queue ep' = []) \<and>
      (ep_dead ep' \<longrightarrow> send_queue ep' = [] \<and> recv_queue ep' = []) \<and>
      (\<forall>w \<in> set (send_queue ep'). queued_wait (c\<lparr>st := s'\<rparr>) e True w) \<and>
      (\<forall>w \<in> set (recv_queue ep'). queued_wait (c\<lparr>st := s'\<rparr>) e False w)"
      using q(6,7) qw e(2,3) by simp
  qed
qed

lemma serve_waits:
  assumes ok: "waits_ok c" and u: "unqueue D (eps (st c)) (eps s')" and w: "wakes c D s'"
  shows "waits_ok (c\<lparr>st := s'\<rparr>)"
  unfolding waits_ok_def
proof (intro conjI allI impI)
  fix t v assume t: "waiting (pc (c\<lparr>st := s'\<rparr>) t) = Some v"
  then have t: "waiting (pc c t) = Some v" by simp
  from waits_okD(1) [OF ok t] obtain x where x: "waits (st c) v = Some x" "ref c t = Some (w_endpoint x)" by blast
  from wakesD(2) [OF w x(1)] x(2)
  show "\<exists>x. waits (st (c\<lparr>st := s'\<rparr>)) v = Some x \<and> ref (c\<lparr>st := s'\<rparr>) t = Some (w_endpoint x)" by auto
  assume "\<not> queued (st (c\<lparr>st := s'\<rparr>)) v"
  then have "v \<in> D \<or> \<not> queued (st c) v" using unqueue_queued [OF u, of v] by auto
  then show "t_state (thr (st (c\<lparr>st := s'\<rparr>)) t) = TASK_RUNNING"
    using wakesD(4) [OF w, of t] t waits_okD(2) [OF ok t] by auto
next
  show "t = y" if "waiting (pc (c\<lparr>st := s'\<rparr>) t) = Some v" "waiting (pc (c\<lparr>st := s'\<rparr>) y) = Some v" for t y v
    using waits_okD(3) [OF ok] that by simp
  show "\<exists>t. waiting (pc (c\<lparr>st := s'\<rparr>) t) = Some v" if "waits (st (c\<lparr>st := s'\<rparr>)) v \<noteq> None" for v
    using wakesD(3) [OF w, of v] waits_okD(4) [OF ok, of v] that by fastforce
qed

text \<open>The call links do not change, and neither do the threads that wait for a reply.\<close>

lemma calls_frame:
  assumes ok: "calls_ok c"
    and v: "\<And>u. ipc_view (thr s' u) = ipc_view (thr (st c) u)"
    and r: "\<And>u. p' u = Replying \<longleftrightarrow> pc c u = Replying" "\<And>u. pc c u = Replying \<Longrightarrow> t_state (thr s' u) = t_state (thr (st c) u)"
    and k: "\<And>u w x. pc c u = Calling w \<Longrightarrow> waits (st c) w = Some x \<Longrightarrow> w_result x = IPC_OK \<Longrightarrow>
      p' u = Calling w \<and> (\<exists>x'. waits s' w = Some x' \<and> w_result x' = IPC_OK)"
  shows "calls_ok (c\<lparr>st := s', pc := p', ref := r'\<rparr>)"
proof -
  note V = view_fields [OF v] and D = calls_okD [OF ok]
  have "p' u = Replying \<or> (\<exists>w x. p' u = Calling w \<and> waits s' w = Some x \<and> w_result x = IPC_OK)"
    if "ipc_reply_pending (thr (st c) u) \<noteq> 0" for u
    using D(3) [OF that] r(1) [of u] k [of u] by blast
  moreover have "t_state (thr s' u) = TASK_RUNNING \<longleftrightarrow> ipc_reply_pending (thr (st c) u) = 0" if "p' u = Replying" for u
    using that r [of u] D(4) [of u] by simp
  ultimately show ?thesis using D(1,2) by (simp add: calls_ok_def V)
qed

subsection \<open>Dropping a reference\<close>

lemma card_ref_drop:
  assumes "heap_ok L H W R" "R t = Some e"
  shows "card {u. R u = Some x} = card {u. (R(t := None)) u = Some x} + of_bool (x = e)"
proof (cases "x = e")
  case True
  have "{u. R u = Some x} = insert t {u. (R(t := None)) u = Some x}" using True assms(2) by auto
  moreover have "finite {u. (R(t := None)) u = Some x}" by (rule finite_subset [OF _ finite_refs [OF assms(1), of x]]) (auto split: if_splits)
  ultimately show ?thesis using True by simp
next
  case False
  then have "{u. (R(t := None)) u = Some x} = {u. R u = Some x}" using assms(2) by auto
  then show ?thesis using False by simp
qed

lemma drop_ref_heap:
  assumes ok: "heap_ok L H W R" and t: "R t = Some e" and e: "H e = Some ep"
  shows "heap_ok L (H(e := if refcount ep - 1 = 0 then None else Some (ep\<lparr>refcount := refcount ep - 1\<rparr>))) W (R(t := None))"
    (is "heap_ok L ?H W ?R")
proof (rule heap_okI)
  note D = heap_okD [OF ok] and C = card_ref_drop [OF ok t]
  have one: "\<not> ep_listed ep" "card {u. ?R u = Some e} = 0" if "refcount ep = 1"
  proof -
    have z: "of_bool (ep_listed ep) + int (card {u. ?R u = Some e}) = 0" using D(4) [OF e] that unfolding C [of e] by simp
    then show "card {u. ?R u = Some e} = 0" by (simp only: of_bool_def split: if_splits)
    with z show "\<not> ep_listed ep" by (simp split: if_splits)
  qed
  have fin: "finite {u. ?R u = Some x}" for x by (rule finite_subset [OF _ finite_refs [OF ok, of x]]) (auto split: if_splits)
  show "distinct L" by (rule D(1))
  show "finite (dom ?R)" using D(2) by simp
  show "x \<in> set L \<longleftrightarrow> (\<exists>ep. ?H x = Some ep \<and> ep_listed ep)" for x using D(3) [of x] e one(1) by (cases "x = e") auto
  show "refcount ep' = of_bool (ep_listed ep') + int (card {u. ?R u = Some x})" if "?H x = Some ep'" for x ep'
  proof -
    define n where "n = card {u. ?R u = Some x}"
    have "card {u. R u = Some x} = n + of_bool (x = e)" unfolding n_def by (rule C)
    then have "refcount ep' = of_bool (ep_listed ep') + int n"
      using that D(4) [of x ep'] D(4) [OF e] by (cases "x = e") (auto split: if_splits)
    then show ?thesis unfolding n_def .
  qed
  show "refcount ep' > 0" if "?H x = Some ep'" for x ep'
    using that D(5) [of x ep'] D(5) [OF e] by (cases "x = e") (auto split: if_splits)
  show "\<exists>ep. ?H x = Some ep" if "?R u = Some x" for u x
  proof -
    have "x = e \<Longrightarrow> refcount ep \<noteq> 1" using one(2) fin [of e] that by auto
    then show ?thesis using D(6) [of u x] that by (cases "x = e") (auto split: if_splits)
  qed
  show "distinct (W p)" for p by (rule D(7))
  show "\<exists>ep. ?H x = Some ep \<and> ep_listed ep \<and> ep_owner ep = Some p" if "x \<in> set (W p)" for p x
    using D(8) [OF that] e one(1) by (cases "x = e") auto
qed

text \<open>The holder of a reference that does not wait there is not the only one while threads wait.\<close>

lemma waiters_hold:
  assumes inv: "ipc_inv c" and t: "ref c t = Some e" "waiting (pc c t) = None" and e: "eps (st c) e = Some ep"
    and q: "send_queue ep \<noteq> [] \<or> recv_queue ep \<noteq> []"
  shows "refcount ep > 1"
proof -
  have ok: "endpoints_ok c" "queues_ok c" using inv by (simp_all add: ipc_inv_def)
  obtain w b where "queued_wait c e b w" using queues_okD(6,7) [OF ok(2) e] q by (metis last_in_set)
  then obtain x where x: "ref c (w_partner x) = Some e" "waiting (pc c (w_partner x)) = Some w" "waits (st c) w = Some x"
    by (rule queued_waitE) blast
  then have "w_partner x \<noteq> t" using t(2) by auto
  have "card {t, w_partner x} \<le> card {u. ref c u = Some e}" using x t finite_refs [OF ok(1)] by (intro card_mono) auto
  then show ?thesis using heap_okD(4) [OF ok(1) e] \<open>w_partner x \<noteq> t\<close> by simp
qed

lemma put_ok:
  assumes inv: "ipc_inv c" and t: "ref c t = Some e" "waiting (pc c t) = None"
  shows "\<exists>h. endpoint_put (st c) e = Some ((st c)\<lparr>eps := h\<rparr>) \<and>
    ipc_inv (c\<lparr>st := (st c)\<lparr>eps := h\<rparr>, ref := (ref c)(t := None)\<rparr>)"
proof -
  have ok: "endpoints_ok c" "queues_ok c" "waits_ok c" "calls_ok c" using inv by (simp_all add: ipc_inv_def)
  obtain ep where e: "eps (st c) e = Some ep" using heap_okD(6) [OF ok(1) t(1)] by auto
  let ?h = "(eps (st c))(e := if refcount ep - 1 = 0 then None else Some (ep\<lparr>refcount := refcount ep - 1\<rparr>))"
  let ?c = "c\<lparr>st := (st c)\<lparr>eps := ?h\<rparr>, ref := (ref c)(t := None)\<rparr>"
  have "endpoint_put (st c) e = Some ((st c)\<lparr>eps := ?h\<rparr>)" using e by (simp add: endpoint_put_def)
  moreover have "endpoints_ok ?c" using drop_ref_heap [OF ok(1) t(1) e] by simp
  moreover have "refcount ep = 1 \<Longrightarrow> send_queue ep = [] \<and> recv_queue ep = []" using waiters_hold [OF inv t e] by force
  then have "same_queues (eps (st c)) ?h" using e by (auto simp: same_queues_def)
  moreover have "((ref c)(t := None)) u = ref c u" if "waiting (pc c u) \<noteq> None" for u using that t(2) by (cases "u = t") auto
  ultimately show ?thesis
    using table_frame [OF ok(2-4), of "(st c)\<lparr>eps := ?h\<rparr>" "(ref c)(t := None)"]
    by (intro exI [of _ ?h]) (simp add: ipc_inv_def)
qed

subsection \<open>Destruction\<close>

definition dead_result :: "nat set \<Rightarrow> (nat \<Rightarrow> ipc_wait option) \<Rightarrow> nat \<Rightarrow> ipc_wait option" where
  "dead_result D f = (\<lambda>w. if w \<in> D then map_option (\<lambda>x. x\<lparr>w_result := IPC_ERR_DEAD\<rparr>) (f w) else f w)"

definition waking :: "ipc_state \<Rightarrow> nat list \<Rightarrow> sched_state" where
  "waking s ws = fold (\<lambda>w sc. sched_wakeup sc (w_partner (the (waits s w)))) ws (sched s)"

lemma dead_result_empty [simp]: "dead_result {} f = f"
  by (simp add: dead_result_def)

lemma wake_dead_eq:
  "(\<forall>w \<in> set ws. waits s w \<noteq> None) \<Longrightarrow>
   wake_dead ws s = Some (s\<lparr>waits := dead_result (set ws) (waits s), sched := waking s ws\<rparr>)"
proof (induction ws arbitrary: s)
  case (Cons w ws)
  then obtain x where x: "waits s w = Some x" by auto
  let ?s = "s\<lparr>waits := (waits s)(w := Some (x\<lparr>w_result := IPC_ERR_DEAD\<rparr>)), sched := sched_wakeup (sched s) (w_partner x)\<rparr>"
  have "wake_dead ws ?s = Some (?s\<lparr>waits := dead_result (set ws) (waits ?s), sched := waking ?s ws\<rparr>)"
    using Cons.prems by (intro Cons.IH) auto
  moreover have "dead_result (set ws) (waits ?s) = dead_result (set (w # ws)) (waits s)"
    using x by (auto simp: dead_result_def fun_eq_iff)
  moreover have "w_partner (the (waits ?s v)) = w_partner (the (waits s v))" for v using x by simp
  then have "waking ?s ws = waking s (w # ws)" using x unfolding waking_def by simp
  ultimately show ?case using x by simp
qed (simp add: dead_result_def waking_def)

lemma waking_view: "ipc_view (threads (waking s ws) t) = ipc_view (thr s t)"
  unfolding waking_def
proof (induction ws arbitrary: s rule: rev_induct)
  case (snoc w ws) then show ?case by simp
qed simp

lemma waking_state: "t_state (threads (waking s ws) t) =
  (if \<exists>w \<in> set ws. w_partner (the (waits s w)) = t then TASK_RUNNING else t_state (thr s t))"
  unfolding waking_def
proof (induction ws arbitrary: s rule: rev_induct)
  case (snoc w ws) then show ?case by auto
qed simp

text \<open>The state after the destruction of a live endpoint.\<close>

definition dead_endpoint :: "ipc_endpoint \<Rightarrow> ipc_endpoint" where
  "dead_endpoint ep = ep\<lparr>ep_flags := (if ep_listed ep then (ep_flags ep OR EP_FLAG_DEAD) AND NOT EP_FLAG_LISTED
      else ep_flags ep OR EP_FLAG_DEAD), send_queue := [], recv_queue := [],
     refcount := refcount ep - of_bool (ep_listed ep)\<rparr>"

definition destroyed :: "ipc_state \<Rightarrow> nat \<Rightarrow> ipc_endpoint \<Rightarrow> ipc_state" where
  "destroyed s e ep =
     s\<lparr>eps := (eps s)(e := Some (dead_endpoint ep)),
       waits := dead_result (set (send_queue ep @ recv_queue ep)) (waits s), sched := waking s (send_queue ep @ recv_queue ep),
       endpoint_list := (if ep_listed ep then remove1 e (endpoint_list s) else endpoint_list s),
       owned_endpoints := (if ep_listed ep then (case ep_owner ep of None \<Rightarrow> owned_endpoints s
          | Some p \<Rightarrow> (owned_endpoints s)(p := remove1 e (owned_endpoints s p))) else owned_endpoints s)\<rparr>"

lemma dead_flags:
  "(f OR EP_FLAG_DEAD) AND EP_FLAG_LISTED = f AND EP_FLAG_LISTED" "(f OR EP_FLAG_DEAD) AND EP_FLAG_DEAD \<noteq> 0"
  "((f OR EP_FLAG_DEAD) AND NOT EP_FLAG_LISTED) AND EP_FLAG_LISTED = 0"
  "((f OR EP_FLAG_DEAD) AND NOT EP_FLAG_LISTED) AND EP_FLAG_DEAD = (f OR EP_FLAG_DEAD) AND EP_FLAG_DEAD"
proof -
  show "(f OR EP_FLAG_DEAD) AND EP_FLAG_LISTED = f AND EP_FLAG_LISTED"
    by (rule bit_eqI) (auto simp: EP_FLAG_DEAD_def EP_FLAG_LISTED_def bit_simps bit_numeral_rec split: nat.splits)
  show "(f OR EP_FLAG_DEAD) AND EP_FLAG_DEAD \<noteq> 0" by (simp add: EP_FLAG_DEAD_def or_and_same)
  show "((f OR EP_FLAG_DEAD) AND NOT EP_FLAG_LISTED) AND EP_FLAG_LISTED = 0" by (rule bit_eqI) (auto simp: bit_simps)
  show "((f OR EP_FLAG_DEAD) AND NOT EP_FLAG_LISTED) AND EP_FLAG_DEAD = (f OR EP_FLAG_DEAD) AND EP_FLAG_DEAD"
    by (rule bit_eqI) (auto simp: EP_FLAG_DEAD_def EP_FLAG_LISTED_def bit_simps bit_numeral_rec split: nat.splits)
qed

lemma dead_endpoint_sel [simp]:
  "ep_dead (dead_endpoint ep)" "\<not> ep_listed (dead_endpoint ep)" "send_queue (dead_endpoint ep) = []"
  "recv_queue (dead_endpoint ep) = []" "refcount (dead_endpoint ep) = refcount ep - of_bool (ep_listed ep)"
  using dead_flags [of "ep_flags ep"] by (auto simp: dead_endpoint_def)

lemma destroy_eq:
  assumes e: "eps s e = Some ep" and live: "\<not> ep_dead ep" and q: "send_queue ep = [] \<or> recv_queue ep = []"
    and w: "\<forall>w \<in> set (send_queue ep @ recv_queue ep). waits s w \<noteq> None" and r: "ep_listed ep \<Longrightarrow> refcount ep > 1"
  shows "endpoint_destroy s e = Some (destroyed s e ep)"
proof -
  let ?fl = "ep_flags ep OR EP_FLAG_DEAD" and ?ws = "send_queue ep @ recv_queue ep"
  let ?f1 = "if ep_listed ep then ?fl AND NOT EP_FLAG_LISTED else ?fl"
  let ?s1 = "s\<lparr>eps := (eps s)(e := Some (ep\<lparr>ep_flags := ?f1\<rparr>))\<rparr>"
  let ?h = "(eps s)(e := Some (ep\<lparr>ep_flags := ?f1, send_queue := []\<rparr>))"
  let ?s2 = "s\<lparr>waits := dead_result (set (send_queue ep)) (waits s), sched := waking s (send_queue ep), eps := ?h\<rparr>"
  let ?s3 = "s\<lparr>waits := dead_result (set ?ws) (waits s), sched := waking s ?ws, eps := ?h\<rparr>"
  have 1: "wake_dead (send_queue ep) ?s1 = Some (?s1\<lparr>waits := dead_result (set (send_queue ep)) (waits s), sched := waking s (send_queue ep)\<rparr>)"
    using w by (subst wake_dead_eq) (simp_all add: waking_def)
  have 3: "wake_dead (recv_queue ep) ?s2 = Some ?s3"
    using q
  proof
    assume "send_queue ep = []"
    then show ?thesis using w by (subst wake_dead_eq) (simp_all add: waking_def)
  qed simp
  have f1: "(ep_flags ep OR EP_FLAG_DEAD) AND EP_FLAG_LISTED \<noteq> 0 \<longleftrightarrow> ep_listed ep" using dead_flags(1) by simp
  have "endpoint_destroy s e = Option.bind (if ep_listed ep
      then Option.bind (unlink_from_owner (?s3\<lparr>eps := (eps ?s3)(e := Some (ep\<lparr>ep_flags := ?f1, send_queue := [], recv_queue := []\<rparr>)),
             endpoint_list := remove1 e (endpoint_list s)\<rparr>) e) (\<lambda>s5. endpoint_put s5 e)
      else Some (?s3\<lparr>eps := (eps ?s3)(e := Some (ep\<lparr>ep_flags := ?f1, send_queue := [], recv_queue := []\<rparr>))\<rparr>))
      (\<lambda>s6. Option.bind (eps s6 e) (\<lambda>_. Some s6))"
    unfolding endpoint_destroy_def e Option.bind.simps Let_def f1 1 upd_ep_def
    using live 3 by (cases "ep_listed ep") simp_all
  moreover have "ep_listed ep \<Longrightarrow> refcount ep \<noteq> 1" using r by auto
  ultimately show ?thesis
    by (cases "ep_listed ep"; cases "ep_owner ep")
      (simp_all add: unlink_from_owner_def endpoint_put_def destroyed_def dead_endpoint_def)
qed

lemma unlist_heap:
  assumes ok: "heap_ok L H W R" and e: "H e = Some ep" and t: "R t = Some e"
  shows "heap_ok (if ep_listed ep then remove1 e L else L) (H(e := Some (dead_endpoint ep)))
    (if ep_listed ep then (case ep_owner ep of None \<Rightarrow> W | Some p \<Rightarrow> W(p := remove1 e (W p))) else W) R"
    (is "heap_ok ?L ?H ?W R")
proof (rule heap_okI)
  note D = heap_okD [OF ok]
  have L: "set ?L = set L - {e}" using D(1) D(3) [of e] e by auto
  have W: "set (?W p) = set (W p) - {e}" for p
    using D(7) [of p] D(8) [of e p] e by (auto split: option.splits)
  have held: "card {u. R u = Some e} > 0" using finite_refs [OF ok] t by (auto simp: card_gt_0_iff)
  show "distinct ?L" using D(1) by simp
  show "finite (dom R)" by (rule D(2))
  show "x \<in> set ?L \<longleftrightarrow> (\<exists>ep. ?H x = Some ep \<and> ep_listed ep)" for x
    unfolding L using D(3) [of x] dead_endpoint_sel(2) [of ep] by (cases "x = e") auto
  show "refcount ep' = of_bool (ep_listed ep') + int (card {u. R u = Some x})" if "?H x = Some ep'" for x ep'
    using that D(4) [of x ep'] D(4) [OF e] dead_endpoint_sel(2) [of ep] by (cases "x = e") auto
  show "refcount ep' > 0" if "?H x = Some ep'" for x ep'
    using that D(5) [of x ep'] D(4) [OF e] held by (cases "x = e") auto
  show "\<exists>ep. ?H x = Some ep" if "R u = Some x" for u x using D(6) [OF that] by auto
  show "distinct (?W p)" for p using D(7) [of p] by (auto split: option.splits)
  show "\<exists>ep. ?H x = Some ep \<and> ep_listed ep \<and> ep_owner ep = Some p" if "x \<in> set (?W p)" for p x
    using that D(8) [of x p] unfolding W by (cases "x = e") auto
qed

lemma partner_iff:
  assumes "waits_ok c" "queued_wait c e q w"
  shows "w_partner (the (waits (st c) w)) = t \<longleftrightarrow> waiting (pc c t) = Some w"
proof -
  from assms(2) obtain x where x: "waits (st c) w = Some x" "waiting (pc c (w_partner x)) = Some w" by (rule queued_waitE)
  then show ?thesis using waits_okD(3) [OF assms(1), of t w "w_partner x"] by auto
qed

lemma queue_of:
  assumes ok: "queues_ok c" and e: "eps (st c) e = Some ep" "w \<in> set (send_queue ep) \<union> set (recv_queue ep)"
    and e': "eps (st c) e' = Some ep'" "w \<in> set (send_queue ep') \<union> set (recv_queue ep')"
  shows "e = e'"
proof -
  obtain q q' where "queued_wait c e q w" "queued_wait c e' q' w" using queues_okD(6,7) [OF ok] e e' by blast
  then show ?thesis by (auto simp: queued_wait_def)
qed

text \<open>Taking out wait objects of one endpoint leaves the queues of the others.\<close>

lemma unqueue_one:
  assumes ok: "queues_ok c" and e: "eps (st c) e = Some ep" and D: "D \<subseteq> set (send_queue ep) \<union> set (recv_queue ep)"
    and q: "send_queue ep' = filter (\<lambda>w. w \<notin> D) (send_queue ep)" "recv_queue ep' = filter (\<lambda>w. w \<notin> D) (recv_queue ep)"
    and d: "ep_dead ep' \<Longrightarrow> ep_dead ep \<or> send_queue ep' = [] \<and> recv_queue ep' = []"
  shows "unqueue D (eps (st c)) ((eps (st c))(e := Some ep'))"
  unfolding unqueue_def
proof (intro conjI allI impI)
  fix x epx epx' assume x: "eps (st c) x = Some epx" "((eps (st c))(e := Some ep')) x = Some epx'"
  have keep: "filter (\<lambda>w. w \<notin> D) (send_queue epx) = send_queue epx" "filter (\<lambda>w. w \<notin> D) (recv_queue epx) = recv_queue epx" if "x \<noteq> e"
    using that queue_of [OF ok e _ x(1)] D by (fastforce simp: filter_id_conv)+
  show "send_queue epx' = filter (\<lambda>w. w \<notin> D) (send_queue epx)" using q x e keep by (cases "x = e") auto
  show "recv_queue epx' = filter (\<lambda>w. w \<notin> D) (recv_queue epx)" using q x e keep by (cases "x = e") auto
  show "ep_dead epx \<or> send_queue epx' = [] \<and> recv_queue epx' = []" if "ep_dead epx'"
    using d x e that by (cases "x = e") auto
qed (use e in auto)

lemma destroyed_ok:
  assumes inv: "ipc_inv c" and t: "ref c t = Some e" and e: "eps (st c) e = Some ep"
  shows "ipc_inv (c\<lparr>st := destroyed (st c) e ep\<rparr>)"
proof -
  let ?s = "destroyed (st c) e ep" and ?ws = "send_queue ep @ recv_queue ep"
  have ok: "endpoints_ok c" "queues_ok c" "waits_ok c" "calls_ok c" using inv by (simp_all add: ipc_inv_def)
  have "endpoints_ok (c\<lparr>st := ?s\<rparr>)" using unlist_heap [OF ok(1) e t] by (simp add: destroyed_def)
  moreover have qw: "\<exists>q. queued_wait c e q w" if "w \<in> set ?ws" for w using queues_okD(6,7) [OF ok(2) e] that by auto
  have u: "unqueue (set ?ws) (eps (st c)) (eps ?s)"
    using unqueue_one [OF ok(2) e, of "set ?ws" "dead_endpoint ep"] by (simp add: destroyed_def)
  have w: "wakes c (set ?ws) ?s"
    unfolding wakes_def
  proof (intro conjI allI impI ballI)
    show "waits ?s w = waits (st c) w" if "w \<notin> set ?ws" for w using that by (simp add: destroyed_def dead_result_def)
    show "\<exists>x x'. waits (st c) w = Some x \<and> waits ?s w = Some x' \<and> w_endpoint x' = w_endpoint x" if "w \<in> set ?ws" for w
      using qw [OF that] that by (auto simp: destroyed_def dead_result_def queued_wait_def)
    show "t_state (thr ?s t) = (if \<exists>w \<in> set ?ws. waiting (pc c t) = Some w then TASK_RUNNING else t_state (thr (st c) t))" for t
    proof -
      have "(\<exists>w \<in> set ?ws. w_partner (the (waits (st c) w)) = t) \<longleftrightarrow> (\<exists>w \<in> set ?ws. waiting (pc c t) = Some w)"
        using partner_iff [OF ok(3)] qw by blast
      then show ?thesis by (simp add: destroyed_def waking_state)
    qed
  qed
  have "calls_ok (c\<lparr>st := ?s, pc := pc c, ref := ref c\<rparr>)"
  proof (rule calls_frame [OF ok(4)])
    show "ipc_view (thr ?s u) = ipc_view (thr (st c) u)" for u by (simp add: destroyed_def waking_view)
    show "t_state (thr ?s u) = t_state (thr (st c) u)" if "pc c u = Replying" for u using wakesD(4) [OF w, of u] that by simp
    show "pc c u = Calling v \<and> (\<exists>x'. waits ?s v = Some x' \<and> w_result x' = IPC_OK)"
      if "pc c u = Calling v" "waits (st c) v = Some x" "w_result x = IPC_OK" for u v x
      using that qw [of v] wakesD(1) [OF w, of v] by (auto simp: queued_wait_def ipc_err)
  qed simp
  ultimately show ?thesis using serve_queues [OF ok(2,3) u w] serve_waits [OF ok(3) u w] by (simp add: ipc_inv_def)
qed

lemma destroy_ok:
  assumes inv: "ipc_inv c" and t: "ref c t = Some e" and w: "waiting (pc c t) = None"
  shows "\<exists>ep. eps (st c) e = Some ep \<and> endpoint_destroy (st c) e = Some (if ep_dead ep then st c else destroyed (st c) e ep)"
proof -
  have ok: "endpoints_ok c" "queues_ok c" using inv by (simp_all add: ipc_inv_def)
  obtain ep where e: "eps (st c) e = Some ep" using heap_okD(6) [OF ok(1) t] by auto
  note q = queues_okD [OF ok(2) e]
  have "waits (st c) w \<noteq> None" if "w \<in> set (send_queue ep @ recv_queue ep)" for w
    using q(6) [of w] q(7) [of w] that by (auto simp: queued_wait_def)
  then have "\<forall>w \<in> set (send_queue ep @ recv_queue ep). waits (st c) w \<noteq> None" by blast
  moreover have "card {u. ref c u = Some e} > 0" using finite_refs [OF ok(1)] t by (auto simp: card_gt_0_iff)
  then have "ep_listed ep \<Longrightarrow> refcount ep > 1" using heap_okD(4) [OF ok(1) e] by simp
  ultimately show ?thesis using destroy_eq [OF e _ q(3)] e by (auto simp: endpoint_destroy_def)
qed

text \<open>
  The loop over the endpoints of an exiting process takes a temporary reference; any thread that holds
  none stands for its holder.
\<close>

lemma exit_turn:
  assumes inv: "ipc_inv c" and W: "owned_endpoints (st c) p = e # es"
  obtains s1 s2 s3 where
    "upd_ep ((st c)\<lparr>owned_endpoints := (owned_endpoints (st c))(p := es)\<rparr>) e (\<lambda>ep. ep\<lparr>refcount := refcount ep + 1\<rparr>) = Some s1"
    "endpoint_destroy s1 e = Some s2" "endpoint_put s2 e = Some s3" "ipc_inv (c\<lparr>st := s3\<rparr>)"
    "length (owned_endpoints s3 p) \<le> length es" "\<And>x. ipc_view (thr s3 x) = ipc_view (thr (st c) x)"
proof -
  have ok: "endpoints_ok c" using inv by (simp add: ipc_inv_def)
  note D = heap_okD [OF ok]
  obtain ep where e: "eps (st c) e = Some ep" using D(8) [of e p] W by auto
  obtain u where u: "ref c u = None" using D(2) infinite_UNIV_nat by (metis domIff ex_new_if_finite)
  then have idle: "waiting (pc c u) = None" using waits_okD(1) [of c u] inv unfolding ipc_inv_def by fastforce
  let ?ep = "ep\<lparr>refcount := refcount ep + 1\<rparr>"
  let ?s1 = "(st c)\<lparr>eps := (eps (st c))(e := Some ?ep), owned_endpoints := (owned_endpoints (st c))(p := es)\<rparr>"
  let ?c1 = "c\<lparr>st := ?s1, ref := (ref c)(u := Some e)\<rparr>"
  have 1: "ipc_inv ?c1" using D(7) [of p] W D(7) by (intro get_ref_ok [OF inv u e]) auto
  let ?s2 = "if ep_dead ?ep then ?s1 else destroyed ?s1 e ?ep"
  have 2: "endpoint_destroy ?s1 e = Some ?s2" using destroy_ok [OF 1, of u e] idle by auto
  have i2: "ipc_inv (?c1\<lparr>st := ?s2\<rparr>)"
  proof (cases "ep_dead ?ep")
    case True
    then have "?c1\<lparr>st := ?s2\<rparr> = ?c1" by simp
    then show ?thesis using 1 by metis
  next
    case False
    then show ?thesis using destroyed_ok [OF 1, of u e ?ep] by simp
  qed
  have "ref (?c1\<lparr>st := ?s2\<rparr>) u = Some e" "waiting (pc (?c1\<lparr>st := ?s2\<rparr>) u) = None" using idle by simp_all
  from put_ok [OF i2 this] obtain h where h: "endpoint_put ?s2 e = Some (?s2\<lparr>eps := h\<rparr>)"
    "ipc_inv (?c1\<lparr>st := ?s2\<lparr>eps := h\<rparr>, ref := (ref c)(u := None)\<rparr>)" by auto
  moreover have "(ref c)(u := None) = ref c" using u by auto
  ultimately have "ipc_inv (c\<lparr>st := ?s2\<lparr>eps := h\<rparr>\<rparr>)" by simp
  moreover have "length (owned_endpoints (?s2\<lparr>eps := h\<rparr>) p) \<le> length es"
    by (auto simp: destroyed_def length_remove1 split: option.splits)
  moreover have "ipc_view (thr (?s2\<lparr>eps := h\<rparr>) x) = ipc_view (thr (st c) x)" for x by (simp add: destroyed_def waking_view)
  ultimately show thesis using 2 h(1) e by (intro that [of ?s1 ?s2 "?s2\<lparr>eps := h\<rparr>"]) (simp_all add: upd_ep_def)
qed

lemma exit_process_ok:
  "ipc_inv c \<Longrightarrow> \<exists>s'. ipc_destroy_owned_by_process (st c) p = Some s' \<and> ipc_inv (c\<lparr>st := s'\<rparr>) \<and> owned_endpoints s' p = [] \<and>
    (\<forall>x. ipc_view (thr s' x) = ipc_view (thr (st c) x))"
proof (induction "length (owned_endpoints (st c) p)" arbitrary: c rule: less_induct)
  case less
  show ?case
  proof (cases "owned_endpoints (st c) p")
    case Nil
    then show ?thesis using less.prems by (subst ipc_destroy_owned_by_process.simps) simp
  next
    case (Cons e es)
    from exit_turn [OF less.prems this] obtain s1 s2 s3 where
      s: "upd_ep ((st c)\<lparr>owned_endpoints := (owned_endpoints (st c))(p := es)\<rparr>) e (\<lambda>ep. ep\<lparr>refcount := refcount ep + 1\<rparr>) = Some s1"
      "endpoint_destroy s1 e = Some s2" "endpoint_put s2 e = Some s3" and i: "ipc_inv (c\<lparr>st := s3\<rparr>)"
      and l: "length (owned_endpoints s3 p) \<le> length es" and v: "\<And>x. ipc_view (thr s3 x) = ipc_view (thr (st c) x)" by blast
    from less.hyps [of "c\<lparr>st := s3\<rparr>", OF _ i] l Cons obtain s' where
      "ipc_destroy_owned_by_process s3 p = Some s'" "ipc_inv (c\<lparr>st := s'\<rparr>)" "owned_endpoints s' p = []"
      "\<And>x. ipc_view (thr s' x) = ipc_view (thr s3 x)" by auto
    moreover have "ipc_destroy_owned_by_process (st c) p = ipc_destroy_owned_by_process s3 p"
      using Cons s by (subst ipc_destroy_owned_by_process.simps) simp
    ultimately show ?thesis using v by auto
  qed
qed

subsection \<open>Blocking and running again\<close>

lemma heap_upd:
  assumes ok: "heap_ok L H W R" and e: "H e = Some ep" and same: "ep_flags ep' = ep_flags ep" "refcount ep' = refcount ep" "ep_owner ep' = ep_owner ep"
  shows "heap_ok L (H(e := Some ep')) W R" (is "heap_ok L ?H W R")
proof (rule heap_okI)
  note D = heap_okD [OF ok]
  show "distinct L" "finite (dom R)" "distinct (W p)" for p by (rule D)+
  show "x \<in> set L \<longleftrightarrow> (\<exists>ep. ?H x = Some ep \<and> ep_listed ep)" for x using D(3) [of x] e same by (cases "x = e") auto
  show "refcount epx = of_bool (ep_listed epx) + int (card {u. R u = Some x})" if "?H x = Some epx" for x epx
    using that D(4) [of x epx] D(4) [OF e] same by (cases "x = e") auto
  show "refcount epx > 0" if "?H x = Some epx" for x epx using that D(5) [of x epx] D(5) [OF e] same by (cases "x = e") auto
  show "\<exists>ep. ?H x = Some ep" if "R u = Some x" for u x using D(6) [OF that] by auto
  show "\<exists>ep. ?H x = Some ep \<and> ep_listed ep \<and> ep_owner ep = Some p" if "x \<in> set (W p)" for p x
    using D(8) [OF that] e same by (cases "x = e") auto
qed

text \<open>A thread that does not wait on a queue changes; the waiting ones see the same state.\<close>

lemma idle_frame:
  assumes ok: "queues_ok c" "waits_ok c"
    and s': "eps s' = eps (st c)" "waits s' = waits (st c)"
    and t: "\<And>u. waiting (pc c u) \<noteq> None \<Longrightarrow> t_state (thr s' u) = t_state (thr (st c) u) \<and> p' u = pc c u"
    and p: "\<And>u. waiting (pc c u) = None \<Longrightarrow> waiting (p' u) = None"
  shows "queues_ok (c\<lparr>st := s', pc := p'\<rparr>)" "waits_ok (c\<lparr>st := s', pc := p'\<rparr>)"
proof -
  have qw: "queued_wait (c\<lparr>st := s', pc := p'\<rparr>) e q w" if "queued_wait c e q w" for e q w
  proof -
    from that obtain x where x: "waits (st c) w = Some x" "waiting (pc c (w_partner x)) = Some w" by (rule queued_waitE)
    with t [of "w_partner x"] show ?thesis using that s'(2) by (simp add: queued_wait_def)
  qed
  then show "queues_ok (c\<lparr>st := s', pc := p'\<rparr>)"
    using ok(1) unfolding queues_ok_def by (simp add: s'(1))
  have w: "waiting (p' u) = waiting (pc c u)" for u using t [of u] p [of u] by (cases "waiting (pc c u)") simp_all
  have "queued s' v = queued (st c) v" for v by (simp add: queued_def s'(1))
  then show "waits_ok (c\<lparr>st := s', pc := p'\<rparr>)" using ok(2) t unfolding waits_ok_def by (simp add: w s'(2))
qed

lemma queued_at: "eps s e = Some ep \<Longrightarrow> v \<in> set (send_queue ep) \<union> set (recv_queue ep) \<Longrightarrow> queued s v"
  unfolding queued_def by blast

lemma queuedE:
  assumes "queued s v"
  obtains e ep where "eps s e = Some ep" "v \<in> set (send_queue ep) \<union> set (recv_queue ep)"
  using assms unfolding queued_def by blast

lemma block_queued:
  assumes e: "eps s e = Some ep" and w: "set (send_queue ep') \<union> set (recv_queue ep') = insert w (set (send_queue ep) \<union> set (recv_queue ep))"
    and h: "eps s' = (eps s)(e := Some ep')"
  shows "queued s' v \<longleftrightarrow> queued s v \<or> v = w"
proof
  assume "queued s' v"
  then obtain x epx where x: "eps s' x = Some epx" "v \<in> set (send_queue epx) \<union> set (recv_queue epx)" by (rule queuedE)
  then show "queued s v \<or> v = w" using queued_at [OF e, of v] queued_at [of s x epx v] w h by (cases "x = e") auto
next
  have new: "v \<in> insert w (set (send_queue ep) \<union> set (recv_queue ep)) \<Longrightarrow> queued s' v"
    using queued_at [of s' e ep' v] w h by simp
  assume "queued s v \<or> v = w"
  then show "queued s' v"
  proof
    assume "queued s v"
    then obtain x epx where x: "eps s x = Some epx" "v \<in> set (send_queue epx) \<union> set (recv_queue epx)" by (rule queuedE)
    then show ?thesis using new queued_at [of s' x epx v] e h by (cases "x = e") auto
  qed (use new in simp)
qed

text \<open>A thread that joins a queue.\<close>

lemma block_queues:
  assumes ok: "queues_ok c" "waits_ok c" and t: "waiting (pc c t) = None" "ref c t = Some e"
    and e: "eps (st c) e = Some ep" "\<not> ep_dead ep" and w: "waits (st c) w = None"
    and b: "if b then recv_queue ep = [] \<and> ep' = ep\<lparr>send_queue := send_queue ep @ [w]\<rparr> \<and>
        (p = Sending w \<and> opn = IPC_OP_SEND \<or> p = Calling w \<and> opn = IPC_OP_CALL)
      else send_queue ep = [] \<and> ep' = ep\<lparr>recv_queue := recv_queue ep @ [w]\<rparr> \<and> p = Receiving w"
  shows "queues_ok (c\<lparr>st := block_on ((st c)\<lparr>eps := (eps (st c))(e := Some ep')\<rparr>) t e t opn w, pc := (pc c)(t := p)\<rparr>)"
    (is "queues_ok ?c")
  unfolding queues_ok_def
proof (intro allI impI)
  have qw: "queued_wait ?c x q v" if qv: "queued_wait c x q v" for x q v
  proof -
    from qv obtain y where y: "waits (st c) v = Some y" "waiting (pc c (w_partner y)) = Some v" by (rule queued_waitE)
    then have "w_partner y \<noteq> t" "v \<noteq> w" using t w by auto
    then show ?thesis using qv y by (simp add: queued_wait_def block_on_def)
  qed
  have new: "queued_wait ?c e b w" using b t(2) by (auto simp: queued_wait_def block_on_def)
  have notin: "w \<notin> set (send_queue ep)" "w \<notin> set (recv_queue ep)"
    using queues_okD(6,7) [OF ok(1) e(1), of w] w by (auto simp: queued_wait_def)
  fix x epx assume x: "eps (st ?c) x = Some epx"
  show "distinct (send_queue epx) \<and> distinct (recv_queue epx) \<and> (send_queue epx = [] \<or> recv_queue epx = []) \<and>
    (ep_dead epx \<longrightarrow> send_queue epx = [] \<and> recv_queue epx = []) \<and>
    (\<forall>w \<in> set (send_queue epx). queued_wait ?c x True w) \<and> (\<forall>w \<in> set (recv_queue epx). queued_wait ?c x False w)"
  proof (cases "x = e")
    case True
    then have "epx = ep'" using x by (simp add: block_on_def)
    then show ?thesis using queues_okD [OF ok(1) e(1)] b notin new qw True e(2) by (cases b) auto
  next
    case False
    then have "eps (st c) x = Some epx" using x by (simp add: block_on_def)
    then show ?thesis using queues_okD [OF ok(1), of x epx] qw by blast
  qed
qed

lemma block_waits:
  assumes ok: "waits_ok c" and t: "waiting (pc c t) = None" "ref c t = Some e"
    and e: "eps (st c) e = Some ep" and w: "waits (st c) w = None" "waiting p = Some w"
    and q: "set (send_queue ep') \<union> set (recv_queue ep') = insert w (set (send_queue ep) \<union> set (recv_queue ep))"
  shows "waits_ok (c\<lparr>st := block_on ((st c)\<lparr>eps := (eps (st c))(e := Some ep')\<rparr>) t e t opn w, pc := (pc c)(t := p)\<rparr>)"
    (is "waits_ok ?c")
proof -
  have Q: "queued (st ?c) v \<longleftrightarrow> queued (st c) v \<or> v = w" for v
    by (rule block_queued [OF e q]) (simp add: block_on_def)
  have old: "waiting (pc c u) = Some v \<Longrightarrow> v \<noteq> w" for u v using waits_okD(1) [OF ok, of u v] w(1) by auto
  show ?thesis
    unfolding waits_ok_def
  proof (intro conjI allI impI)
    show "\<exists>x. waits (st ?c) v = Some x \<and> ref ?c u = Some (w_endpoint x)" if "waiting (pc ?c u) = Some v" for u v
      using that waits_okD(1) [OF ok, of u v] t w old [of u v] by (cases "u = t") (auto simp: block_on_def)
    show "t_state (thr (st ?c) u) = TASK_RUNNING" if "waiting (pc ?c u) = Some v" "\<not> queued (st ?c) v" for u v
      using that waits_okD(2) [OF ok, of u v] w unfolding Q by (cases "u = t") (auto simp: block_on_def)
    show "u = u'" if "waiting (pc ?c u) = Some v" "waiting (pc ?c u') = Some v" for u u' v
      using that waits_okD(3) [OF ok, of u v u'] old [of u v] old [of u' v] w by (cases "u = t"; cases "u' = t") auto
    show "\<exists>u. waiting (pc ?c u) = Some v" if "waits (st ?c) v \<noteq> None" for v
    proof (cases "v = w")
      case True then show ?thesis using w(2) by (intro exI [of _ t]) simp
    next
      case False
      then have "waits (st c) v \<noteq> None" using that by (simp add: block_on_def)
      then obtain u where "waiting (pc c u) = Some v" using waits_okD(4) [OF ok, of v] by fastforce
      then show ?thesis using t(1) by (intro exI [of _ u]) auto
    qed
  qed
qed

lemma block_ok:
  assumes inv: "ipc_inv c" and t: "pc c t = Idle" "ref c t = Some e" and e: "eps (st c) e = Some ep" "\<not> ep_dead ep"
    and w: "waits (st c) w = None"
    and b: "if b then recv_queue ep = [] \<and> ep' = ep\<lparr>send_queue := send_queue ep @ [w]\<rparr> \<and>
        (p = Sending w \<and> opn = IPC_OP_SEND \<or> p = Calling w \<and> opn = IPC_OP_CALL)
      else send_queue ep = [] \<and> ep' = ep\<lparr>recv_queue := recv_queue ep @ [w]\<rparr> \<and> p = Receiving w"
  shows "ipc_inv (c\<lparr>st := block_on ((st c)\<lparr>eps := (eps (st c))(e := Some ep')\<rparr>) t e t opn w, pc := (pc c)(t := p)\<rparr>)"
    (is "ipc_inv (c\<lparr>st := ?s, pc := _\<rparr>)")
proof -
  have ok: "endpoints_ok c" "queues_ok c" "waits_ok c" "calls_ok c" using inv by (simp_all add: ipc_inv_def)
  have idle: "waiting (pc c t) = None" using t(1) by simp
  have "endpoints_ok (c\<lparr>st := ?s, pc := (pc c)(t := p)\<rparr>)"
    using heap_upd [OF ok(1) e(1), of ep'] b by (simp add: block_on_def split: if_splits)
  moreover have "queues_ok (c\<lparr>st := ?s, pc := (pc c)(t := p)\<rparr>)" by (rule block_queues [OF ok(2,3) idle t(2) e w b])
  moreover have "waiting p = Some w" using b by (auto split: if_splits)
  then have "waits_ok (c\<lparr>st := ?s, pc := (pc c)(t := p)\<rparr>)"
    using b by (intro block_waits [OF ok(3) idle t(2) e(1) w]) (auto split: if_splits)
  moreover have "calls_ok (c\<lparr>st := ?s, pc := (pc c)(t := p), ref := ref c\<rparr>)"
  proof (rule calls_frame [OF ok(4)])
    show "ipc_view (thr ?s u) = ipc_view (thr (st c) u)" for u by (simp add: block_on_def)
    show "((pc c)(t := p)) u = Replying \<longleftrightarrow> pc c u = Replying" for u using t(1) b by (auto split: if_splits)
    show "t_state (thr ?s u) = t_state (thr (st c) u)" if "pc c u = Replying" for u using that t(1) by (auto simp: block_on_def)
    show "((pc c)(t := p)) u = Calling v \<and> (\<exists>x'. waits ?s v = Some x' \<and> w_result x' = IPC_OK)"
      if "pc c u = Calling v" "waits (st c) v = Some x" "w_result x = IPC_OK" for u v x
      using that t(1) w by (auto simp: block_on_def)
  qed
  ultimately show ?thesis by (simp add: ipc_inv_def)
qed

text \<open>A thread that runs again after it was served: its wait object is in no queue any more.\<close>

lemma served:
  assumes ok: "queues_ok c" "waits_ok c" and t: "waiting (pc c t) = Some w" "t_state (thr (st c) t) = TASK_RUNNING"
  shows "\<not> queued (st c) w"
proof
  assume "queued (st c) w"
  then obtain e ep where e: "eps (st c) e = Some ep" "w \<in> set (send_queue ep) \<union> set (recv_queue ep)" by (rule queuedE)
  then obtain q where q: "queued_wait c e q w" using queues_okD(6,7) [OF ok(1) e(1)] by blast
  then obtain x where "waits (st c) w = Some x" "waiting (pc c (w_partner x)) = Some w"
    "t_state (thr (st c) (w_partner x)) = TASK_INTERRUPTIBLE" by (rule queued_waitE)
  then show False using waits_okD(3) [OF ok(2) t(1), of "w_partner x"] t(2) by simp
qed

lemma leave_ok:
  assumes ok: "queues_ok c" "waits_ok c" and t: "waiting (pc c t) = Some w" "t_state (thr (st c) t) = TASK_RUNNING"
    and s': "eps s' = eps (st c)" "waits s' = (waits (st c))(w := None)" "\<And>u. u \<noteq> t \<Longrightarrow> t_state (thr s' u) = t_state (thr (st c) u)"
    and p: "waiting p = None"
  shows "queues_ok (c\<lparr>st := s', pc := (pc c)(t := p)\<rparr>)" "waits_ok (c\<lparr>st := s', pc := (pc c)(t := p)\<rparr>)"
proof -
  let ?c = "c\<lparr>st := s', pc := (pc c)(t := p)\<rparr>"
  have nq: "\<not> queued (st c) w" by (rule served [OF ok t])
  have qw: "queued_wait ?c e q v" if "queued_wait c e q v" "v \<noteq> w" for e q v
  proof -
    from that(1) obtain x where x: "waits (st c) v = Some x" "waiting (pc c (w_partner x)) = Some v" by (rule queued_waitE)
    then have "w_partner x \<noteq> t" using t(1) that(2) by auto
    then show ?thesis using that x s' by (simp add: queued_wait_def)
  qed
  have qs: "queued_wait ?c e True v" if "eps (st c) e = Some ep" "v \<in> set (send_queue ep)" for e ep v
    using qw queues_okD(6) [OF ok(1) that] queued_at [OF that(1), of v] that(2) nq by auto
  have qr: "queued_wait ?c e False v" if "eps (st c) e = Some ep" "v \<in> set (recv_queue ep)" for e ep v
    using qw queues_okD(7) [OF ok(1) that] queued_at [OF that(1), of v] that(2) nq by auto
  show "queues_ok ?c"
    unfolding queues_ok_def
  proof (intro allI impI)
    fix x epx assume "eps (st ?c) x = Some epx"
    then have x: "eps (st c) x = Some epx" using s'(1) by simp
    show "distinct (send_queue epx) \<and> distinct (recv_queue epx) \<and> (send_queue epx = [] \<or> recv_queue epx = []) \<and>
      (ep_dead epx \<longrightarrow> send_queue epx = [] \<and> recv_queue epx = []) \<and>
      (\<forall>w \<in> set (send_queue epx). queued_wait ?c x True w) \<and> (\<forall>w \<in> set (recv_queue epx). queued_wait ?c x False w)"
      using queues_okD(1-5) [OF ok(1) x] qs [OF x] qr [OF x] by blast
  qed
  have Q: "queued s' v = queued (st c) v" for v by (simp add: queued_def s'(1))
  show "waits_ok ?c"
    unfolding waits_ok_def
  proof (intro conjI allI impI)
    fix u v assume "waiting (pc ?c u) = Some v"
    then have u: "u \<noteq> t" "waiting (pc c u) = Some v" using p by (auto split: if_splits)
    then have v: "v \<noteq> w" using waits_okD(3) [OF ok(2) t(1), of u] by auto
    show "\<exists>x. waits (st ?c) v = Some x \<and> ref ?c u = Some (w_endpoint x)" using waits_okD(1) [OF ok(2) u(2)] v s'(2) by simp
    show "t_state (thr (st ?c) u) = TASK_RUNNING" if "\<not> queued (st ?c) v"
      using waits_okD(2) [OF ok(2) u(2)] that Q u(1) s'(3) by simp
    show "u = u'" if "waiting (pc ?c u') = Some v" for u'
      using waits_okD(3) [OF ok(2) u(2), of u'] that p by (auto split: if_splits)
  next
    fix v assume "waits (st ?c) v \<noteq> None"
    then have v: "v \<noteq> w" "waits (st c) v \<noteq> None" using s'(2) by (auto split: if_splits)
    then obtain u where "waiting (pc c u) = Some v" using waits_okD(4) [OF ok(2), of v] by fastforce
    then show "\<exists>u. waiting (pc ?c u) = Some v" using v(1) t(1) by (intro exI [of _ u]) auto
  qed
qed

subsection \<open>Calls and replies\<close>

lemma link_call_sel [simp]:
  "ipc_caller (thr (link_call s u v) x) = (if x = v then Some u else ipc_caller (thr s x))"
  "ipc_reply_pending (thr (link_call s u v) x) = (if x = u then 1 else ipc_reply_pending (thr s x))"
  "ipc_reply_server (thr (link_call s u v) x) = (if x = u then Some v else ipc_reply_server (thr s x))"
  "t_state (thr (link_call s u v) x) = t_state (thr s x)"
  "t_process (thr (link_call s u v) x) = t_process (thr s x)"
  "eps (link_call s u v) = eps s" "waits (link_call s u v) = waits s" "endpoint_list (link_call s u v) = endpoint_list s"
  "owned_endpoints (link_call s u v) = owned_endpoints s" "msgs (link_call s u v) = msgs s" "windows (link_call s u v) = windows s"
  by (simp_all add: link_call_def upd_thread_def)

lemma calls_okI:
  assumes "\<And>v u. ipc_caller (thr (st c) v) = Some u \<Longrightarrow> ipc_reply_pending (thr (st c) u) \<noteq> 0 \<and> ipc_reply_server (thr (st c) u) = Some v"
    "\<And>u. ipc_reply_pending (thr (st c) u) \<noteq> 0 \<Longrightarrow> pc c u = Replying \<or>
       (\<exists>w x. pc c u = Calling w \<and> waits (st c) w = Some x \<and> w_result x = IPC_OK)"
    "\<And>u. pc c u = Replying \<Longrightarrow> t_state (thr (st c) u) = TASK_RUNNING \<longleftrightarrow> ipc_reply_pending (thr (st c) u) = 0"
  shows "calls_ok c"
  using assms unfolding calls_ok_def by blast

text \<open>What a step keeps of the threads other than \<open>u\<close>.\<close>

definition calls_keep :: "ipc_sys \<Rightarrow> nat \<Rightarrow> ipc_state \<Rightarrow> (nat \<Rightarrow> ipc_pc) \<Rightarrow> bool" where
  "calls_keep c u s' p' \<longleftrightarrow> (\<forall>x. x \<noteq> u \<longrightarrow>
     (p' x = Replying \<longleftrightarrow> pc c x = Replying) \<and> (pc c x = Replying \<longrightarrow> t_state (thr s' x) = t_state (thr (st c) x)) \<and>
     (\<forall>w y. pc c x = Calling w \<longrightarrow> waits (st c) w = Some y \<longrightarrow> w_result y = IPC_OK \<longrightarrow>
        p' x = Calling w \<and> (\<exists>y'. waits s' w = Some y' \<and> w_result y' = IPC_OK)))"

lemma calls_keepD:
  assumes "calls_keep c u s' p'" "x \<noteq> u"
  shows "p' x = Replying \<longleftrightarrow> pc c x = Replying" "pc c x = Replying \<Longrightarrow> t_state (thr s' x) = t_state (thr (st c) x)"
    "pc c x = Replying \<or> (\<exists>w y. pc c x = Calling w \<and> waits (st c) w = Some y \<and> w_result y = IPC_OK) \<Longrightarrow>
     p' x = Replying \<or> (\<exists>w y. p' x = Calling w \<and> waits s' w = Some y \<and> w_result y = IPC_OK)"
  using assms unfolding calls_keep_def by blast+

lemma calls_kept:
  assumes ok: "calls_ok c" and k: "\<And>u. calls_keep c u s' p'" and v: "\<And>u. ipc_view (thr s' u) = ipc_view (thr (st c) u)"
  shows "calls_ok (c\<lparr>st := s', pc := p', ref := r'\<rparr>)"
proof (rule calls_frame [OF ok v])
  note K = calls_keepD [OF k n_not_Suc_n]
  show "p' u = Replying \<longleftrightarrow> pc c u = Replying" for u by (rule K(1))
  show "t_state (thr s' u) = t_state (thr (st c) u)" if "pc c u = Replying" for u using K(2) that .
  show "p' u = Calling w \<and> (\<exists>x'. waits s' w = Some x' \<and> w_result x' = IPC_OK)"
    if "pc c u = Calling w" "waits (st c) w = Some x" "w_result x = IPC_OK" for u w x
    using k [of "Suc u", unfolded calls_keep_def, rule_format, OF n_not_Suc_n] that by blast
qed

lemma calls_link:
  assumes ok: "calls_ok c" and u: "ipc_reply_pending (thr (st c) u) = 0"
    and v: "\<And>x. ipc_view (thr s' x) = ipc_view (thr (link_call (st c) u v) x)"
    and k: "calls_keep c u s' p'"
    and p: "p' u = Replying \<and> t_state (thr s' u) \<noteq> TASK_RUNNING \<or> (\<exists>w y. p' u = Calling w \<and> waits s' w = Some y \<and> w_result y = IPC_OK)"
  shows "calls_ok (c\<lparr>st := s', pc := p', ref := r'\<rparr>)"
proof (rule calls_okI)
  note V = view_fields [OF v] and D = calls_okD [OF ok]
  show "ipc_reply_pending (thr (st (c\<lparr>st := s', pc := p', ref := r'\<rparr>)) y) \<noteq> 0 \<and>
      ipc_reply_server (thr (st (c\<lparr>st := s', pc := p', ref := r'\<rparr>)) y) = Some x"
    if "ipc_caller (thr (st (c\<lparr>st := s', pc := p', ref := r'\<rparr>)) x) = Some y" for x y
    using that D(1,2) [of x y] u by (auto simp: V split: if_splits)
  show "pc (c\<lparr>st := s', pc := p', ref := r'\<rparr>) x = Replying \<or>
     (\<exists>w y. pc (c\<lparr>st := s', pc := p', ref := r'\<rparr>) x = Calling w \<and> waits (st (c\<lparr>st := s', pc := p', ref := r'\<rparr>)) w = Some y \<and> w_result y = IPC_OK)"
    if "ipc_reply_pending (thr (st (c\<lparr>st := s', pc := p', ref := r'\<rparr>)) x) \<noteq> 0" for x
  proof (cases "x = u")
    case False
    then show ?thesis using that D(3) [of x] calls_keepD(3) [OF k] by (simp add: V)
  qed (use p in auto)
  show "t_state (thr (st (c\<lparr>st := s', pc := p', ref := r'\<rparr>)) x) = TASK_RUNNING \<longleftrightarrow>
      ipc_reply_pending (thr (st (c\<lparr>st := s', pc := p', ref := r'\<rparr>)) x) = 0" if "pc (c\<lparr>st := s', pc := p', ref := r'\<rparr>) x = Replying" for x
  proof (cases "x = u")
    case False
    then show ?thesis using that D(4) [of x] calls_keepD(1,2) [OF k] by (simp add: V)
  qed (use p that in \<open>auto simp: V\<close>)
qed

lemma call_turn_sel:
  assumes "(s', p) = call_turn s t"
  shows "p = (if ipc_reply_pending (thr s t) = 0 then Idle else Replying)"
    "eps s' = eps s" "waits s' = waits s" "endpoint_list s' = endpoint_list s" "owned_endpoints s' = owned_endpoints s"
    "ipc_caller (thr s' x) = ipc_caller (thr s x)" "ipc_reply_pending (thr s' x) = ipc_reply_pending (thr s x)"
    "ipc_reply_server (thr s' x) = (if x = t \<and> ipc_reply_pending (thr s t) = 0 then None else ipc_reply_server (thr s x))"
    "t_state (thr s' x) = (if x \<noteq> t then t_state (thr s x) else if ipc_reply_pending (thr s t) = 0 then TASK_RUNNING else TASK_INTERRUPTIBLE)"
  using assms by (auto simp: call_turn_def ipc_call_wait_def ipc_call_finish_def upd_thread_def Let_def split: if_splits)

lemma call_wait_view: "ipc_view (thr (fst (ipc_call_wait s t)) y) = ipc_view (thr s y)"
  by (simp add: ipc_call_wait_def ipc_view_def upd_thread_def)

lemma turn_calls:
  assumes ok: "calls_ok c" and v: "\<And>x. ipc_view (thr s1 x) = ipc_view (thr (st c) x)"
    and k: "calls_keep c t s1 ((pc c)(t := p))" and s': "(s', p) = call_turn s1 t"
  shows "calls_ok (c\<lparr>st := s', pc := (pc c)(t := p)\<rparr>)"
proof (rule calls_okI)
  note V = view_fields [OF v] and D = calls_okD [OF ok] and T = call_turn_sel [OF s']
  show "ipc_reply_pending (thr (st (c\<lparr>st := s', pc := (pc c)(t := p)\<rparr>)) y) \<noteq> 0 \<and>
      ipc_reply_server (thr (st (c\<lparr>st := s', pc := (pc c)(t := p)\<rparr>)) y) = Some x"
    if "ipc_caller (thr (st (c\<lparr>st := s', pc := (pc c)(t := p)\<rparr>)) x) = Some y" for x y
    using that D(1,2) [of x y] by (auto simp: V T)
  show "pc (c\<lparr>st := s', pc := (pc c)(t := p)\<rparr>) x = Replying \<or>
     (\<exists>w y. pc (c\<lparr>st := s', pc := (pc c)(t := p)\<rparr>) x = Calling w \<and> waits (st (c\<lparr>st := s', pc := (pc c)(t := p)\<rparr>)) w = Some y \<and> w_result y = IPC_OK)"
    if "ipc_reply_pending (thr (st (c\<lparr>st := s', pc := (pc c)(t := p)\<rparr>)) x) \<noteq> 0" for x
  proof (cases "x = t")
    case False
    then show ?thesis using that D(3) [of x] calls_keepD(3) [OF k False] by (simp add: V T)
  qed (use that in \<open>simp add: V T\<close>)
  show "t_state (thr (st (c\<lparr>st := s', pc := (pc c)(t := p)\<rparr>)) x) = TASK_RUNNING \<longleftrightarrow>
      ipc_reply_pending (thr (st (c\<lparr>st := s', pc := (pc c)(t := p)\<rparr>)) x) = 0"
    if "pc (c\<lparr>st := s', pc := (pc c)(t := p)\<rparr>) x = Replying" for x
  proof (cases "x = t")
    case False
    then show ?thesis using that D(4) [of x] calls_keepD(2) [OF k False] by (simp add: V T)
  qed (use that in \<open>simp add: V T split: if_splits\<close>)
qed

subsection \<open>Messages\<close>

lemma slice_frame:
  assumes "slice_transfer s f t m = (s', err)"
  shows "s' = s\<lparr>windows := windows s'\<rparr>" "err \<noteq> IPC_OK \<Longrightarrow> s' = s"
  using assms
  by (auto simp: slice_transfer_def maybe_copy_window_def copy_ipc_slice_def Let_def split: option.splits if_splits)

text \<open>A waiter of an endpoint is served, and its thread woken.\<close>

lemma serve_one:
  assumes inv: "ipc_inv c" and e: "eps (st c) e = Some ep" and w: "w \<in> set (send_queue ep) \<union> set (recv_queue ep)" "waits (st c) w = Some x"
    and q: "send_queue ep' = filter (\<lambda>v. v \<noteq> w) (send_queue ep)" "recv_queue ep' = filter (\<lambda>v. v \<noteq> w) (recv_queue ep)"
    and same: "ep_flags ep' = ep_flags ep" "refcount ep' = refcount ep" "ep_owner ep' = ep_owner ep"
    and s': "eps s' = (eps (st c))(e := Some ep')" "waits s' = (waits (st c))(w := Some x')" "w_endpoint x' = w_endpoint x"
      "endpoint_list s' = endpoint_list (st c)" "owned_endpoints s' = owned_endpoints (st c)"
      "\<And>u. t_state (thr s' u) = (if u = w_partner x then TASK_RUNNING else t_state (thr (st c) u))"
  shows "endpoints_ok (c\<lparr>st := s'\<rparr>)" "queues_ok (c\<lparr>st := s'\<rparr>)" "waits_ok (c\<lparr>st := s'\<rparr>)"
    "(\<And>v. v \<noteq> u \<Longrightarrow> p' v = pc c v) \<Longrightarrow> calls_keep c u s' p'"
proof -
  have ok: "endpoints_ok c" "queues_ok c" "waits_ok c" "calls_ok c" using inv by (simp_all add: ipc_inv_def)
  obtain b where qw: "queued_wait c e b w" using queues_okD(6,7) [OF ok(2) e] w(1) by blast
  have u: "unqueue {w} (eps (st c)) (eps s')"
    unfolding s'(1) using w(1) q same(1) by (intro unqueue_one [OF ok(2) e]) auto
  have "waiting (pc c t) = Some w \<longleftrightarrow> t = w_partner x" for t using partner_iff [OF ok(3) qw, of t] w(2) by auto
  then have wk: "wakes c {w} s'" using s'(2,3,6) w(2) by (simp add: wakes_def)
  show "endpoints_ok (c\<lparr>st := s'\<rparr>)" using heap_upd [OF ok(1) e same] s' by simp
  show "queues_ok (c\<lparr>st := s'\<rparr>)" by (rule serve_queues [OF ok(2,3) u wk])
  show "waits_ok (c\<lparr>st := s'\<rparr>)" by (rule serve_waits [OF ok(3) u wk])
  assume p': "\<And>v. v \<noteq> u \<Longrightarrow> p' v = pc c v"
  show "calls_keep c u s' p'"
    unfolding calls_keep_def
  proof (intro allI impI conjI)
    fix y assume y: "y \<noteq> u"
    show "p' y = Replying \<longleftrightarrow> pc c y = Replying" using p' y by simp
    show "t_state (thr s' y) = t_state (thr (st c) y)" if "pc c y = Replying" using wakesD(4) [OF wk, of y] that by simp
    show "p' y = Calling v" if "pc c y = Calling v" for v using p' y that by simp
    show "\<exists>z'. waits s' v = Some z' \<and> w_result z' = IPC_OK" if "waits (st c) v = Some z" "w_result z = IPC_OK" for v z
      using that qw w(2) s'(2) by (auto simp: queued_wait_def ipc_err)
  qed
qed

lemma filter_head: "distinct (w # ws) \<Longrightarrow> filter (\<lambda>v. v \<noteq> w) (w # ws) = ws"
  by (auto simp: filter_id_conv)

lemma idle_no_reply: "calls_ok c \<Longrightarrow> pc c t \<noteq> Replying \<Longrightarrow> (\<And>w. pc c t \<noteq> Calling w) \<Longrightarrow> ipc_reply_pending (thr (st c) t) = 0"
  using calls_okD(3) [of c t] by blast

text \<open>The send half of \<open>ipc_send\<close> and \<open>ipc_call\<close>, with the state it leaves in each case.\<close>

definition sent :: "ipc_state \<Rightarrow> nat \<Rightarrow> nat \<Rightarrow> ipc_endpoint \<Rightarrow> nat \<Rightarrow> ipc_wait \<Rightarrow> int \<Rightarrow> (nat \<Rightarrow> u8 list option) \<Rightarrow> ipc_state" where
  "sent s self e ep w x opn wd =
     (let s1 = s\<lparr>windows := wd, msgs := (msgs s)(w_msg x := copy_message (msgs s (w_msg x)) (msgs s self)),
            waits := (waits s)(w := Some (x\<lparr>w_operation := opn, w_result := IPC_OK, w_partner := self\<rparr>)),
            ipc_total_messages := ipc_total_messages s + 1, ipc_fast_path_count := ipc_fast_path_count s + 1,
            eps := (eps s)(e := Some (ep\<lparr>recv_queue := tl (recv_queue ep), msgs_sent := msgs_sent ep + 1\<rparr>))\<rparr>;
          s2 = (if opn = IPC_OP_CALL then link_call s1 self (w_partner x) else s1)
      in s2\<lparr>sched := sched_wakeup (sched s2) (w_partner x)\<rparr>)"

lemma send_cases:
  assumes "ipc_send_op s self (Some e) (Some self) opn a = Some (s', r)" "eps s e = Some ep"
  obtains (same) i where "s' = s" "r = Ret i" "i \<noteq> IPC_OK"
  | (sent) w ws x wd where "\<not> ep_dead ep" "recv_queue ep = w # ws" "waits s w = Some x" "s' = sent s self e ep w x opn wd" "r = Ret IPC_OK"
      "slice_transfer s self (w_partner x) (msgs s self) = (s\<lparr>windows := wd\<rparr>, IPC_OK)"
  | (block) w where "\<not> ep_dead ep" "recv_queue ep = []" "a = Some w" "r = Sleep w"
      "s' = block_on (s\<lparr>eps := (eps s)(e := Some (ep\<lparr>send_queue := send_queue ep @ [w]\<rparr>))\<rparr>) self e self opn w"
proof (cases "ep_dead ep")
  case True
  then have "ipc_send_op s self (Some e) (Some self) opn a = Some (s, Ret IPC_ERR_DEAD)" using assms(2) by (simp add: ipc_send_op_def)
  then show thesis using assms(1) same [of IPC_ERR_DEAD] by (simp add: ipc_err)
next
  case live: False
  show thesis
  proof (cases "recv_queue ep")
    case Nil
    let ?nb = "MSG_FLAGS (m_tag (msgs s self)) AND MSG_FLAG_NONBLOCK \<noteq> 0"
    have eq: "ipc_send_op s self (Some e) (Some self) opn a =
      (if ?nb then Some (s, Ret IPC_ERR_NOPARTNER) else case a of None \<Rightarrow> Some (s, Ret IPC_ERR_BUSY)
       | Some w \<Rightarrow> Some (block_on (s\<lparr>eps := (eps s)(e := Some (ep\<lparr>send_queue := send_queue ep @ [w]\<rparr>))\<rparr>) self e self opn w, Sleep w))"
      using assms(2) live Nil by (simp add: ipc_send_op_def peek_waiter_def upd_ep_def split: option.split)
    show thesis
    proof (cases "?nb \<or> a = None")
      case True
      then have "ipc_send_op s self (Some e) (Some self) opn a = Some (s, Ret (if ?nb then IPC_ERR_NOPARTNER else IPC_ERR_BUSY))"
        unfolding eq by (cases a) simp_all
      then show thesis using assms(1) same [of "if ?nb then IPC_ERR_NOPARTNER else IPC_ERR_BUSY"] by (simp add: ipc_err)
    next
      case False
      then obtain w where w: "a = Some w" "\<not> ?nb" by auto
      show thesis using assms(1) live Nil unfolding eq by (intro block [of w]) (simp_all add: w)
    qed
  next
    case (Cons w ws)
    have "waits s w \<noteq> None"
    proof
      assume "waits s w = None"
      then have "ipc_send_op s self (Some e) (Some self) opn a = None" using assms(2) live Cons by (simp add: ipc_send_op_def peek_waiter_def)
      then show False using assms(1) by simp
    qed
    then obtain x where x: "waits s w = Some x" by auto
    obtain s1 err where sl: "slice_transfer s self (w_partner x) (msgs s self) = (s1, err)" by (rule prod.exhaust)
    note f = slice_frame [OF sl]
    show thesis
    proof (cases "err = IPC_OK")
      case False
      then have "ipc_send_op s self (Some e) (Some self) opn a = Some (s, Ret err)"
        using live x sl f(2) assms(2) by (simp add: ipc_send_op_def peek_waiter_def Cons)
      then show thesis using assms(1) False same [of err] by simp
    next
      case True
      obtain wd where s1: "s1 = s\<lparr>windows := wd\<rparr>" by (rule that [OF f(1)])
      have "ipc_send_op s self (Some e) (Some self) opn a = Some (sent s self e ep w x opn wd, Ret IPC_OK)"
        using live x sl True assms(2) unfolding ipc_send_op_def peek_waiter_def Cons upd_ep_def sent_def s1 by (simp add: Let_def Cons)
      then show thesis using assms(1) live Cons x sl True s1 by (intro sent [of w ws x wd]) simp_all
    qed
  qed
qed

lemma sent_sel:
  "eps (sent s t e ep w x opn wd) = (eps s)(e := Some (ep\<lparr>recv_queue := tl (recv_queue ep), msgs_sent := msgs_sent ep + 1\<rparr>))"
  "waits (sent s t e ep w x opn wd) = (waits s)(w := Some (x\<lparr>w_operation := opn, w_result := IPC_OK, w_partner := t\<rparr>))"
  "endpoint_list (sent s t e ep w x opn wd) = endpoint_list s" "owned_endpoints (sent s t e ep w x opn wd) = owned_endpoints s"
  "t_state (thr (sent s t e ep w x opn wd) u) = (if u = w_partner x then TASK_RUNNING else t_state (thr s u))"
  "ipc_view (thr (sent s t e ep w x opn wd) u) = ipc_view (thr (if opn = IPC_OP_CALL then link_call s t (w_partner x) else s) u)"
  by (simp_all add: sent_def Let_def link_call_def upd_thread_def)

lemma sent_ok:
  assumes inv: "ipc_inv c" and e: "eps (st c) e = Some ep" and w: "recv_queue ep = w # ws" "waits (st c) w = Some x"
  shows "endpoints_ok (c\<lparr>st := sent (st c) t e ep w x opn wd\<rparr>)" "queues_ok (c\<lparr>st := sent (st c) t e ep w x opn wd\<rparr>)"
    "waits_ok (c\<lparr>st := sent (st c) t e ep w x opn wd\<rparr>)"
    "(\<And>v. v \<noteq> u \<Longrightarrow> p' v = pc c v) \<Longrightarrow> calls_keep c u (sent (st c) t e ep w x opn wd) p'"
proof -
  have ok: "queues_ok c" using inv by (simp add: ipc_inv_def)
  note q = queues_okD [OF ok e]
  have f: "tl (recv_queue ep) = filter (\<lambda>v. v \<noteq> w) (recv_queue ep)" using q(2) filter_head [of w ws] w(1) by simp
  have n: "send_queue ep = filter (\<lambda>v. v \<noteq> w) (send_queue ep)" using q(3) w(1) by simp
  note S = serve_one [OF inv e _ w(2), of "ep\<lparr>recv_queue := tl (recv_queue ep), msgs_sent := msgs_sent ep + 1\<rparr>"
    "sent (st c) t e ep w x opn wd" "x\<lparr>w_operation := opn, w_result := IPC_OK, w_partner := t\<rparr>"]
  show "endpoints_ok (c\<lparr>st := sent (st c) t e ep w x opn wd\<rparr>)" "queues_ok (c\<lparr>st := sent (st c) t e ep w x opn wd\<rparr>)"
    "waits_ok (c\<lparr>st := sent (st c) t e ep w x opn wd\<rparr>)"
    using w(1) f n by (intro S; simp add: sent_sel)+
  show "calls_keep c u (sent (st c) t e ep w x opn wd) p'" if "\<And>v. v \<noteq> u \<Longrightarrow> p' v = pc c v"
    using w(1) f n that by (intro S; simp add: sent_sel)
qed

lemma send_ok:
  assumes inv: "ipc_inv c" and t: "pc c t = Idle" "ref c t = Some e" and a: "fresh (waits (st c)) a"
    and s: "ipc_send (st c) t (Some e) (Some t) a = Some (s', r)"
  shows "ipc_inv (c\<lparr>st := s', pc := (pc c)(t := (case r of Ret i \<Rightarrow> Idle | Sleep w \<Rightarrow> Sending w))\<rparr>)"
proof -
  have ok: "endpoints_ok c" "queues_ok c" "waits_ok c" "calls_ok c" using inv by (simp_all add: ipc_inv_def)
  have pc: "(pc c)(t := Idle) = pc c" using t(1) by auto
  obtain ep where e: "eps (st c) e = Some ep" using heap_okD(6) [OF ok(1) t(2)] by auto
  from s [unfolded ipc_send_def] e show ?thesis
  proof (cases rule: send_cases)
    case same
    then show ?thesis using inv pc by simp
  next
    case (sent w ws x wd)
    note S = sent_ok [OF inv e sent(2,3), where t = t and opn = IPC_OP_SEND and wd = wd]
    have "calls_keep c u s' (pc c)" for u using S(4) [of u "pc c"] sent(4) by simp
    then have "calls_ok (c\<lparr>st := s', pc := pc c, ref := ref c\<rparr>)"
      by (rule calls_kept [OF ok(4)]) (simp add: sent(4) sent_sel ipc_op)
    then show ?thesis using S(1-3) sent(4,5) pc by (simp add: ipc_inv_def)
  next
    case (block w)
    then show ?thesis using block_ok [OF inv t e, of w True] a by (simp add: fresh_def)
  qed
qed

text \<open>The caller's side: a send that fails or sleeps, a reply that is there or not.\<close>

lemma calls_leave:
  assumes ok: "calls_ok c" and u: "ipc_reply_pending (thr (st c) t) = 0"
    and v: "\<And>x. ipc_caller (thr s' x) = ipc_caller (thr (st c) x)" "\<And>x. ipc_reply_pending (thr s' x) = ipc_reply_pending (thr (st c) x)"
      "\<And>x. x \<noteq> t \<Longrightarrow> ipc_reply_server (thr s' x) = ipc_reply_server (thr (st c) x)"
    and k: "calls_keep c t s' p'" and p: "p' t \<noteq> Replying"
  shows "calls_ok (c\<lparr>st := s', pc := p'\<rparr>)"
proof (rule calls_okI)
  note D = calls_okD [OF ok]
  show "ipc_reply_pending (thr (st (c\<lparr>st := s', pc := p'\<rparr>)) y) \<noteq> 0 \<and> ipc_reply_server (thr (st (c\<lparr>st := s', pc := p'\<rparr>)) y) = Some x"
    if "ipc_caller (thr (st (c\<lparr>st := s', pc := p'\<rparr>)) x) = Some y" for x y
    using that D(1,2) [of x y] u v by (cases "y = t") auto
  show "pc (c\<lparr>st := s', pc := p'\<rparr>) x = Replying \<or>
     (\<exists>w y. pc (c\<lparr>st := s', pc := p'\<rparr>) x = Calling w \<and> waits (st (c\<lparr>st := s', pc := p'\<rparr>)) w = Some y \<and> w_result y = IPC_OK)"
    if "ipc_reply_pending (thr (st (c\<lparr>st := s', pc := p'\<rparr>)) x) \<noteq> 0" for x
  proof (cases "x = t")
    case False
    then show ?thesis using that D(3) [of x] calls_keepD(3) [OF k] by (simp add: v)
  qed (use that u v in simp)
  show "t_state (thr (st (c\<lparr>st := s', pc := p'\<rparr>)) x) = TASK_RUNNING \<longleftrightarrow> ipc_reply_pending (thr (st (c\<lparr>st := s', pc := p'\<rparr>)) x) = 0"
    if "pc (c\<lparr>st := s', pc := p'\<rparr>) x = Replying" for x
  proof (cases "x = t")
    case False
    then show ?thesis using that D(4) [of x] calls_keepD(1,2) [OF k] by (simp add: v)
  qed (use that p in simp)
qed

lemma call_failed_sel:
  "eps (ipc_call_failed s t) = eps s" "waits (ipc_call_failed s t) = waits s"
  "endpoint_list (ipc_call_failed s t) = endpoint_list s" "owned_endpoints (ipc_call_failed s t) = owned_endpoints s"
  "ipc_caller (thr (ipc_call_failed s t) x) = ipc_caller (thr s x)" "t_state (thr (ipc_call_failed s t) x) = t_state (thr s x)"
  "ipc_reply_pending (thr (ipc_call_failed s t) x) = (if x = t then 0 else ipc_reply_pending (thr s x))"
  "x \<noteq> t \<Longrightarrow> ipc_reply_server (thr (ipc_call_failed s t) x) = ipc_reply_server (thr s x)"
  by (simp_all add: ipc_call_failed_def upd_thread_def)

lemma keep_same:
  "waits s' = waits (st c) \<Longrightarrow> (\<And>x. x \<noteq> t \<Longrightarrow> t_state (thr s' x) = t_state (thr (st c) x)) \<Longrightarrow> calls_keep c t s' ((pc c)(t := p))"
  by (simp add: calls_keep_def)

lemma call_sleep_ok:
  assumes inv: "ipc_inv c" and t: "pc c t = Idle" "ref c t = Some e" and a: "fresh (waits (st c)) a"
    and s: "ipc_send_op (st c) t (Some e) (Some t) IPC_OP_CALL a = Some (s', Sleep w)"
  shows "ipc_inv (c\<lparr>st := s', pc := (pc c)(t := Calling w)\<rparr>)"
proof -
  obtain ep where e: "eps (st c) e = Some ep" using inv heap_okD(6) t(2) unfolding ipc_inv_def by blast
  from s e show ?thesis
  proof (cases rule: send_cases)
    case (block v)
    then show ?thesis using block_ok [OF inv t e, of w True] a by (simp add: fresh_def)
  qed simp_all
qed

lemma call_ret_ok:
  assumes inv: "ipc_inv c" and t: "pc c t = Idle" "ref c t = Some e" and a: "fresh (waits (st c)) a"
    and s: "ipc_send_op (st c) t (Some e) (Some t) IPC_OP_CALL a = Some (s1, Ret i)"
    and s': "(s', p) = (if i = IPC_OK then call_turn s1 t else (ipc_call_failed s1 t, Idle))"
  shows "ipc_inv (c\<lparr>st := s', pc := (pc c)(t := p)\<rparr>)"
proof -
  have ok: "endpoints_ok c" "queues_ok c" "waits_ok c" "calls_ok c" using inv by (simp_all add: ipc_inv_def)
  obtain ep where e: "eps (st c) e = Some ep" using heap_okD(6) [OF ok(1) t(2)] by auto
  have np: "ipc_reply_pending (thr (st c) t) = 0" using idle_no_reply [OF ok(4), of t] t(1) by simp
  from s e show ?thesis
  proof (cases rule: send_cases)
    case (same j)
    then have eq: "s' = ipc_call_failed (st c) t" "p = Idle" using s' by auto
    have "queues_ok (c\<lparr>st := s', pc := (pc c)(t := p)\<rparr>)" "waits_ok (c\<lparr>st := s', pc := (pc c)(t := p)\<rparr>)"
      using t(1) by (intro idle_frame [OF ok(2,3)]; auto simp: eq call_failed_sel)+
    moreover have "calls_ok (c\<lparr>st := s', pc := (pc c)(t := p)\<rparr>)"
      using np by (intro calls_leave [OF ok(4) np] keep_same) (simp_all add: eq call_failed_sel)
    ultimately show ?thesis using ok(1) by (simp add: ipc_inv_def eq call_failed_sel)
  next
    case (sent w ws x wd)
    note S = sent_ok [OF inv e sent(2,3), where t = t and opn = IPC_OP_CALL and wd = wd, folded sent(4)]
    have T: "(s', p) = call_turn s1 t" using s' sent(5) by simp
    have v: "ipc_view (thr s1 y) = ipc_view (thr (link_call (st c) t (w_partner x)) y)" for y
      using sent_sel(6) [of "st c" t e ep w x IPC_OP_CALL wd y] sent(4) by simp
    have pend: "ipc_reply_pending (thr s1 t) \<noteq> 0" using view_fields(4) [OF v, of t] by simp
    note C = call_turn_sel [OF T]
    have p: "p = Replying" using C(1) pend by simp
    have "s' = fst (ipc_call_wait s1 t)" using T pend by (simp add: call_turn_def ipc_call_wait_def)
    then have v': "ipc_view (thr s' y) = ipc_view (thr (link_call (st c) t (w_partner x)) y)" for y
      using v [of y] call_wait_view [of s1 t y] by simp
    have "calls_keep c t s' ((pc c)(t := p))" using S(4) [of t "(pc c)(t := p)"] C(3,9) by (simp add: calls_keep_def)
    from calls_link [OF ok(4) np v' this, of "ref c"] have "calls_ok (c\<lparr>st := s', pc := (pc c)(t := p)\<rparr>)"
      using C(9) [of t] pend p by simp
    moreover have "queues_ok (c\<lparr>st := s1, st := s', pc := (pc c)(t := p)\<rparr>)" "waits_ok (c\<lparr>st := s1, st := s', pc := (pc c)(t := p)\<rparr>)"
      using t(1) p C by (intro idle_frame [OF S(2,3)]; auto)+
    ultimately show ?thesis using S(1) C by (simp add: ipc_inv_def)
  qed simp
qed

text \<open>A thread that was served returns; its wait object is freed.\<close>

definition resumed :: "ipc_state \<Rightarrow> nat \<Rightarrow> nat \<Rightarrow> ipc_state" where
  "resumed s t w = s\<lparr>sched := thread_sleep_resume (sched s) t, waits := (waits s)(w := None)\<rparr>"

lemma resume_eq:
  assumes inv: "ipc_inv c" and t: "waiting (pc c t) = Some w" "ref c t = Some e" "t_state (thr (st c) t) = TASK_RUNNING"
  shows "\<exists>x. waits (st c) w = Some x \<and> ipc_send_resume (st c) t e w = Some (resumed (st c) t w, w_result x) \<and>
    ipc_recv_resume (st c) t e w = Some (resumed (st c) t w, w_result x)"
proof -
  have ok: "endpoints_ok c" "queues_ok c" "waits_ok c" using inv by (simp_all add: ipc_inv_def)
  obtain x where x: "waits (st c) w = Some x" using waits_okD(1) [OF ok(3) t(1)] by auto
  obtain ep where e: "eps (st c) e = Some ep" using heap_okD(6) [OF ok(1) t(2)] by auto
  have nq: "w \<notin> set (send_queue ep)" "w \<notin> set (recv_queue ep)"
    using served [OF ok(2,3) t(1,3)] queued_at [OF e, of w] by auto
  have up: "(eps (st c))(e := Some ep) = eps (st c)" using e by auto
  have "ep\<lparr>send_queue := remove1 w (send_queue ep)\<rparr> = ep" "ep\<lparr>recv_queue := remove1 w (recv_queue ep)\<rparr> = ep"
    using nq by (simp_all add: remove1_idem)
  then show ?thesis using x e up
    by (simp add: ipc_send_resume_def ipc_recv_resume_def upd_ep_def resumed_def)
qed

lemma resumed_sel:
  "eps (resumed s t w) = eps s" "waits (resumed s t w) = (waits s)(w := None)" "endpoint_list (resumed s t w) = endpoint_list s"
  "owned_endpoints (resumed s t w) = owned_endpoints s" "ipc_view (thr (resumed s t w) u) = ipc_view (thr s u)"
  "t_state (thr (resumed s t w) u) = t_state (thr s u)"
  by (simp_all add: resumed_def)

lemma resumed_keep:
  assumes ok: "waits_ok c" and t: "waiting (pc c t) = Some w" and s': "waits s' = (waits (st c))(w := None)"
    "\<And>u. u \<noteq> t \<Longrightarrow> t_state (thr s' u) = t_state (thr (st c) u)"
  shows "calls_keep c t s' ((pc c)(t := p))"
  unfolding calls_keep_def
proof (intro allI impI conjI)
  fix u assume u: "u \<noteq> t"
  show "((pc c)(t := p)) u = Replying \<longleftrightarrow> pc c u = Replying" using u by simp
  show "t_state (thr s' u) = t_state (thr (st c) u)" if "pc c u = Replying" using s'(2) u by simp
  show "((pc c)(t := p)) u = Calling v" if "pc c u = Calling v" for v using u that by simp
  show "\<exists>y'. waits s' v = Some y' \<and> w_result y' = IPC_OK" if "pc c u = Calling v" "waits (st c) v = Some y" "w_result y = IPC_OK" for v y
  proof -
    have "v \<noteq> w" using waits_okD(3) [OF ok t, of u] that(1) u by auto
    then show ?thesis using that s'(1) by simp
  qed
qed

lemma resume_ok:
  assumes inv: "ipc_inv c" and t: "pc c t = Sending w \<or> pc c t = Receiving w" "t_state (thr (st c) t) = TASK_RUNNING"
  shows "ipc_inv (c\<lparr>st := resumed (st c) t w, pc := (pc c)(t := Idle)\<rparr>)"
proof -
  have ok: "endpoints_ok c" "queues_ok c" "waits_ok c" "calls_ok c" using inv by (simp_all add: ipc_inv_def)
  have w: "waiting (pc c t) = Some w" using t(1) by auto
  have np: "ipc_reply_pending (thr (st c) t) = 0" using idle_no_reply [OF ok(4), of t] t(1) by auto
  note V = view_fields [OF resumed_sel(5)]
  have "calls_ok (c\<lparr>st := resumed (st c) t w, pc := (pc c)(t := Idle)\<rparr>)"
    by (intro calls_leave [OF ok(4) np] resumed_keep [OF ok(3) w]) (simp_all add: V resumed_sel)
  moreover have "queues_ok (c\<lparr>st := resumed (st c) t w, pc := (pc c)(t := Idle)\<rparr>)" "waits_ok (c\<lparr>st := resumed (st c) t w, pc := (pc c)(t := Idle)\<rparr>)"
    by (intro leave_ok [OF ok(2,3) w t(2)]; simp add: resumed_sel)+
  ultimately show ?thesis using ok(1) by (simp add: ipc_inv_def resumed_sel)
qed

lemma call_resume_ok:
  assumes inv: "ipc_inv c" and t: "pc c t = Calling w" "t_state (thr (st c) t) = TASK_RUNNING" and x: "waits (st c) w = Some x"
    and s': "(s', p) = (if w_result x = IPC_OK then call_turn (resumed (st c) t w) t else (ipc_call_failed (resumed (st c) t w) t, Idle))"
  shows "ipc_inv (c\<lparr>st := s', pc := (pc c)(t := p)\<rparr>)"
proof -
  have ok: "endpoints_ok c" "queues_ok c" "waits_ok c" "calls_ok c" using inv by (simp_all add: ipc_inv_def)
  have w: "waiting (pc c t) = Some w" using t(1) by auto
  note V = view_fields [OF resumed_sel(5)]
  show ?thesis
  proof (cases "w_result x = IPC_OK")
    case True
    then have T: "(s', p) = call_turn (resumed (st c) t w) t" using s' by simp
    note C = call_turn_sel [OF T]
    have "calls_ok (c\<lparr>st := s', pc := (pc c)(t := p)\<rparr>)"
      by (rule turn_calls [OF ok(4) resumed_sel(5) resumed_keep [OF ok(3) w] T]) (simp_all add: resumed_sel)
    moreover have "queues_ok (c\<lparr>st := s', pc := (pc c)(t := p)\<rparr>)" "waits_ok (c\<lparr>st := s', pc := (pc c)(t := p)\<rparr>)"
      by (intro leave_ok [OF ok(2,3) w t(2)]; simp add: resumed_sel C)+
    ultimately show ?thesis using ok(1) by (simp add: ipc_inv_def resumed_sel C)
  next
    case False
    then have eq: "s' = ipc_call_failed (resumed (st c) t w) t" "p = Idle" using s' by auto
    have np: "ipc_reply_pending (thr (st c) t) = 0" using calls_okD(3) [OF ok(4), of t] t(1) x False by auto
    have "calls_ok (c\<lparr>st := s', pc := (pc c)(t := p)\<rparr>)"
      using np by (intro calls_leave [OF ok(4) np] resumed_keep [OF ok(3) w]) (simp_all add: V resumed_sel eq call_failed_sel)
    moreover have "queues_ok (c\<lparr>st := s', pc := (pc c)(t := p)\<rparr>)" "waits_ok (c\<lparr>st := s', pc := (pc c)(t := p)\<rparr>)"
      by (intro leave_ok [OF ok(2,3) w t(2)]; simp add: resumed_sel eq call_failed_sel)+
    ultimately show ?thesis using ok(1) by (simp add: ipc_inv_def resumed_sel eq call_failed_sel)
  qed
qed

lemma call_turn_ok:
  assumes inv: "ipc_inv c" and t: "pc c t = Replying" and T: "(s', p) = call_turn (st c) t"
  shows "ipc_inv (c\<lparr>st := s', pc := (pc c)(t := p)\<rparr>)"
proof -
  have ok: "endpoints_ok c" "queues_ok c" "waits_ok c" "calls_ok c" using inv by (simp_all add: ipc_inv_def)
  note C = call_turn_sel [OF T]
  have "calls_ok (c\<lparr>st := s', pc := (pc c)(t := p)\<rparr>)"
    by (rule turn_calls [OF ok(4) refl keep_same T]) simp_all
  moreover have "queues_ok (c\<lparr>st := s', pc := (pc c)(t := p)\<rparr>)" "waits_ok (c\<lparr>st := s', pc := (pc c)(t := p)\<rparr>)"
    using t by (intro idle_frame [OF ok(2,3)]; auto simp: C)+
  ultimately show ?thesis using ok(1) by (simp add: ipc_inv_def C)
qed

definition received :: "ipc_state \<Rightarrow> nat \<Rightarrow> nat \<Rightarrow> ipc_endpoint \<Rightarrow> nat \<Rightarrow> ipc_wait \<Rightarrow> (nat \<Rightarrow> u8 list option) \<Rightarrow> ipc_state" where
  "received s self e ep w x wd =
     (let s1 = s\<lparr>windows := wd, msgs := (msgs s)(self := copy_message (msgs s self) (msgs s (w_msg x))),
            waits := (waits s)(w := Some (x\<lparr>w_result := IPC_OK, w_partner := self\<rparr>)),
            ipc_total_messages := ipc_total_messages s + 1,
            eps := (eps s)(e := Some (ep\<lparr>send_queue := tl (send_queue ep), msgs_received := msgs_received ep + 1\<rparr>))\<rparr>;
          s2 = (if w_operation x = IPC_OP_CALL then link_call s1 (w_partner x) self else s1)
      in s2\<lparr>sched := sched_wakeup (sched s2) (w_partner x)\<rparr>)"

definition refused :: "ipc_state \<Rightarrow> nat \<Rightarrow> ipc_endpoint \<Rightarrow> nat \<Rightarrow> ipc_wait \<Rightarrow> int \<Rightarrow> ipc_state" where
  "refused s e ep w x err = s\<lparr>waits := (waits s)(w := Some (x\<lparr>w_result := err\<rparr>)),
     eps := (eps s)(e := Some (ep\<lparr>send_queue := tl (send_queue ep)\<rparr>)), sched := sched_wakeup (sched s) (w_partner x)\<rparr>"

lemma recv_cases:
  assumes "ipc_recv s self (Some e) (Some self) a = Some (s', r)" "eps s e = Some ep"
  obtains (same) i where "s' = s" "r = Ret i" "i \<noteq> IPC_OK"
  | (received) w ws x wd where "\<not> ep_dead ep" "send_queue ep = w # ws" "waits s w = Some x" "s' = received s self e ep w x wd" "r = Ret IPC_OK"
      "slice_transfer s (w_partner x) self (msgs s (w_msg x)) = (s\<lparr>windows := wd\<rparr>, IPC_OK)"
  | (refused) w ws x i where "\<not> ep_dead ep" "send_queue ep = w # ws" "waits s w = Some x" "s' = refused s e ep w x i" "r = Ret i" "i \<noteq> IPC_OK"
  | (block) w where "\<not> ep_dead ep" "send_queue ep = []" "a = Some w" "r = Sleep w"
      "s' = block_on (s\<lparr>eps := (eps s)(e := Some (ep\<lparr>recv_queue := recv_queue ep @ [w]\<rparr>))\<rparr>) self e self IPC_OP_RECV w"
proof (cases "ep_dead ep")
  case True
  then have "ipc_recv s self (Some e) (Some self) a = Some (s, Ret IPC_ERR_DEAD)" using assms(2) by (simp add: ipc_recv_def)
  then show thesis using assms(1) same [of IPC_ERR_DEAD] by (simp add: ipc_err)
next
  case live: False
  show thesis
  proof (cases "send_queue ep")
    case Nil
    let ?nb = "MSG_FLAGS (m_tag (msgs s self)) AND MSG_FLAG_NONBLOCK \<noteq> 0"
    have eq: "ipc_recv s self (Some e) (Some self) a =
      (if ?nb then Some (s, Ret IPC_ERR_NOPARTNER) else case a of None \<Rightarrow> Some (s, Ret IPC_ERR_BUSY)
       | Some w \<Rightarrow> Some (block_on (s\<lparr>eps := (eps s)(e := Some (ep\<lparr>recv_queue := recv_queue ep @ [w]\<rparr>))\<rparr>) self e self IPC_OP_RECV w, Sleep w))"
      using assms(2) live Nil by (simp add: ipc_recv_def peek_waiter_def upd_ep_def split: option.split)
    show thesis
    proof (cases "?nb \<or> a = None")
      case True
      then have "ipc_recv s self (Some e) (Some self) a = Some (s, Ret (if ?nb then IPC_ERR_NOPARTNER else IPC_ERR_BUSY))"
        unfolding eq by (cases a) simp_all
      then show thesis using assms(1) same [of "if ?nb then IPC_ERR_NOPARTNER else IPC_ERR_BUSY"] by (simp add: ipc_err)
    next
      case False
      then obtain w where w: "a = Some w" "\<not> ?nb" by auto
      show thesis using assms(1) live Nil unfolding eq by (intro block [of w]) (simp_all add: w)
    qed
  next
    case (Cons w ws)
    have "waits s w \<noteq> None"
    proof
      assume "waits s w = None"
      then have "ipc_recv s self (Some e) (Some self) a = None" using assms(2) live Cons by (simp add: ipc_recv_def peek_waiter_def)
      then show False using assms(1) by simp
    qed
    then obtain x where x: "waits s w = Some x" by auto
    obtain s1 err where sl: "slice_transfer s (w_partner x) self (msgs s (w_msg x)) = (s1, err)" by (rule prod.exhaust)
    note f = slice_frame [OF sl]
    show thesis
    proof (cases "err = IPC_OK")
      case False
      then have s1: "s1 = s" by (rule f(2))
      have "ipc_recv s self (Some e) (Some self) a = Some (refused s e ep w x err, Ret err)"
        using live x sl False assms(2) unfolding ipc_recv_def peek_waiter_def Cons upd_ep_def refused_def s1 by (simp add: Cons)
      then show thesis using assms(1) False live Cons x by (intro refused [of w ws x err]) simp_all
    next
      case True
      obtain wd where s1: "s1 = s\<lparr>windows := wd\<rparr>" by (rule that [OF f(1)])
      have "ipc_recv s self (Some e) (Some self) a = Some (received s self e ep w x wd, Ret IPC_OK)"
        using live x sl True assms(2) unfolding ipc_recv_def peek_waiter_def Cons upd_ep_def received_def s1 by (simp add: Let_def Cons)
      then show thesis using assms(1) live Cons x sl True s1 by (intro received [of w ws x wd]) simp_all
    qed
  qed
qed

lemma received_sel:
  "eps (received s t e ep w x wd) = (eps s)(e := Some (ep\<lparr>send_queue := tl (send_queue ep), msgs_received := msgs_received ep + 1\<rparr>))"
  "waits (received s t e ep w x wd) = (waits s)(w := Some (x\<lparr>w_result := IPC_OK, w_partner := t\<rparr>))"
  "endpoint_list (received s t e ep w x wd) = endpoint_list s" "owned_endpoints (received s t e ep w x wd) = owned_endpoints s"
  "t_state (thr (received s t e ep w x wd) u) = (if u = w_partner x then TASK_RUNNING else t_state (thr s u))"
  "ipc_view (thr (received s t e ep w x wd) u) = ipc_view (thr (if w_operation x = IPC_OP_CALL then link_call s (w_partner x) t else s) u)"
  by (simp_all add: received_def Let_def link_call_def upd_thread_def)

lemma refused_sel:
  "eps (refused s e ep w x err) = (eps s)(e := Some (ep\<lparr>send_queue := tl (send_queue ep)\<rparr>))"
  "waits (refused s e ep w x err) = (waits s)(w := Some (x\<lparr>w_result := err\<rparr>))"
  "endpoint_list (refused s e ep w x err) = endpoint_list s" "owned_endpoints (refused s e ep w x err) = owned_endpoints s"
  "t_state (thr (refused s e ep w x err) u) = (if u = w_partner x then TASK_RUNNING else t_state (thr s u))"
  "ipc_view (thr (refused s e ep w x err) u) = ipc_view (thr s u)"
  by (simp_all add: refused_def)

lemma head_filter:
  assumes "queues_ok c" "eps (st c) e = Some ep" "send_queue ep = w # ws"
  shows "tl (send_queue ep) = filter (\<lambda>v. v \<noteq> w) (send_queue ep)" "recv_queue ep = filter (\<lambda>v. v \<noteq> w) (recv_queue ep)"
  using queues_okD [OF assms(1,2)] filter_head [of w ws] assms(3) by simp_all

lemma recv_ok:
  assumes inv: "ipc_inv c" and t: "pc c t = Idle" "ref c t = Some e" and a: "fresh (waits (st c)) a"
    and s: "ipc_recv (st c) t (Some e) (Some t) a = Some (s', r)"
  shows "ipc_inv (c\<lparr>st := s', pc := (pc c)(t := (case r of Ret i \<Rightarrow> Idle | Sleep w \<Rightarrow> Receiving w))\<rparr>)"
proof -
  have ok: "endpoints_ok c" "queues_ok c" "waits_ok c" "calls_ok c" using inv by (simp_all add: ipc_inv_def)
  have pc: "(pc c)(t := Idle) = pc c" using t(1) by auto
  obtain ep where e: "eps (st c) e = Some ep" using heap_okD(6) [OF ok(1) t(2)] by auto
  from s e show ?thesis
  proof (cases rule: recv_cases)
    case same
    then show ?thesis using inv pc by simp
  next
    case (received w ws x wd)
    note H = head_filter [OF ok(2) e received(2)]
    note S = serve_one [OF inv e _ received(3), of "ep\<lparr>send_queue := tl (send_queue ep), msgs_received := msgs_received ep + 1\<rparr>"
      s' "x\<lparr>w_result := IPC_OK, w_partner := t\<rparr>"]
    have K: "calls_keep c u s' (pc c)" for u using H received(2) by (intro S; simp add: received(4) received_sel)
    have "queued_wait c e True w" using queues_okD(6) [OF ok(2) e] received(2) by simp
    then have x: "w_result x = IPC_ERR_NOPARTNER" "w_operation x = IPC_OP_CALL \<Longrightarrow> pc c (w_partner x) = Calling w"
      using received(3) by (auto simp: queued_wait_def ipc_op)
    have "calls_ok (c\<lparr>st := s', pc := pc c, ref := ref c\<rparr>)"
    proof (cases "w_operation x = IPC_OP_CALL")
      case True
      have np: "ipc_reply_pending (thr (st c) (w_partner x)) = 0"
        using calls_okD(3) [OF ok(4), of "w_partner x"] x True received(3) by (auto simp: ipc_err)
      show ?thesis using x(2) [OF True] True by (intro calls_link [OF ok(4) np _ K]) (simp_all add: received(4) received_sel)
    qed (intro calls_kept [OF ok(4) K], simp add: received(4) received_sel)
    moreover have "endpoints_ok (c\<lparr>st := s'\<rparr>)" "queues_ok (c\<lparr>st := s'\<rparr>)" "waits_ok (c\<lparr>st := s'\<rparr>)"
      using H received(2) by (intro S; simp add: received(4) received_sel)+
    ultimately show ?thesis using received(5) pc by (simp add: ipc_inv_def)
  next
    case (refused w ws x i)
    note H = head_filter [OF ok(2) e refused(2)]
    note S = serve_one [OF inv e _ refused(3), of "ep\<lparr>send_queue := tl (send_queue ep)\<rparr>" s' "x\<lparr>w_result := i\<rparr>"]
    have K: "calls_keep c u s' (pc c)" for u using H refused(2) by (intro S; simp add: refused(4) refused_sel)
    have "calls_ok (c\<lparr>st := s', pc := pc c, ref := ref c\<rparr>)"
      by (intro calls_kept [OF ok(4) K]) (simp add: refused(4) refused_sel)
    moreover have "endpoints_ok (c\<lparr>st := s'\<rparr>)" "queues_ok (c\<lparr>st := s'\<rparr>)" "waits_ok (c\<lparr>st := s'\<rparr>)"
      using H refused(2) by (intro S; simp add: refused(4) refused_sel)+
    ultimately show ?thesis using refused(5) pc by (simp add: ipc_inv_def)
  next
    case (block w)
    then show ?thesis using block_ok [OF inv t e, of w False] a by (simp add: fresh_def)
  qed
qed

text \<open>A caller that is let go, by a reply or because its server exits.\<close>

definition releases :: "ipc_state \<Rightarrow> nat \<Rightarrow> nat \<Rightarrow> ipc_state \<Rightarrow> bool" where
  "releases s t u s' \<longleftrightarrow> eps s' = eps s \<and> waits s' = waits s \<and> endpoint_list s' = endpoint_list s \<and>
     owned_endpoints s' = owned_endpoints s \<and>
     (\<forall>x. ipc_caller (thr s' x) = (if x = t then None else ipc_caller (thr s x)) \<and>
        ipc_reply_pending (thr s' x) = (if x = u then 0 else ipc_reply_pending (thr s x)) \<and>
        (x \<noteq> u \<longrightarrow> ipc_reply_server (thr s' x) = ipc_reply_server (thr s x)) \<and>
        t_state (thr s' x) = (if x = u then TASK_RUNNING else t_state (thr s x)))"

lemma releasesD:
  assumes "releases s t u s'"
  shows "eps s' = eps s" "waits s' = waits s" "endpoint_list s' = endpoint_list s" "owned_endpoints s' = owned_endpoints s"
    "ipc_caller (thr s' x) = (if x = t then None else ipc_caller (thr s x))"
    "ipc_reply_pending (thr s' x) = (if x = u then 0 else ipc_reply_pending (thr s x))"
    "x \<noteq> u \<Longrightarrow> ipc_reply_server (thr s' x) = ipc_reply_server (thr s x)"
    "t_state (thr s' x) = (if x = u then TASK_RUNNING else t_state (thr s x))"
  using assms unfolding releases_def by blast+

lemma release_calls:
  assumes ok: "calls_ok c" and u: "ipc_caller (thr (st c) t) = Some u" and r: "releases (st c) t u s'"
  shows "calls_ok (c\<lparr>st := s'\<rparr>)"
proof (rule calls_okI)
  note D = calls_okD [OF ok] and R = releasesD [OF r]
  show "ipc_reply_pending (thr (st (c\<lparr>st := s'\<rparr>)) y) \<noteq> 0 \<and> ipc_reply_server (thr (st (c\<lparr>st := s'\<rparr>)) y) = Some x"
    if "ipc_caller (thr (st (c\<lparr>st := s'\<rparr>)) x) = Some y" for x y
  proof -
    have x: "x \<noteq> t" "ipc_caller (thr (st c) x) = Some y" using that R(5) [of x] by (auto split: if_splits)
    then have "y \<noteq> u" using D(2) [of x y] D(2) [OF u] by auto
    then show ?thesis using D(1,2) [OF x(2)] R(6) [of y] R(7) [of y] by simp
  qed
  show "pc (c\<lparr>st := s'\<rparr>) x = Replying \<or>
     (\<exists>w y. pc (c\<lparr>st := s'\<rparr>) x = Calling w \<and> waits (st (c\<lparr>st := s'\<rparr>)) w = Some y \<and> w_result y = IPC_OK)"
    if "ipc_reply_pending (thr (st (c\<lparr>st := s'\<rparr>)) x) \<noteq> 0" for x
    using D(3) [of x] that R(2) R(6) [of x] by (auto split: if_splits)
  show "t_state (thr (st (c\<lparr>st := s'\<rparr>)) x) = TASK_RUNNING \<longleftrightarrow> ipc_reply_pending (thr (st (c\<lparr>st := s'\<rparr>)) x) = 0"
    if "pc (c\<lparr>st := s'\<rparr>) x = Replying" for x
    using D(4) [of x] that R(6) [of x] R(8) [of x] by simp
qed

lemma caller_awake:
  assumes inv: "ipc_inv c" and u: "ipc_reply_pending (thr (st c) u) \<noteq> 0" and w: "waiting (pc c u) \<noteq> None"
  shows "t_state (thr (st c) u) = TASK_RUNNING"
proof -
  have ok: "queues_ok c" "waits_ok c" "calls_ok c" using inv by (simp_all add: ipc_inv_def)
  obtain v x where v: "pc c u = Calling v" "waits (st c) v = Some x" "w_result x = IPC_OK"
    using calls_okD(3) [OF ok(3) u] w by auto
  have "\<not> queued (st c) v"
  proof
    assume "queued (st c) v"
    then obtain e ep where e: "eps (st c) e = Some ep" "v \<in> set (send_queue ep) \<union> set (recv_queue ep)" by (rule queuedE)
    then obtain q where "queued_wait c e q v" using queues_okD(6,7) [OF ok(1) e(1)] by blast
    then show False using v(2,3) by (auto simp: queued_wait_def ipc_err)
  qed
  then show ?thesis using waits_okD(2) [OF ok(2), of u v] v(1) by simp
qed

lemma release_ok:
  assumes inv: "ipc_inv c" and u: "ipc_caller (thr (st c) t) = Some u" and r: "releases (st c) t u s'"
  shows "ipc_inv (c\<lparr>st := s'\<rparr>)"
proof -
  have ok: "endpoints_ok c" "queues_ok c" "waits_ok c" "calls_ok c" using inv by (simp_all add: ipc_inv_def)
  note R = releasesD [OF r]
  have "t_state (thr s' x) = t_state (thr (st c) x)" if "waiting (pc c x) \<noteq> None" for x
    using R(8) [of x] caller_awake [OF inv calls_okD(1) [OF ok(4) u]] that by auto
  then have "queues_ok (c\<lparr>st := s', pc := pc c\<rparr>)" "waits_ok (c\<lparr>st := s', pc := pc c\<rparr>)"
    by (intro idle_frame [OF ok(2,3) R(1,2)]; simp)+
  then show ?thesis using ok(1) release_calls [OF ok(4) u r] R(1,3,4) by (simp add: ipc_inv_def)
qed

lemma reply_releases:
  assumes "ipc_caller (thr s t) = Some u" "t \<noteq> u"
  shows "releases s t u (fst (ipc_reply s t (Some m)))"
proof -
  let ?s1 = "s\<lparr>sched := upd_thread (sched s) t (\<lambda>th. th\<lparr>ipc_caller := None\<rparr>)\<rparr>"
  obtain s2 err where sl: "slice_transfer ?s1 t u (msgs ?s1 m) = (s2, err)" by (rule prod.exhaust)
  obtain wd where s2: "s2 = ?s1\<lparr>windows := wd\<rparr>" by (rule that [OF slice_frame(1) [OF sl]])
  show ?thesis using assms sl unfolding releases_def ipc_reply_def s2 by (simp add: upd_thread_def Let_def)
qed

lemma not_own_caller: "calls_ok c \<Longrightarrow> pc c t = Idle \<Longrightarrow> ipc_caller (thr (st c) t) = Some u \<Longrightarrow> t \<noteq> u"
  using calls_okD(1,3) [of c] by fastforce

lemma reply_ok:
  assumes inv: "ipc_inv c" and t: "pc c t = Idle"
  shows "ipc_inv (c\<lparr>st := fst (ipc_reply (st c) t (Some t))\<rparr>)"
proof (cases "ipc_caller (thr (st c) t)")
  case None
  then show ?thesis using inv by (simp add: ipc_reply_def)
next
  case (Some u)
  then have "t \<noteq> u" using not_own_caller [of c t u] inv t by (simp add: ipc_inv_def)
  then show ?thesis using release_ok [OF inv Some] reply_releases [OF Some] by simp
qed

lemma reply_keeps:
  "waits (fst (ipc_reply s t (Some m))) = waits s"
proof (cases "ipc_caller (thr s t)")
  case (Some u)
  let ?s1 = "s\<lparr>sched := upd_thread (sched s) t (\<lambda>th. th\<lparr>ipc_caller := None\<rparr>)\<rparr>"
  obtain s2 err where sl: "slice_transfer ?s1 t u (msgs ?s1 m) = (s2, err)" by (rule prod.exhaust)
  obtain wd where s2: "s2 = ?s1\<lparr>windows := wd\<rparr>" by (rule that [OF slice_frame(1) [OF sl]])
  show ?thesis using Some sl unfolding ipc_reply_def s2 by (simp add: Let_def)
qed (simp add: ipc_reply_def)

lemma reply_recv_ok:
  assumes inv: "ipc_inv c" and t: "pc c t = Idle" "ref c t = Some e" and a: "fresh (waits (st c)) a"
    and s: "ipc_reply_recv (st c) t (Some e) (Some t) a = Some (s', r)"
  shows "ipc_inv (c\<lparr>st := s', pc := (pc c)(t := (case r of Ret i \<Rightarrow> Idle | Sleep w \<Rightarrow> Receiving w))\<rparr>)"
  using recv_ok [OF reply_ok [OF inv t(1)], of t e a s' r] t a s by (simp add: ipc_reply_recv_def reply_keeps)

lemma cleanup_caller_releases:
  assumes "ipc_caller (thr s t) = Some u" "t \<noteq> u"
  shows "releases s t u (cleanup_caller s t)"
  using assms by (simp add: releases_def cleanup_caller_def upd_thread_def Let_def)

text \<open>The server side of the cleanup finds nothing to do for a thread that waits for no reply.\<close>

lemma cleanup_rest_ok:
  assumes inv: "ipc_inv c" and t: "pc c t = Idle"
  shows "ipc_inv (c\<lparr>st := (let s1 = cleanup_server (st c) t in s1\<lparr>sched := upd_thread (sched s1) t (\<lambda>th. th\<lparr>ipc_reply_pending := 0\<rparr>)\<rparr>)\<rparr>)"
    (is "ipc_inv (c\<lparr>st := ?s\<rparr>)")
proof -
  have ok: "endpoints_ok c" "queues_ok c" "waits_ok c" "calls_ok c" using inv by (simp_all add: ipc_inv_def)
  have np: "ipc_reply_pending (thr (st c) t) = 0" using idle_no_reply [OF ok(4), of t] t by simp
  have nc: "ipc_caller (thr (st c) x) \<noteq> Some t" for x using calls_okD(1) [OF ok(4), of x t] np by auto
  define s' where "s' = ?s"
  have sel: "eps s' = eps (st c)" "waits s' = waits (st c)" "endpoint_list s' = endpoint_list (st c)" "owned_endpoints s' = owned_endpoints (st c)"
    "ipc_caller (thr s' x) = ipc_caller (thr (st c) x)" "ipc_reply_pending (thr s' x) = ipc_reply_pending (thr (st c) x)"
    "x \<noteq> t \<Longrightarrow> ipc_reply_server (thr s' x) = ipc_reply_server (thr (st c) x)" "t_state (thr s' x) = t_state (thr (st c) x)" for x
    using np nc unfolding s'_def by (auto simp: cleanup_server_def upd_thread_def Let_def split: option.split)
  have "queues_ok (c\<lparr>st := s', pc := pc c\<rparr>)" "waits_ok (c\<lparr>st := s', pc := pc c\<rparr>)"
    by (intro idle_frame [OF ok(2,3) sel(1,2)]; simp add: sel)+
  moreover have "calls_ok (c\<lparr>st := s', pc := pc c\<rparr>)"
    by (rule calls_leave [OF ok(4) np sel(5,6,7)]) (simp_all add: calls_keep_def sel t)
  ultimately show ?thesis using ok(1) unfolding s'_def [symmetric] by (simp add: ipc_inv_def sel)
qed

lemma cleanup_ok:
  assumes inv: "ipc_inv c" and t: "pc c t = Idle"
  shows "ipc_inv (c\<lparr>st := ipc_thread_cleanup (st c) (Some t)\<rparr>)"
proof -
  have i: "ipc_inv (c\<lparr>st := cleanup_caller (st c) t\<rparr>)"
  proof (cases "ipc_caller (thr (st c) t)")
    case None
    then show ?thesis using inv by (simp add: cleanup_caller_def)
  next
    case (Some u)
    then have "t \<noteq> u" using not_own_caller [of c t u] inv t by (simp add: ipc_inv_def)
    then show ?thesis using release_ok [OF inv Some] cleanup_caller_releases [OF Some] by simp
  qed
  show ?thesis using cleanup_rest_ok [OF i, of t] t by (simp add: ipc_thread_cleanup_def)
qed

subsection \<open>The invariant of every run\<close>

theorem step_inv: "ipc_step c c' \<Longrightarrow> ipc_inv c \<Longrightarrow> ipc_inv c'"
proof (induction rule: ipc_step.induct)
  case Create then show ?case by (blast intro: create_ok)
next
  case (Create_wke c a owner eid flags s' r)
  then show ?case using create_wke_ok [of c a owner eid flags] by auto
next
  case (Get c t eid s' e)
  then show ?case using get_ok [of c t eid] by auto
next
  case (Put c t e s')
  then show ?case using put_ok [of c t e] by auto
next
  case (Destroy c t e s')
  then obtain ep where "eps (st c) e = Some ep" "s' = (if ep_dead ep then st c else destroyed (st c) e ep)"
    using destroy_ok [of c t e] by auto
  then show ?case using destroyed_ok [of c t e ep] Destroy by simp
next
  case (Exit_process c p s')
  then show ?case using exit_process_ok [of c p] by auto
next
  case (Message c t m)
  then show ?case by (simp add: ipc_inv_def ipc_parts queued_wait_def queued_def)
next
  case Send then show ?case by (blast intro: send_ok)
next
  case (Send_resume c t w e s' i)
  then show ?case using resume_eq [of c t w e] resume_ok [of c t w] by auto
next
  case Recv then show ?case by (blast intro: recv_ok)
next
  case (Recv_resume c t w e s' i)
  then show ?case using resume_eq [of c t w e] resume_ok [of c t w] by auto
next
  case Call_sleep then show ?case by (blast intro: call_sleep_ok)
next
  case Call_ret then show ?case by (blast intro: call_ret_ok)
next
  case (Call_resume c t w e s1 i s' p)
  then obtain x where "waits (st c) w = Some x" "s1 = resumed (st c) t w" "i = w_result x"
    using resume_eq [of c t w e] by auto
  then show ?case using call_resume_ok [of c t w x s' p] Call_resume by simp
next
  case Call_turn then show ?case by (blast intro: call_turn_ok)
next
  case Reply then show ?case by (blast intro: reply_ok)
next
  case Reply_recv then show ?case by (blast intro: reply_recv_ok)
next
  case Exit_thread then show ?case by (blast intro: cleanup_ok)
qed

lemma run_inv: "ipc_step\<^sup>*\<^sup>* c c' \<Longrightarrow> ipc_inv c \<Longrightarrow> ipc_inv c'"
  by (induction rule: rtranclp_induct) (auto intro: step_inv)

text \<open>The subsystem at boot: no endpoints, no waiters, no calls.\<close>

definition ipc_start :: "sched_state \<Rightarrow> (nat \<Rightarrow> ipc_message) \<Rightarrow> (nat \<Rightarrow> u8 list option) \<Rightarrow> ipc_sys" where
  "ipc_start sc ms wd = \<lparr>st = \<lparr>sched = sc, eps = (\<lambda>_. None), endpoint_list = [], owned_endpoints = (\<lambda>_. []),
     next_endpoint_id = EP_WKE_MAX + 1, waits = (\<lambda>_. None), msgs = ms, windows = wd, ipc_total_messages = 0, ipc_fast_path_count = 0\<rparr>,
     pc = (\<lambda>_. Idle), ref = (\<lambda>_. None)\<rparr>"

definition no_calls :: "sched_state \<Rightarrow> bool" where
  "no_calls sc \<longleftrightarrow> (\<forall>t. ipc_caller (threads sc t) = None \<and> ipc_reply_pending (threads sc t) = 0)"

lemma start_inv: "no_calls sc \<Longrightarrow> ipc_inv (ipc_start sc ms wd)"
  by (simp add: ipc_inv_def ipc_parts heap_ok_def ipc_start_def no_calls_def queued_def)

subsection \<open>What every run guarantees\<close>

text \<open>A short run: an endpoint is created, two threads look it up, and one waits to receive.\<close>

definition ex_msg :: ipc_message where
  "ex_msg = \<lparr>m_tag = 0, m_regs = replicate 8 0, m_buffer = None, m_nr_caps = 0\<rparr>"

definition ex_c0 :: ipc_sys where "ex_c0 = ipc_start ex_boot (\<lambda>_. ex_msg) (\<lambda>_. None)"

definition ex_c1 :: ipc_sys where
  "ex_c1 = ex_c0\<lparr>st := fst (the (endpoint_create (st ex_c0) (Some 3) 0 (Some 7)))\<rparr>"

definition ex_c2 :: ipc_sys where
  "ex_c2 = ex_c1\<lparr>st := fst (the (endpoint_get (st ex_c1) 16)), ref := (ref ex_c1)(1 := Some 7)\<rparr>"

definition ex_c3 :: ipc_sys where
  "ex_c3 = ex_c2\<lparr>st := fst (the (endpoint_get (st ex_c2) 16)), ref := (ref ex_c2)(2 := Some 7)\<rparr>"

definition ex_c4 :: ipc_sys where
  "ex_c4 = ex_c3\<lparr>st := fst (the (ipc_recv (st ex_c3) 1 (Some 7) (Some 1) (Some 5))), pc := (pc ex_c3)(1 := Receiving 5)\<rparr>"

lemma some_fst: "map_option snd x = Some r \<Longrightarrow> x = Some (fst (the x), r)"
  by (cases x) auto

lemma ex_no_calls: "no_calls ex_boot"
  by (simp add: no_calls_def ex_boot_def sched_init_def ex_raw_def ex_thread_def create_idle_thread_def Let_def)

lemma ex_run3: "ipc_step\<^sup>*\<^sup>* ex_c0 ex_c3"
proof -
  have "ipc_step ex_c0 ex_c1" unfolding ex_c1_def
    by (rule Create [of ex_c0 "Some 7" "Some 3" 0 _ "Some 7"]) (simp add: fresh_def ex_c0_def ipc_start_def, rule some_fst, code_simp)
  moreover have "ipc_step ex_c1 ex_c2" unfolding ex_c2_def
    by (rule Get [of ex_c1 1 16]) (code_simp, code_simp, rule some_fst, code_simp)
  moreover have "ipc_step ex_c2 ex_c3" unfolding ex_c3_def
    by (rule Get [of ex_c2 2 16]) (code_simp, code_simp, rule some_fst, code_simp)
  ultimately show ?thesis by (meson converse_rtranclp_into_rtranclp rtranclp.rtrancl_refl)
qed

lemma ex_run: "ipc_step\<^sup>*\<^sup>* (ipc_start ex_boot (\<lambda>_. ex_msg) (\<lambda>_. None)) ex_c4"
proof -
  have "ipc_recv (st ex_c3) 1 (Some 7) (Some 1) (Some 5) = Some (fst (the (ipc_recv (st ex_c3) 1 (Some 7) (Some 1) (Some 5))), Sleep 5)"
    by (rule some_fst, code_simp)
  then have "ipc_step ex_c3 (ex_c3\<lparr>st := fst (the (ipc_recv (st ex_c3) 1 (Some 7) (Some 1) (Some 5))),
      pc := (pc ex_c3)(1 := (case Sleep 5 of Ret i \<Rightarrow> Idle | Sleep w \<Rightarrow> Receiving w))\<rparr>)"
    by (rule Recv [rotated 3]) (code_simp, code_simp, simp add: fresh_def, code_simp)
  then have "ipc_step ex_c3 ex_c4" unfolding ex_c4_def by simp
  then show ?thesis using ex_run3 unfolding ex_c0_def by (rule rtranclp.rtrancl_into_rtrancl [rotated])
qed

lemma ex_c4_state: "\<exists>ep. eps (st ex_c4) 7 = Some ep \<and> recv_queue ep = [5] \<and> endpoint_list (st ex_c4) = [7]"
proof -
  have "map_option recv_queue (eps (st ex_c4) 7) = Some [5]" "endpoint_list (st ex_c4) = [7]" by code_simp+
  then show ?thesis by auto
qed

lemma ex_c4_ref: "ref ex_c4 t = (if t = 1 \<or> t = 2 then Some 7 else None)"
  by (simp add: ex_c4_def ex_c3_def ex_c2_def ex_c1_def ex_c0_def ipc_start_def)

lemma ex_c4_pc: "pc ex_c4 t = (if t = 1 then Receiving 5 else Idle)"
  by (simp add: ex_c4_def ex_c3_def ex_c2_def ex_c1_def ex_c0_def ipc_start_def)

lemma ex_c4_asleep: "t_state (thr (st ex_c4) 1) = TASK_INTERRUPTIBLE"
  by code_simp

text \<open>
  C2: From boot on, whatever the interleaving of the operations of any number of threads: an endpoint never
  has senders and receivers queued at once, and none once it is dead; the reference count of every endpoint
  is exactly the number of threads that hold it, plus one while it is in the global list; an endpoint that a
  thread holds is allocated; every wait object belongs to exactly one thread (none is leaked) and is
  allocated while its thread waits; a thread that waits is runnable as soon as its wait object has left its
  queue; and a server's caller is a thread that waits for the reply of that server.
\<close>

theorem ipc_run_safe:
  assumes "no_calls sc" "ipc_step\<^sup>*\<^sup>* (ipc_start sc ms wd) c"
  shows "(\<forall>e ep. eps (st c) e = Some ep \<longrightarrow> (send_queue ep = [] \<or> recv_queue ep = []) \<and>
        (ep_dead ep \<longrightarrow> send_queue ep = [] \<and> recv_queue ep = []) \<and>
        refcount ep = of_bool (e \<in> set (endpoint_list (st c))) + int (card {t. ref c t = Some e})) \<and>
     (\<forall>t e. ref c t = Some e \<longrightarrow> eps (st c) e \<noteq> None) \<and>
     (\<forall>w. waits (st c) w \<noteq> None \<longleftrightarrow> (\<exists>!t. waiting (pc c t) = Some w)) \<and>
     (\<forall>t w. waiting (pc c t) = Some w \<longrightarrow> queued (st c) w \<or> t_state (thr (st c) t) = TASK_RUNNING) \<and>
     (\<forall>t u. ipc_caller (thr (st c) t) = Some u \<longrightarrow>
        ipc_reply_pending (thr (st c) u) \<noteq> 0 \<and> ipc_reply_server (thr (st c) u) = Some t)"
proof -
  have ok: "endpoints_ok c" "queues_ok c" "waits_ok c" "calls_ok c"
    using run_inv [OF assms(2) start_inv [OF assms(1)]] by (simp_all add: ipc_inv_def)
  note H = heap_okD [OF ok(1)] and Q = queues_okD [OF ok(2)] and W = waits_okD [OF ok(3)]
  have "(send_queue ep = [] \<or> recv_queue ep = []) \<and> (ep_dead ep \<longrightarrow> send_queue ep = [] \<and> recv_queue ep = []) \<and>
      refcount ep = of_bool (e \<in> set (endpoint_list (st c))) + int (card {t. ref c t = Some e})" if "eps (st c) e = Some ep" for e ep
    using Q(3-5) [OF that] H(3) [of e] H(4) [OF that] that by simp
  moreover have "waits (st c) w \<noteq> None \<longleftrightarrow> (\<exists>!t. waiting (pc c t) = Some w)" for w
    using W(1) [of _ w] W(3) [of _ w] W(4) [of w] by (cases "waits (st c) w") auto
  moreover have "eps (st c) e \<noteq> None" if "ref c t = Some e" for t e using H(6) [OF that] by simp
  ultimately show ?thesis using W(2) calls_okD(1,2) [OF ok(4)] by blast
qed

theorem ipc_run_safe_witness:
  "\<exists>ep. eps (st ex_c4) 7 = Some ep \<and> refcount ep = 3 \<and> recv_queue ep = [5] \<and> send_queue ep = [] \<and>
     waits (st ex_c4) 5 \<noteq> None \<and> queued (st ex_c4) 5"
proof -
  obtain ep where ep: "eps (st ex_c4) 7 = Some ep" "recv_queue ep = [5]" "endpoint_list (st ex_c4) = [7]" using ex_c4_state by blast
  note R = ipc_run_safe [OF ex_no_calls ex_run]
  have E: "(send_queue ep = [] \<or> recv_queue ep = []) \<and>
      refcount ep = of_bool (7 \<in> set (endpoint_list (st ex_c4))) + int (card {t. ref ex_c4 t = Some 7})"
    using conjunct1 [OF R] ep(1) by blast
  have "{t. ref ex_c4 t = Some 7} = {1, 2}" by (auto simp: ex_c4_ref split: if_splits)
  then have "refcount ep = 3" "send_queue ep = []" using E ep by simp_all
  moreover have w: "waiting (pc ex_c4 1) = Some 5" "t_state (thr (st ex_c4) 1) \<noteq> TASK_RUNNING"
    using ex_c4_asleep by (simp_all add: ex_c4_pc)
  then have "queued (st ex_c4) 5" using R by blast
  moreover have "\<exists>!t. waiting (pc ex_c4 t) = Some 5" by (auto simp: ex_c4_pc split: if_splits)
  then have "waits (st ex_c4) 5 \<noteq> None" using R by blast
  ultimately show ?thesis using ep by blast
qed

lemma send_total:
  assumes inv: "ipc_inv c" and t: "ref c t = Some e"
  shows "\<exists>s' r. ipc_send_op (st c) t (Some e) (Some m) opn a = Some (s', r)"
proof -
  have ok: "endpoints_ok c" "queues_ok c" using inv by (simp_all add: ipc_inv_def)
  obtain ep where e: "eps (st c) e = Some ep" using heap_okD(6) [OF ok(1) t] by auto
  have w: "\<exists>x. waits (st c) w = Some x" if "recv_queue ep = w # ws" for w ws
    using queues_okD(7) [OF ok(2) e, of w] that by (auto simp: queued_wait_def)
  show ?thesis
  proof (cases "recv_queue ep")
    case (Cons w ws)
    then obtain x where x: "waits (st c) w = Some x" using w by blast
    obtain s1 err where sl: "slice_transfer (st c) t (w_partner x) (msgs (st c) m) = (s1, err)" by (rule prod.exhaust)
    obtain wd where s1: "s1 = (st c)\<lparr>windows := wd\<rparr>" by (rule that [OF slice_frame(1) [OF sl]])
    show ?thesis using e x sl Cons unfolding s1 by (simp add: ipc_send_op_def peek_waiter_def upd_ep_def Let_def)
  qed (use e in \<open>simp add: ipc_send_op_def peek_waiter_def upd_ep_def split: option.split\<close>)
qed

lemma recv_total:
  assumes inv: "ipc_inv c" and t: "ref c t = Some e"
  shows "\<exists>s' r. ipc_recv (st c) t (Some e) (Some m) a = Some (s', r)"
proof -
  have ok: "endpoints_ok c" "queues_ok c" using inv by (simp_all add: ipc_inv_def)
  obtain ep where e: "eps (st c) e = Some ep" using heap_okD(6) [OF ok(1) t] by auto
  have w: "\<exists>x. waits (st c) w = Some x" if "send_queue ep = w # ws" for w ws
    using queues_okD(6) [OF ok(2) e, of w] that by (auto simp: queued_wait_def)
  show ?thesis
  proof (cases "send_queue ep")
    case (Cons w ws)
    then obtain x where x: "waits (st c) w = Some x" using w by blast
    obtain s1 err where sl: "slice_transfer (st c) (w_partner x) t (msgs (st c) (w_msg x)) = (s1, err)" by (rule prod.exhaust)
    obtain wd where s1: "s1 = (st c)\<lparr>windows := wd\<rparr>" by (rule that [OF slice_frame(1) [OF sl]])
    show ?thesis using e x sl Cons unfolding s1 by (simp add: ipc_recv_def peek_waiter_def upd_ep_def Let_def)
  qed (use e in \<open>simp add: ipc_recv_def peek_waiter_def upd_ep_def split: option.split\<close>)
qed

text \<open>
  C5: In every state reached from boot by threads that act through held references, no operation faults, that is, reads or
  writes an object that has been freed. This covers the creation of endpoints of both kinds at any free address, looking
  up an endpoint, the exit of any process (whose loop ends with no endpoint left), and, for a thread that holds a reference to the
  endpoint, dropping that reference, destroying the endpoint, sending, the sending half of a call, receiving, replying and receiving, and the return
  from a sleep. A thread that holds no reference is not covered: see \<open>wke_test_use_after_free\<close>.
\<close>

theorem ipc_no_fault:
  assumes "no_calls sc" "ipc_step\<^sup>*\<^sup>* (ipc_start sc ms wd) c"
  shows "endpoint_get (st c) eid \<noteq> None \<and>
    (fresh (eps (st c)) ae \<longrightarrow> endpoint_create (st c) owner flags ae \<noteq> None \<and>
       endpoint_create_well_known (st c) owner eid flags ae \<noteq> None) \<and>
    (\<exists>s'. ipc_destroy_owned_by_process (st c) p = Some s' \<and> owned_endpoints s' p = []) \<and>
    (pc c t = Idle \<and> ref c t = Some e \<longrightarrow> endpoint_put (st c) e \<noteq> None \<and> endpoint_destroy (st c) e \<noteq> None \<and>
       ipc_send (st c) t (Some e) (Some t) a \<noteq> None \<and> ipc_send_op (st c) t (Some e) (Some t) IPC_OP_CALL a \<noteq> None \<and>
       ipc_recv (st c) t (Some e) (Some t) a \<noteq> None \<and> ipc_reply_recv (st c) t (Some e) (Some t) a \<noteq> None) \<and>
    (waiting (pc c t) = Some w \<and> ref c t = Some e \<and> t_state (thr (st c) t) = TASK_RUNNING \<longrightarrow>
       ipc_send_resume (st c) t e w \<noteq> None \<and> ipc_recv_resume (st c) t e w \<noteq> None)"
proof -
  have inv: "ipc_inv c" by (rule run_inv [OF assms(2) start_inv [OF assms(1)]])
  have ok: "endpoints_ok c" using inv by (simp add: ipc_inv_def)
  have "find_endpoint (st c) eid (endpoint_list (st c)) \<noteq> None \<and> endpoint_get (st c) eid \<noteq> None"
  proof (rule find_endpoint_ok [of "endpoint_list (st c)" "st c" eid])
    show "\<exists>ep. eps (st c) x = Some ep" if "x \<in> set (endpoint_list (st c))" for x using heap_okD(3) [OF ok, of x] that by auto
  qed (auto simp: endpoint_get_def upd_ep_def)
  moreover have "endpoint_create (st c) owner flags ae \<noteq> None" by (simp add: create_eq split: prod.split)
  moreover have "endpoint_create_well_known (st c) owner eid flags ae \<noteq> None" if "fresh (eps (st c)) ae"
    using create_wke_ok [OF inv that, of owner eid flags] by auto
  moreover have "\<exists>s'. ipc_destroy_owned_by_process (st c) p = Some s' \<and> owned_endpoints s' p = []"
    using exit_process_ok [OF inv, of p] by auto
  moreover have "endpoint_put (st c) e \<noteq> None" "endpoint_destroy (st c) e \<noteq> None" "ipc_send (st c) t (Some e) (Some t) a \<noteq> None"
    "ipc_send_op (st c) t (Some e) (Some t) IPC_OP_CALL a \<noteq> None"
    "ipc_recv (st c) t (Some e) (Some t) a \<noteq> None" "ipc_reply_recv (st c) t (Some e) (Some t) a \<noteq> None"
    if t: "pc c t = Idle" "ref c t = Some e"
    using put_ok [OF inv t(2)] destroy_ok [OF inv t(2)] send_total [OF inv t(2), of t _ a] recv_total [OF inv t(2), of t a]
      recv_total [OF reply_ok [OF inv t(1)], of t e t a] t by (auto simp: ipc_send_def ipc_reply_recv_def)
  moreover have "ipc_send_resume (st c) t e w \<noteq> None" "ipc_recv_resume (st c) t e w \<noteq> None"
    if "waiting (pc c t) = Some w" "ref c t = Some e" "t_state (thr (st c) t) = TASK_RUNNING"
    using resume_eq [OF inv that] by auto
  ultimately show ?thesis by blast
qed

theorem ipc_no_fault_witness:
  "ipc_send (st ex_c4) 2 (Some 7) (Some 2) None \<noteq> None \<and> ipc_send_op (st ex_c4) 2 (Some 7) (Some 2) IPC_OP_CALL None \<noteq> None \<and>
   endpoint_destroy (st ex_c4) 7 \<noteq> None \<and> endpoint_create (st ex_c4) None 0 None \<noteq> None \<and>
   (\<exists>s'. ipc_destroy_owned_by_process (st ex_c4) 3 = Some s' \<and> owned_endpoints s' 3 = [])"
  using ipc_no_fault [OF ex_no_calls ex_run, where t = 2 and e = 7 and p = 3 and a = None and ae = None and owner = None and flags = 0]
  by (simp add: ex_c4_ref ex_c4_pc fresh_def)



end
