(* ===== verification/Ipc_Delivery.thy ===== *)
theory Ipc_Delivery
  imports Ipc_Safety
begin

text \<open>
  What the IPC operations deliver: the message exchanged at a rendezvous, the bytes that cross between
  windows, the reply to a call, the fate of the waiters of a destroyed endpoint, and the fate of a caller
  whose server takes another call before it replies.
\<close>

subsection \<open>Windows\<close>

lemma slice_copy_byte:
  assumes "length src = n" "length dst = n" "o1 + k \<le> n" "i < n"
  shows "(take o1 dst @ take k (drop o1 src) @ drop (o1 + k) dst) ! i = (if o1 \<le> i \<and> i < o1 + k then src ! i else dst ! i)"
  using assms by (auto simp: nth_append min_def)

text \<open>Every window is one page.\<close>

definition windows_ok :: "ipc_state \<Rightarrow> bool" where
  "windows_ok s \<longleftrightarrow> (\<forall>p b. windows s p = Some b \<longrightarrow> length b = unat OCEAN_IPC_WINDOW_SIZE)"

lemma window_size: "unat OCEAN_IPC_WINDOW_SIZE = 4096"
  by (simp add: OCEAN_IPC_WINDOW_SIZE_def)

text \<open>
  C18: A slice copy moves exactly the announced bytes and nothing else: on success with a non-empty slice,
  both processes have a window, the slice lies inside it, the bytes of the slice in the destination window
  are those of the source, and every other byte and every other window is unchanged. With an
  empty slice or on an error (the slice leaves the window, or a window is missing) no window changes.
\<close>

theorem ipc_slice_isolation:
  assumes "windows_ok s" and "copy_ipc_slice s p q off len = (s', r)"
  shows "(r = IPC_OK \<and> len \<noteq> 0 \<longrightarrow> (\<exists>src dst dst'. windows s p = Some src \<and> windows s q = Some dst \<and>
        s' = s\<lparr>windows := (windows s)(q := Some dst')\<rparr> \<and> unat off + unat len \<le> length dst \<and> length dst' = length dst \<and>
        (\<forall>i < length dst. dst' ! i = (if unat off \<le> i \<and> i < unat off + unat len then src ! i else dst ! i)))) \<and>
     (r \<noteq> IPC_OK \<or> len = 0 \<longrightarrow> s' = s) \<and>
     (r = IPC_OK \<longleftrightarrow> len = 0 \<or> ipc_slice_valid off len \<and> windows s p \<noteq> None \<and> windows s q \<noteq> None)"
proof (cases "len \<noteq> 0 \<and> ipc_slice_valid off len \<and> windows s p \<noteq> None \<and> windows s q \<noteq> None")
  case True
  then obtain src dst where w: "windows s p = Some src" "windows s q = Some dst" by auto
  have l: "length src = unat OCEAN_IPC_WINDOW_SIZE" "length dst = unat OCEAN_IPC_WINDOW_SIZE" using assms(1) w by (auto simp: windows_ok_def)
  have v: "unat off + unat len \<le> unat OCEAN_IPC_WINDOW_SIZE" using True unfolding slice_valid_iff window_size by blast
  let ?d = "take (unat off) dst @ take (unat len) (drop (unat off) src) @ drop (unat off + unat len) dst"
  have "s' = s\<lparr>windows := (windows s)(q := Some ?d)\<rparr>" "r = IPC_OK" using assms(2) True w by (auto simp: copy_ipc_slice_def Let_def)
  moreover have "length ?d = length dst" using l v by simp
  moreover have "\<forall>i < length dst. ?d ! i = (if unat off \<le> i \<and> i < unat off + unat len then src ! i else dst ! i)"
    using slice_copy_byte [OF l v] l(2) by simp
  ultimately have "\<exists>src dst dst'. windows s p = Some src \<and> windows s q = Some dst \<and>
        s' = s\<lparr>windows := (windows s)(q := Some dst')\<rparr> \<and> unat off + unat len \<le> length dst \<and> length dst' = length dst \<and>
        (\<forall>i < length dst. dst' ! i = (if unat off \<le> i \<and> i < unat off + unat len then src ! i else dst ! i))"
    using w v l(2) by metis
  then show ?thesis using True \<open>r = IPC_OK\<close> by blast
next
  case False
  then show ?thesis using assms(2) by (auto simp: copy_ipc_slice_def ipc_err Let_def split: if_splits option.splits)
qed

definition ex_windows :: ipc_state where
  "ex_windows = (st ex_c4)\<lparr>windows := [1 \<mapsto> replicate 4096 5, 2 \<mapsto> replicate 4096 9]\<rparr>"

theorem ipc_slice_isolation_witness:
  "\<exists>b. windows (fst (copy_ipc_slice ex_windows 1 2 100 4)) 2 = Some b \<and> b ! 100 = 5 \<and> b ! 103 = 5 \<and> b ! 104 = 9 \<and> b ! 99 = 9"
proof -
  obtain s' r where c: "copy_ipc_slice ex_windows 1 2 100 4 = (s', r)" by (rule prod.exhaust)
  have ok: "windows_ok ex_windows" by (simp add: windows_ok_def ex_windows_def window_size)
  have w: "windows ex_windows 1 = Some (replicate 4096 5)" "windows ex_windows 2 = Some (replicate 4096 9)" by (simp_all add: ex_windows_def)
  note I = ipc_slice_isolation [OF ok c]
  have "ipc_slice_valid 100 4" by code_simp
  then have r: "r = IPC_OK" using I w by simp
  obtain dst' where d: "s' = ex_windows\<lparr>windows := (windows ex_windows)(2 := Some dst')\<rparr>"
    "\<forall>i < 4096. dst' ! i = (if 100 \<le> i \<and> i < 104 then replicate 4096 5 ! i else replicate 4096 9 ! i)"
    using I r w by auto
  have "b ! 100 = 5 \<and> b ! 103 = 5 \<and> b ! 104 = 9 \<and> b ! 99 = 9" if "b = dst'" for b using d(2) that by simp
  moreover have "windows (fst (copy_ipc_slice ex_windows 1 2 100 4)) 2 = Some dst'" unfolding c d(1) by simp
  ultimately show ?thesis by blast
qed

subsection \<open>Rendezvous\<close>

lemma slice_cong:
  assumes "windows s = windows s'" "\<And>x. t_process (thr s x) = t_process (thr s' x)"
    and sl: "slice_transfer s f t m = (s\<lparr>windows := wd\<rparr>, err)"
  shows "slice_transfer s' f t m = (s'\<lparr>windows := wd\<rparr>, err)"
proof -
  have "windows (fst (slice_transfer s f t m)) = windows (fst (slice_transfer s' f t m)) \<and>
      snd (slice_transfer s f t m) = snd (slice_transfer s' f t m)"
    by (simp add: slice_transfer_def maybe_copy_window_def copy_ipc_slice_def Let_def assms(1,2) split: option.split)
  moreover obtain s1 err1 where s1: "slice_transfer s' f t m = (s1, err1)" by (rule prod.exhaust)
  ultimately have "windows s1 = wd" "err1 = err" using sl by simp_all
  then show ?thesis using slice_frame(1) [OF s1] s1 by simp
qed

text \<open>The four ways in which a message operation on a live endpoint goes ahead.\<close>

lemma send_blocks:
  assumes "eps s e = Some ep" "\<not> ep_dead ep" "recv_queue ep = []" "MSG_FLAGS (m_tag (msgs s t)) AND MSG_FLAG_NONBLOCK = 0"
  shows "ipc_send_op s t (Some e) (Some t) opn (Some w) =
    Some (block_on (s\<lparr>eps := (eps s)(e := Some (ep\<lparr>send_queue := send_queue ep @ [w]\<rparr>))\<rparr>) t e t opn w, Sleep w)"
  using assms by (simp add: ipc_send_op_def peek_waiter_def upd_ep_def)

lemma recv_blocks:
  assumes "eps s e = Some ep" "\<not> ep_dead ep" "send_queue ep = []" "MSG_FLAGS (m_tag (msgs s t)) AND MSG_FLAG_NONBLOCK = 0"
  shows "ipc_recv s t (Some e) (Some t) (Some w) =
    Some (block_on (s\<lparr>eps := (eps s)(e := Some (ep\<lparr>recv_queue := recv_queue ep @ [w]\<rparr>))\<rparr>) t e t IPC_OP_RECV w, Sleep w)"
  using assms by (simp add: ipc_recv_def peek_waiter_def upd_ep_def)

lemma send_meets:
  assumes "eps s e = Some ep" "\<not> ep_dead ep" "recv_queue ep = w # ws" "waits s w = Some x"
    "slice_transfer s t (w_partner x) (msgs s t) = (s\<lparr>windows := wd\<rparr>, IPC_OK)"
  shows "ipc_send_op s t (Some e) (Some t) opn a = Some (sent s t e ep w x opn wd, Ret IPC_OK)"
  using assms by (simp add: ipc_send_op_def peek_waiter_def upd_ep_def sent_def Let_def)

lemma recv_meets:
  assumes "eps s e = Some ep" "\<not> ep_dead ep" "send_queue ep = w # ws" "waits s w = Some x"
    "slice_transfer s (w_partner x) t (msgs s (w_msg x)) = (s\<lparr>windows := wd\<rparr>, IPC_OK)"
  shows "ipc_recv s t (Some e) (Some t) a = Some (received s t e ep w x wd, Ret IPC_OK)"
  using assms by (simp add: ipc_recv_def peek_waiter_def upd_ep_def received_def Let_def)

lemma no_slice:
  "MSG_FLAGS (m_tag m) AND MSG_FLAG_SLICE = 0 \<Longrightarrow> slice_transfer s f t m = (s\<lparr>windows := windows s\<rparr>, IPC_OK)"
  by (simp add: slice_transfer_def maybe_copy_window_def split: option.split)

text \<open>The effect of an exchange, once both threads have returned.\<close>

definition exchanged :: "ipc_state \<Rightarrow> nat \<Rightarrow> nat \<Rightarrow> nat \<Rightarrow> (nat \<Rightarrow> u8 list option) \<Rightarrow> ipc_state \<Rightarrow> bool" where
  "exchanged s e t r wd s' \<longleftrightarrow> msgs s' = (msgs s)(r := copy_message (msgs s r) (msgs s t)) \<and> windows s' = wd \<and>
     waits s' = waits s \<and> ipc_total_messages s' = ipc_total_messages s + 1 \<and>
     (\<forall>x. x \<noteq> e \<longrightarrow> eps s' x = eps s x) \<and>
     (\<exists>ep ep'. eps s e = Some ep \<and> eps s' e = Some ep' \<and> send_queue ep' = [] \<and> recv_queue ep' = [] \<and>
        ep_flags ep' = ep_flags ep \<and> refcount ep' = refcount ep)"

text \<open>
  C16: It does not matter who comes first. For a live endpoint with nobody waiting, two different threads, and
  a message that may block and whose slice can be copied: if the receiver waits first, the send takes place at once and the receiver
  returns with success; if the sender waits first, the receive takes place at once and the sender
  returns with success. Either way the message of the receiver is the copy of the sender's, all other
  messages are as before, the windows are those after the slice copy, the wait
  object is freed again and both queues are empty again.
\<close>

theorem ipc_rendezvous:
  assumes e: "eps s e = Some ep" "\<not> ep_dead ep" "send_queue ep = []" "recv_queue ep = []"
    and w: "waits s w = None" and ne: "t \<noteq> r"
    and nb: "MSG_FLAGS (m_tag (msgs s t)) AND MSG_FLAG_NONBLOCK = 0" "MSG_FLAGS (m_tag (msgs s r)) AND MSG_FLAG_NONBLOCK = 0"
    and sl: "slice_transfer s t r (msgs s t) = (s\<lparr>windows := wd\<rparr>, IPC_OK)"
  shows "\<exists>s1 s2 s3 z1 z2 z3.
    ipc_recv s r (Some e) (Some r) (Some w) = Some (s1, Sleep w) \<and> ipc_send s1 t (Some e) (Some t) None = Some (s2, Ret IPC_OK) \<and>
      ipc_recv_resume s2 r e w = Some (s3, IPC_OK) \<and>
    ipc_send s t (Some e) (Some t) (Some w) = Some (z1, Sleep w) \<and> ipc_recv z1 r (Some e) (Some r) None = Some (z2, Ret IPC_OK) \<and>
      ipc_send_resume z2 t e w = Some (z3, IPC_OK) \<and>
    exchanged s e t r wd s3 \<and> exchanged s e t r wd z3"
proof -
  let ?s1 = "block_on (s\<lparr>eps := (eps s)(e := Some (ep\<lparr>recv_queue := [w]\<rparr>))\<rparr>) r e r IPC_OP_RECV w"
  let ?z1 = "block_on (s\<lparr>eps := (eps s)(e := Some (ep\<lparr>send_queue := [w]\<rparr>))\<rparr>) t e t IPC_OP_SEND w"
  have a1: "ipc_recv s r (Some e) (Some r) (Some w) = Some (?s1, Sleep w)"
    using recv_blocks [OF e(1-3) nb(2), of w] e by simp
  have b1: "ipc_send s t (Some e) (Some t) (Some w) = Some (?z1, Sleep w)"
    using send_blocks [OF e(1,2,4) nb(1), of IPC_OP_SEND w] e by (simp add: ipc_send_def)
  have sa: "slice_transfer ?s1 t r (msgs s t) = (?s1\<lparr>windows := wd\<rparr>, IPC_OK)" by (rule slice_cong [OF _ _ sl]) (simp_all add: block_on_def)
  have sb: "slice_transfer ?z1 t r (msgs s t) = (?z1\<lparr>windows := wd\<rparr>, IPC_OK)" by (rule slice_cong [OF _ _ sl]) (simp_all add: block_on_def)
  let ?xr = "\<lparr>w_endpoint = e, w_msg = r, w_partner = r, w_operation = IPC_OP_RECV, w_result = IPC_ERR_NOPARTNER\<rparr>"
  let ?xt = "\<lparr>w_endpoint = e, w_msg = t, w_partner = t, w_operation = IPC_OP_SEND, w_result = IPC_ERR_NOPARTNER\<rparr>"
  let ?s2 = "sent ?s1 t e (ep\<lparr>recv_queue := [w]\<rparr>) w ?xr IPC_OP_SEND wd" and ?z2 = "received ?z1 r e (ep\<lparr>send_queue := [w]\<rparr>) w ?xt wd"
  have a2: "ipc_send ?s1 t (Some e) (Some t) None = Some (?s2, Ret IPC_OK)"
    using e sa unfolding ipc_send_def by (intro send_meets [where ws = "[]"]) (simp_all add: block_on_def)
  have b2: "ipc_recv ?z1 r (Some e) (Some r) None = Some (?z2, Ret IPC_OK)"
    using e sb by (intro recv_meets [where ws = "[]"]) (simp_all add: block_on_def)
  let ?s3 = "?s2\<lparr>sched := thread_sleep_resume (sched ?s2) r, eps := (eps s)(e := Some (ep\<lparr>msgs_sent := msgs_sent ep + 1, recv_queue := []\<rparr>)),
    waits := (waits ?s2)(w := None)\<rparr>"
  let ?z3 = "?z2\<lparr>sched := thread_sleep_resume (sched ?z2) t, eps := (eps s)(e := Some (ep\<lparr>msgs_received := msgs_received ep + 1, send_queue := []\<rparr>)),
    waits := (waits ?z2)(w := None)\<rparr>"
  have a3: "ipc_recv_resume ?s2 r e w = Some (?s3, IPC_OK)"
    using e by (simp add: ipc_recv_resume_def upd_ep_def sent_def Let_def block_on_def ipc_op)
  have b3: "ipc_send_resume ?z2 t e w = Some (?z3, IPC_OK)"
    using e by (simp add: ipc_send_resume_def upd_ep_def received_def Let_def block_on_def ipc_op)
  have up: "((waits s)(w := x))(w := None) = waits s" "(waits s)(w := None) = waits s" for x using w by auto
  have "exchanged s e t r wd ?s3" "exchanged s e t r wd ?z3"
    using e ne by (simp_all add: exchanged_def sent_def received_def Let_def block_on_def ipc_op up)
  then show ?thesis using a1 a2 a3 b1 b2 b3 by blast
qed

definition ex_pair :: ipc_state where
  "ex_pair = (st ex_c3)\<lparr>msgs := (\<lambda>t. ex_msg\<lparr>m_regs := replicate 8 (of_nat t)\<rparr>)\<rparr>"

theorem ipc_rendezvous_witness:
  "\<exists>s1 s2 s3. ipc_recv ex_pair 1 (Some 7) (Some 1) (Some 5) = Some (s1, Sleep 5) \<and>
     ipc_send s1 2 (Some 7) (Some 2) None = Some (s2, Ret IPC_OK) \<and> ipc_recv_resume s2 1 7 5 = Some (s3, IPC_OK) \<and>
     m_regs (msgs s3 1) = replicate 8 2 \<and> waits s3 5 = None"
proof -
  have "map_option (\<lambda>ep. (ep_flags ep AND EP_FLAG_DEAD, send_queue ep, recv_queue ep)) (eps ex_pair 7) = Some (0, [], [])" by code_simp
  then obtain ep where e: "eps ex_pair 7 = Some ep" "\<not> ep_dead ep" "send_queue ep = []" "recv_queue ep = []" by auto
  have w: "waits ex_pair 5 = None" by code_simp
  have nb: "MSG_FLAGS (m_tag (msgs ex_pair 2)) AND MSG_FLAG_NONBLOCK = 0" "MSG_FLAGS (m_tag (msgs ex_pair 1)) AND MSG_FLAG_NONBLOCK = 0"
    by code_simp+
  have "MSG_FLAGS (m_tag (msgs ex_pair 2)) AND MSG_FLAG_SLICE = 0" by code_simp
  then have sl: "slice_transfer ex_pair 2 1 (msgs ex_pair 2) = (ex_pair\<lparr>windows := windows ex_pair\<rparr>, IPC_OK)" by (rule no_slice)
  have "m_regs (copy_message (msgs ex_pair 1) (msgs ex_pair 2)) = replicate 8 2" by (simp add: ex_pair_def copy_message_def)
  then show ?thesis using ipc_rendezvous [OF e w _ nb sl] w by (fastforce simp: exchanged_def)
qed

subsection \<open>Destroyed endpoints\<close>

lemma find_endpoint_live:
  "find_endpoint s eid es = Some (Some e) \<Longrightarrow> \<exists>ep. eps s e = Some ep \<and> ep_id ep = eid \<and> \<not> ep_dead ep"
proof (induction es)
  case (Cons x es)
  then show ?case by (cases "eps s x") (auto split: if_splits)
qed simp

text \<open>
  C17: In every state reached from boot, destroying a live endpoint that the caller holds wakes every thread that
  waits on it with \<^verbatim>\<open>IPC_ERR_DEAD\<close>, empties both queues, and is final: every later send or receive on it
  returns \<^verbatim>\<open>IPC_ERR_DEAD\<close> and changes nothing, no lookup by identifier finds it any more, and destroying it
  again does nothing.
\<close>

theorem endpoint_destroy_final:
  assumes "no_calls sc" "ipc_step\<^sup>*\<^sup>* (ipc_start sc ms wd) c"
    and t: "ref c t = Some e" "pc c t = Idle" and e: "eps (st c) e = Some ep" "\<not> ep_dead ep"
  shows "\<exists>s' ep'. endpoint_destroy (st c) e = Some s' \<and> eps s' e = Some ep' \<and> ep_dead ep' \<and> send_queue ep' = [] \<and> recv_queue ep' = [] \<and>
    (\<forall>w u. w \<in> set (send_queue ep @ recv_queue ep) \<and> waiting (pc c u) = Some w \<longrightarrow>
       map_option w_result (waits s' w) = Some IPC_ERR_DEAD \<and> t_state (thr s' u) = TASK_RUNNING) \<and>
    ipc_send s' u (Some e) (Some u) a = Some (s', Ret IPC_ERR_DEAD) \<and> ipc_recv s' u (Some e) (Some u) a = Some (s', Ret IPC_ERR_DEAD) \<and>
    (\<forall>s2. endpoint_get s' eid \<noteq> Some (s2, Some e)) \<and> endpoint_destroy s' e = Some s'"
proof -
  let ?s = "destroyed (st c) e ep" and ?ws = "send_queue ep @ recv_queue ep"
  have inv: "ipc_inv c" by (rule run_inv [OF assms(2) start_inv [OF assms(1)]])
  then have ok: "queues_ok c" "waits_ok c" by (simp_all add: ipc_inv_def)
  have d: "endpoint_destroy (st c) e = Some ?s" using destroy_ok [OF inv t(1)] t(2) e by auto
  have e': "eps ?s e = Some (dead_endpoint ep)" by (simp add: destroyed_def)
  have "map_option w_result (waits ?s w) = Some IPC_ERR_DEAD \<and> t_state (thr ?s u) = TASK_RUNNING"
    if w: "w \<in> set ?ws" "waiting (pc c u) = Some w" for w u
  proof -
    obtain q where q: "queued_wait c e q w" using queues_okD(6,7) [OF ok(1) e(1)] w(1) by auto
    then obtain x where "waits (st c) w = Some x" by (rule queued_waitE)
    moreover have "w_partner (the (waits (st c) w)) = u" using partner_iff [OF ok(2) q] w(2) by simp
    then have "\<exists>w \<in> set ?ws. w_partner (the (waits (st c) w)) = u" using w(1) by blast
    ultimately show ?thesis using w(1) by (simp add: destroyed_def dead_result_def waking_state)
  qed
  moreover have "endpoint_get ?s eid \<noteq> Some (s2, Some e)" for s2
  proof
    assume "endpoint_get ?s eid = Some (s2, Some e)"
    then have "find_endpoint ?s eid (endpoint_list ?s) = Some (Some e)"
      by (auto simp: endpoint_get_def bind_eq_Some_conv split: option.splits)
    then show False using find_endpoint_live [of ?s eid _ e] e' dead_endpoint_sel(1) [of ep] by auto
  qed
  moreover have "ipc_send ?s u (Some e) (Some u) a = Some (?s, Ret IPC_ERR_DEAD)" "ipc_recv ?s u (Some e) (Some u) a = Some (?s, Ret IPC_ERR_DEAD)"
    "endpoint_destroy ?s e = Some ?s"
    using e' dead_endpoint_sel(1) [of ep] by (simp_all add: ipc_send_def ipc_send_op_def ipc_recv_def endpoint_destroy_def)
  ultimately show ?thesis using d e' dead_endpoint_sel(1,3,4) [of ep]
    by (intro exI [of _ ?s] exI [of _ "dead_endpoint ep"]) blast
qed

theorem endpoint_destroy_final_witness:
  "\<exists>s'. endpoint_destroy (st ex_c4) 7 = Some s' \<and> map_option w_result (waits s' 5) = Some IPC_ERR_DEAD \<and>
     t_state (thr s' 1) = TASK_RUNNING \<and> ipc_send s' 2 (Some 7) (Some 2) None = Some (s', Ret IPC_ERR_DEAD)"
proof -
  have "map_option (\<lambda>ep. (ep_flags ep AND EP_FLAG_DEAD, recv_queue ep)) (eps (st ex_c4) 7) = Some (0, [5])" by code_simp
  then obtain ep where e: "eps (st ex_c4) 7 = Some ep" "\<not> ep_dead ep" "recv_queue ep = [5]" by auto
  have t: "ref ex_c4 2 = Some 7" "pc ex_c4 2 = Idle" "waiting (pc ex_c4 1) = Some 5" by (simp_all add: ex_c4_ref ex_c4_pc)
  have "5 \<in> set (send_queue ep @ recv_queue ep)" using e(3) by simp
  then show ?thesis using endpoint_destroy_final [OF ex_no_calls ex_run t(1,2) e(1,2), where u = 2 and a = None and eid = 0] t(3) by blast
qed

subsection \<open>Replies\<close>

text \<open>
  C19: A reply reaches the caller it is meant for. When a server with a caller replies with a message whose slice
  can be copied, the reply succeeds and the caller becomes runnable; the caller's turn in \<^verbatim>\<open>ipc_call\<close> then sees the reply and the
  call returns success with exactly the tag and registers of the server's message, no other message changes, and
  the server has no caller left, so that a second reply returns \<^verbatim>\<open>IPC_ERR_INVALID\<close>. When the slice cannot be
  copied, the call returns that error and the caller's message is unchanged.
\<close>

theorem ipc_call_reply:
  assumes c: "ipc_caller (thr s t) = Some u" "t \<noteq> u"
    and sl: "slice_transfer s t u (msgs s m) = (s\<lparr>windows := wd\<rparr>, err)"
  shows "\<exists>s1 s2 s3. ipc_reply s t (Some m) = (s1, IPC_OK) \<and> t_state (thr s1 u) = TASK_RUNNING \<and>
    ipc_call_wait s1 u = (s2, True) \<and> ipc_call_finish s2 u k = (s3, err) \<and>
    msgs s3 = (if err = IPC_OK then (msgs s)(k := (msgs s k)\<lparr>m_tag := m_tag (msgs s m), m_regs := m_regs (msgs s m)\<rparr>) else msgs s) \<and>
    ipc_caller (thr s3 t) = None \<and> ipc_reply_pending (thr s3 u) = 0 \<and> snd (ipc_reply s3 t (Some m)) = IPC_ERR_INVALID"
proof -
  let ?s = "s\<lparr>sched := upd_thread (sched s) t (\<lambda>th. th\<lparr>ipc_caller := None\<rparr>)\<rparr>"
  have sl': "slice_transfer ?s t u (msgs s m) = (?s\<lparr>windows := wd\<rparr>, err)"
    by (rule slice_cong [OF _ _ sl]) (simp_all add: upd_thread_def)
  define s1 where "s1 = fst (ipc_reply s t (Some m))"
  have r: "ipc_reply s t (Some m) = (s1, IPC_OK)" using c sl' by (simp add: s1_def ipc_reply_def Let_def)
  have f: "t_state (thr s1 u) = TASK_RUNNING" "ipc_reply_pending (thr s1 u) = 0" "ipc_reply_result (thr s1 u) = err"
    "ipc_caller (thr s1 t) = None" "msgs s1 = msgs s"
    "err = IPC_OK \<Longrightarrow> ipc_reply_tag (thr s1 u) = m_tag (msgs s m) \<and> ipc_reply_regs (thr s1 u) = m_regs (msgs s m)"
    using c sl' by (auto simp: s1_def ipc_reply_def Let_def upd_thread_def)
  define s2 where "s2 = fst (ipc_call_wait s1 u)"
  have w: "ipc_call_wait s1 u = (s2, True)" using f(2) by (simp add: s2_def ipc_call_wait_def)
  have g: "thr s2 x = (if x = u then (thr s1 u)\<lparr>t_state := TASK_RUNNING, wait_channel := None\<rparr> else thr s1 x)" "msgs s2 = msgs s" for x
    using f(2,5) by (simp_all add: s2_def ipc_call_wait_def upd_thread_def)
  show ?thesis using r f w g c(2) by (simp add: ipc_call_finish_def Let_def upd_thread_def ipc_reply_def)
qed

definition ex_called :: ipc_state where
  "ex_called = link_call ex_pair 2 1"

theorem ipc_call_reply_witness:
  "\<exists>s1 s2 s3. ipc_reply ex_called 1 (Some 1) = (s1, IPC_OK) \<and> ipc_call_wait s1 2 = (s2, True) \<and>
     ipc_call_finish s2 2 2 = (s3, IPC_OK) \<and> m_regs (msgs s3 2) = replicate 8 1"
proof -
  have c: "ipc_caller (thr ex_called 1) = Some 2" "(1::nat) \<noteq> 2" by (simp_all add: ex_called_def)
  have "MSG_FLAGS (m_tag (msgs ex_called 1)) AND MSG_FLAG_SLICE = 0" by code_simp
  then have sl: "slice_transfer ex_called 1 2 (msgs ex_called 1) = (ex_called\<lparr>windows := windows ex_called\<rparr>, IPC_OK)"
    by (rule no_slice)
  have "m_regs (msgs ex_called 1) = replicate 8 1" by (simp add: ex_called_def ex_pair_def)
  then show ?thesis using ipc_call_reply [OF c sl, where k = 2] by fastforce
qed

subsection \<open>A second call before the reply\<close>

text \<open>A thread that waits for a reply, while no thread has it as its caller.\<close>

definition orphan :: "ipc_sys \<Rightarrow> nat \<Rightarrow> bool" where
  "orphan c u \<longleftrightarrow> pc c u = Replying \<and> ipc_reply_pending (thr (st c) u) \<noteq> 0 \<and> (\<forall>t. ipc_caller (thr (st c) t) \<noteq> Some u)"

lemma orphan_frame:
  assumes "orphan c u" "p' u = pc c u" "ipc_reply_pending (thr s' u) = ipc_reply_pending (thr (st c) u)"
    "\<And>t. ipc_caller (thr s' t) = ipc_caller (thr (st c) t) \<or> ipc_caller (thr s' t) = None \<or> (\<exists>v. v \<noteq> u \<and> ipc_caller (thr s' t) = Some v)"
  shows "orphan (c\<lparr>st := s', pc := p', ref := r'\<rparr>) u"
  using assms unfolding orphan_def by (simp, metis option.distinct(1) option.inject)

lemma orphan_view:
  assumes "orphan c u" "p' u = pc c u" "\<And>x. ipc_view (thr s' x) = ipc_view (thr (st c) x)"
  shows "orphan (c\<lparr>st := s', pc := p', ref := r'\<rparr>) u"
  using assms(1,2) view_fields [OF assms(3)] by (intro orphan_frame) simp_all

lemma orphan_ne: "orphan c u \<Longrightarrow> pc c t \<noteq> Replying \<Longrightarrow> t \<noteq> u"
  by (auto simp: orphan_def)

lemma orphan_recv:
  assumes o: "orphan c u" and inv: "ipc_inv c" and t: "pc c t = Idle" "ref c t = Some e"
    and s: "ipc_recv (st c) t (Some e) (Some t) a = Some (s', r)" and p: "p' u = pc c u"
  shows "orphan (c\<lparr>st := s', pc := p', ref := ref c\<rparr>) u"
proof -
  have ok: "endpoints_ok c" "queues_ok c" using inv by (simp_all add: ipc_inv_def)
  obtain ep where e: "eps (st c) e = Some ep" using heap_okD(6) [OF ok(1) t(2)] by auto
  from s e show ?thesis
  proof (cases rule: recv_cases)
    case (received w ws x wd)
    have "queued_wait c e True w" using queues_okD(6) [OF ok(2) e] received(2) by simp
    then have "w_partner x \<noteq> u" using received(3) orphan_ne [OF o, of "w_partner x"] by (auto simp: queued_wait_def)
    then show ?thesis
      using view_fields [OF received_sel(6)] o p unfolding received(4) by (intro orphan_frame) (auto split: if_splits)
  next
    case (refused w ws x i)
    then show ?thesis using o p by (intro orphan_view) (simp_all add: refused_sel)
  qed (rule orphan_view [of c u p', OF o p], simp add: block_on_def)+
qed

lemma orphan_send:
  assumes o: "orphan c u" and inv: "ipc_inv c" and t: "pc c t = Idle" "ref c t = Some e"
    and s: "ipc_send_op (st c) t (Some e) (Some t) opn a = Some (s', r)" and p: "p' u = pc c u"
  shows "orphan (c\<lparr>st := s', pc := p', ref := ref c\<rparr>) u"
proof -
  obtain ep where e: "eps (st c) e = Some ep" using inv heap_okD(6) t(2) unfolding ipc_inv_def by blast
  from s e show ?thesis
  proof (cases rule: send_cases)
    case (sent w ws x wd)
    have "t \<noteq> u" using orphan_ne [OF o, of t] t by simp
    then show ?thesis
      using view_fields [OF sent_sel(6)] o p unfolding sent(4) by (intro orphan_frame) (auto split: if_splits)
  qed (rule orphan_view [of c u p', OF o p], simp add: block_on_def)+
qed

lemma orphan_turn:
  assumes o: "orphan (c\<lparr>st := s1, pc := pc c, ref := ref c\<rparr>) u" and t: "t \<noteq> u"
    and s: "(s', p) = (if b then call_turn s1 t else (ipc_call_failed s1 t, Idle))"
  shows "orphan (c\<lparr>st := s', pc := (pc c)(t := p)\<rparr>) u"
proof -
  have "ipc_caller (thr s' x) = ipc_caller (thr s1 x)" "ipc_reply_pending (thr s' u) = ipc_reply_pending (thr s1 u)" for x
    using s t call_turn_sel(6,7) [of s' p s1 t] by (auto simp: call_failed_sel split: if_splits)
  then show ?thesis using o t by (simp add: orphan_def)
qed

lemma orphan_release:
  assumes o: "orphan c u" and r: "releases (st c) t v s'" "ipc_caller (thr (st c) t) = Some v"
  shows "orphan (c\<lparr>st := s', pc := pc c, ref := ref c\<rparr>) u"
  using releasesD [OF r(1)] r(2) o by (intro orphan_frame) (auto simp: orphan_def)

lemma orphan_reply:
  assumes o: "orphan c u" and inv: "ipc_inv c" and t: "pc c t = Idle"
  shows "orphan (c\<lparr>st := fst (ipc_reply (st c) t (Some t)), pc := pc c, ref := ref c\<rparr>) u"
proof (cases "ipc_caller (thr (st c) t)")
  case None
  then show ?thesis using o by (simp add: ipc_reply_def)
next
  case (Some v)
  then have "t \<noteq> v" using not_own_caller [of c t v] inv t by (simp add: ipc_inv_def)
  then show ?thesis using orphan_release [OF o reply_releases [OF Some] Some] by simp
qed

lemma orphan_cleanup:
  assumes o: "orphan c u" and inv: "ipc_inv c" and t: "pc c t = Idle"
  shows "orphan (c\<lparr>st := ipc_thread_cleanup (st c) (Some t), pc := pc c, ref := ref c\<rparr>) u"
proof -
  let ?s = "cleanup_caller (st c) t"
  have tu: "t \<noteq> u" using orphan_ne [OF o, of t] t by simp
  have o1: "orphan (c\<lparr>st := ?s, pc := pc c, ref := ref c\<rparr>) u"
  proof (cases "ipc_caller (thr (st c) t)")
    case (Some v)
    then have "t \<noteq> v" using not_own_caller [of c t v] inv t by (simp add: ipc_inv_def)
    then show ?thesis using orphan_release [OF o cleanup_caller_releases [OF Some] Some] by simp
  qed (use o in \<open>simp add: cleanup_caller_def\<close>)
  show ?thesis
    using orphan_frame [OF o1, of "pc c" "ipc_thread_cleanup (st c) (Some t)" "ref c"] tu
    by (auto simp: ipc_thread_cleanup_def cleanup_server_def upd_thread_def Let_def split: option.splits)
qed

lemma get_sched: "endpoint_get s eid = Some (s', r) \<Longrightarrow> sched s' = sched s"
  by (auto simp: endpoint_get_def upd_ep_def bind_eq_Some_conv split: option.splits)

lemma put_sched: "endpoint_put s e = Some s' \<Longrightarrow> sched s' = sched s"
  by (auto simp: endpoint_put_def bind_eq_Some_conv Let_def split: if_splits)

lemma orphan_step: "ipc_step c c' \<Longrightarrow> ipc_inv c \<Longrightarrow> orphan c u \<Longrightarrow> orphan c' u"
proof (induction rule: ipc_step.induct)
  case (Create c a owner flags s' r)
  then have "sched s' = sched (st c)"
    by (cases "alloc_endpoint_id (st c)") (auto simp: create_eq add_endpoint_def alloc_endpoint_id_def Let_def split: option.splits)
  then show ?case using Create by (simp add: orphan_def)
next
  case (Create_wke c a owner eid flags s' r)
  then have "sched s' = sched (st c)"
    by (auto simp: endpoint_create_well_known_def init_endpoint_def link_to_owner_def Let_def bind_eq_Some_conv split: if_splits option.splits)
  then show ?case using Create_wke by (simp add: orphan_def)
next
  case (Get c t eid s' e)
  then have "sched s' = sched (st c)" "orphan c u" using get_sched [of "st c" eid s' "Some e"] by simp_all
  then show ?case by (simp add: orphan_def)
next
  case (Put c t e s')
  then have "sched s' = sched (st c)" "orphan c u" using put_sched [of "st c" e s'] by simp_all
  then show ?case by (simp add: orphan_def)
next
  case (Destroy c t e s')
  then obtain ep where "s' = (if ep_dead ep then st c else destroyed (st c) e ep)" using destroy_ok [of c t e] by auto
  then show ?case using orphan_view [of c u "pc c" s' "ref c"] Destroy by (simp add: destroyed_def waking_view)
next
  case (Exit_process c p s')
  then show ?case using exit_process_ok [of c p] orphan_view [of c u "pc c" s' "ref c"] by auto
next
  case (Message c t m) then show ?case by (simp add: orphan_def)
next
  case (Send c t e a s' r)
  then have "t \<noteq> u" using orphan_ne [of c u t] by simp
  then show ?case using Send orphan_send [of c u t e IPC_OP_SEND a s' r "(pc c)(t := (case r of Ret i \<Rightarrow> Idle | Sleep w \<Rightarrow> Sending w))"]
    by (simp add: ipc_send_def)
next
  case (Send_resume c t w e s' i)
  then have "t \<noteq> u" using orphan_ne [of c u t] by simp
  moreover have "s' = resumed (st c) t w" using resume_eq [of c t w e] Send_resume by auto
  ultimately show ?case using Send_resume orphan_view [of c u "(pc c)(t := Idle)" s' "ref c"] by (simp add: resumed_sel)
next
  case (Recv c t e a s' r)
  then have "t \<noteq> u" using orphan_ne [of c u t] by simp
  then show ?case using Recv orphan_recv [of c u t e a s' r "(pc c)(t := (case r of Ret i \<Rightarrow> Idle | Sleep w \<Rightarrow> Receiving w))"] by simp
next
  case (Recv_resume c t w e s' i)
  then have "t \<noteq> u" using orphan_ne [of c u t] by simp
  moreover have "s' = resumed (st c) t w" using resume_eq [of c t w e] Recv_resume by auto
  ultimately show ?case using Recv_resume orphan_view [of c u "(pc c)(t := Idle)" s' "ref c"] by (simp add: resumed_sel)
next
  case (Call_sleep c t e a s' w)
  then have "t \<noteq> u" using orphan_ne [of c u t] by simp
  then show ?case using Call_sleep orphan_send [of c u t e IPC_OP_CALL a s' "Sleep w" "(pc c)(t := Calling w)"] by simp
next
  case (Call_ret c t e a s1 i s' p)
  then have "t \<noteq> u" using orphan_ne [of c u t] by simp
  then show ?case using Call_ret orphan_send [of c u t e IPC_OP_CALL a s1 "Ret i" "pc c"] by (intro orphan_turn [of c s1]) simp_all
next
  case (Call_resume c t w e s1 i s' p)
  then have "t \<noteq> u" using orphan_ne [of c u t] by simp
  moreover have "s1 = resumed (st c) t w" using resume_eq [of c t w e] Call_resume by auto
  then have "orphan (c\<lparr>st := s1, pc := pc c, ref := ref c\<rparr>) u" using Call_resume by (intro orphan_view) (simp_all add: resumed_sel)
  ultimately show ?case using Call_resume by (intro orphan_turn [of c s1]) simp_all
next
  case (Call_turn c t s' p)
  then have "t \<noteq> u" using calls_okD(4) [of c t] by (auto simp: orphan_def ipc_inv_def)
  then show ?case using Call_turn orphan_turn [of c "st c" u t s' p True] by simp
next
  case (Reply c t) then show ?case using orphan_reply [of c u t] by simp
next
  case (Reply_recv c t e a s' r)
  let ?c = "c\<lparr>st := fst (ipc_reply (st c) t (Some t))\<rparr>"
  have "t \<noteq> u" using orphan_ne [of c u t] Reply_recv by simp
  then show ?case
    using Reply_recv orphan_recv [of ?c u t e a s' r "(pc c)(t := (case r of Ret i \<Rightarrow> Idle | Sleep w \<Rightarrow> Receiving w))"]
      orphan_reply [of c u t] reply_ok [of c t] by (simp add: ipc_reply_recv_def)
next
  case (Exit_thread c t) then show ?case using orphan_cleanup [of c u t] by simp
qed

lemma orphan_run: "ipc_step\<^sup>*\<^sup>* c c' \<Longrightarrow> ipc_inv c \<Longrightarrow> orphan c u \<Longrightarrow> orphan c' u"
proof (induction rule: rtranclp_induct)
  case (step y z)
  then show ?case using orphan_step [of y z u] run_inv [of c y] by blast
qed

text \<open>A run in which \<open>t\<close> takes the call of \<open>u\<close>, and then \<open>v\<close> calls.\<close>

definition two_calls :: "ipc_sys \<Rightarrow> nat \<Rightarrow> nat \<Rightarrow> nat \<Rightarrow> nat \<Rightarrow> bool" where
  "two_calls c t u w e \<longleftrightarrow> pc c t = Idle \<and> ref c t = Some e \<and> ipc_caller (thr (st c) t) = Some u \<and> pc c u = Replying \<and>
     (\<exists>ep x. eps (st c) e = Some ep \<and> send_queue ep = [w] \<and> waits (st c) w = Some x \<and> w_operation x = IPC_OP_CALL) \<and>
     (\<exists>s'. ipc_recv (st c) t (Some e) (Some t) None = Some (s', Ret IPC_OK))"

definition plain_msgs :: "ipc_state \<Rightarrow> bool" where
  "plain_msgs s \<longleftrightarrow> (\<forall>x. MSG_FLAGS (m_tag (msgs s x)) AND MSG_FLAG_SLICE = 0 \<and> MSG_FLAGS (m_tag (msgs s x)) AND MSG_FLAG_NONBLOCK = 0)"

text \<open>One call up to the point where the server has taken it and the caller waits for the reply.\<close>

lemma call_taken:
  assumes inv: "ipc_inv c" and t: "pc c t = Idle" "ref c t = Some e" and u: "pc c u = Idle" "ref c u = Some e" "t \<noteq> u"
    and e: "eps (st c) e = Some ep" "\<not> ep_dead ep" "send_queue ep = []" "recv_queue ep = []" and w: "waits (st c) w = None"
    and m: "plain_msgs (st c)"
  obtains c' ep' where "ipc_step\<^sup>*\<^sup>* c c'" "pc c' u = Replying" "\<And>x. x \<noteq> u \<Longrightarrow> pc c' x = pc c x" "ref c' = ref c"
    "ipc_caller (thr (st c') t) = Some u" "eps (st c') e = Some ep'" "\<not> ep_dead ep'" "send_queue ep' = []" "recv_queue ep' = []"
    "waits (st c') = waits (st c)" "plain_msgs (st c')"
proof -
  let ?x = "\<lparr>w_endpoint = e, w_msg = u, w_partner = u, w_operation = IPC_OP_CALL, w_result = IPC_ERR_NOPARTNER\<rparr>"
  let ?ep1 = "ep\<lparr>send_queue := [w]\<rparr>"
  let ?s1 = "block_on ((st c)\<lparr>eps := (eps (st c))(e := Some ?ep1)\<rparr>) u e u IPC_OP_CALL w"
  let ?c1 = "c\<lparr>st := ?s1, pc := (pc c)(u := Calling w)\<rparr>"
  have m': "MSG_FLAGS (m_tag (msgs (st c) x)) AND MSG_FLAG_SLICE = 0" "MSG_FLAGS (m_tag (msgs (st c) x)) AND MSG_FLAG_NONBLOCK = 0" for x
    using m by (simp_all add: plain_msgs_def)
  have 1: "ipc_step c ?c1"
    by (rule Call_sleep [OF u(1,2), of "Some w"]) (use send_blocks [OF e(1,2,4) m'(2) [of u], of IPC_OP_CALL w] e w in \<open>simp_all add: fresh_def\<close>)
  let ?s2 = "received ?s1 t e ?ep1 w ?x (windows (st c))" and ?c2 = "c\<lparr>st := received ?s1 t e ?ep1 w ?x (windows (st c)), pc := (pc c)(u := Calling w)\<rparr>"
  have "ipc_recv ?s1 t (Some e) (Some t) None = Some (?s2, Ret IPC_OK)"
    using e no_slice [OF m'(1) [of u], of ?s1 u t] by (intro recv_meets [where ws = "[]"]) (simp_all add: block_on_def)
  then have "ipc_step ?c1 (?c1\<lparr>st := ?s2, pc := (pc ?c1)(t := Idle)\<rparr>)"
    using Recv [of ?c1 t e None ?s2 "Ret IPC_OK"] t u(3) by (simp add: fresh_def)
  moreover have "(pc ?c1)(t := Idle) = (pc c)(u := Calling w)" using t(1) u(3) by auto
  ultimately have 2: "ipc_step ?c1 ?c2" by simp
  have i2: "ipc_inv ?c2" using step_inv [OF 2 step_inv [OF 1 inv]] .
  have run2: "t_state (thr ?s2 u) = TASK_RUNNING" "waits ?s2 w = Some (?x\<lparr>w_result := IPC_OK, w_partner := t\<rparr>)" by (simp_all add: received_sel)
  let ?s3 = "resumed ?s2 u w"
  have "\<exists>x. waits (st ?c2) w = Some x \<and> ipc_send_resume (st ?c2) u e w = Some (resumed (st ?c2) u w, w_result x) \<and>
    ipc_recv_resume (st ?c2) u e w = Some (resumed (st ?c2) u w, w_result x)"
    by (rule resume_eq [OF i2]) (use u run2 in simp_all)
  then have r3: "ipc_send_resume ?s2 u e w = Some (?s3, IPC_OK)" using run2(2) by auto
  obtain s4 p where T: "(s4, p) = call_turn ?s3 u" by (metis surj_pair)
  note C = call_turn_sel [OF T] and V3 = view_fields [OF resumed_sel(5) [of ?s2 u w]]
    and V2 = view_fields [OF received_sel(6) [of ?s1 t e ?ep1 w ?x "windows (st c)"]]
  have pend: "ipc_reply_pending (thr ?s3 u) \<noteq> 0" "ipc_caller (thr ?s3 t) = Some u" by (simp_all add: V3 V2)
  have p: "p = Replying" using C(1) pend by simp
  let ?c3 = "c\<lparr>st := s4, pc := (pc c)(u := Replying)\<rparr>"
  have 3: "ipc_step ?c2 ?c3"
    using Call_resume [of ?c2 u w e ?s3 IPC_OK s4 p] u(2) run2(1) r3 T p by simp
  have msgs: "msgs s4 = (msgs (st c))(t := copy_message (msgs (st c) t) (msgs (st c) u))"
    using T pend by (simp add: call_turn_def ipc_call_wait_def resumed_def received_def Let_def block_on_def)
  show thesis
  proof (rule that [of ?c3 "ep\<lparr>send_queue := [], msgs_received := msgs_received ep + 1\<rparr>"])
    show "ipc_step\<^sup>*\<^sup>* c ?c3" using 1 2 3 by (meson converse_rtranclp_into_rtranclp rtranclp.rtrancl_refl)
    show "plain_msgs (st ?c3)" using m by (simp add: plain_msgs_def msgs copy_message_def)
    show "waits (st ?c3) = waits (st c)" using w by (simp add: C resumed_sel received_sel block_on_def fun_upd_idem)
    show "eps (st ?c3) e = Some (ep\<lparr>send_queue := [], msgs_received := msgs_received ep + 1\<rparr>)" by (simp add: C resumed_sel received_sel)
  qed (use u e C pend in simp_all)
qed

lemma two_calls_reached:
  assumes inv: "ipc_inv c" and t: "pc c t = Idle" "ref c t = Some e" and u: "pc c u = Idle" "ref c u = Some e"
    and v: "pc c v = Idle" "ref c v = Some e" and ne: "t \<noteq> u" "t \<noteq> v" "u \<noteq> v"
    and e: "eps (st c) e = Some ep" "\<not> ep_dead ep" "send_queue ep = []" "recv_queue ep = []" and w: "waits (st c) w = None"
    and m: "plain_msgs (st c)"
  shows "\<exists>c'. ipc_step\<^sup>*\<^sup>* c c' \<and> two_calls c' t u w e"
proof -
  obtain d epd where d: "ipc_step\<^sup>*\<^sup>* c d" "pc d u = Replying" "\<And>x. x \<noteq> u \<Longrightarrow> pc d x = pc c x"
    "ref d = ref c" "ipc_caller (thr (st d) t) = Some u" "eps (st d) e = Some epd" "\<not> ep_dead epd" "send_queue epd = []" "recv_queue epd = []"
    "waits (st d) = waits (st c)" "plain_msgs (st d)"
    using call_taken [OF inv t u ne(1) e w m] by blast
  let ?x = "\<lparr>w_endpoint = e, w_msg = v, w_partner = v, w_operation = IPC_OP_CALL, w_result = IPC_ERR_NOPARTNER\<rparr>"
  let ?epd = "epd\<lparr>send_queue := [w]\<rparr>"
  let ?s = "block_on ((st d)\<lparr>eps := (eps (st d))(e := Some ?epd)\<rparr>) v e v IPC_OP_CALL w"
  have m': "MSG_FLAGS (m_tag (msgs (st d) x)) AND MSG_FLAG_SLICE = 0" "MSG_FLAGS (m_tag (msgs (st d) x)) AND MSG_FLAG_NONBLOCK = 0" for x
    using d(11) by (simp_all add: plain_msgs_def)
  let ?c = "d\<lparr>st := ?s, pc := (pc d)(v := Calling w)\<rparr>"
  have "pc d v = Idle" "ref d v = Some e" using d v ne by simp_all
  then have "ipc_step d ?c"
    by (rule Call_sleep [where a = "Some w"]) (use send_blocks [OF d(6,7,9) m'(2) [of v], of IPC_OP_CALL w] d w in \<open>simp_all add: fresh_def\<close>)
  moreover have "ipc_recv ?s t (Some e) (Some t) None = Some (received ?s t e ?epd w ?x (windows (st d)), Ret IPC_OK)"
    using d no_slice [OF m'(1) [of v], of ?s v t] by (intro recv_meets [where ws = "[]"]) (simp_all add: block_on_def)
  then have "two_calls ?c t u w e" using d t ne by (simp add: two_calls_def) (simp add: block_on_def)
  ultimately show ?thesis using d(1) by (meson rtranclp.rtrancl_into_rtrancl)
qed

text \<open>
  C20: A server that takes a second call before it replies to the first strands its first caller. In any state
  reached from boot in which the thread \<open>t\<close> owes a reply to \<open>u\<close>, if \<open>t\<close> receives a message that another thread sends
  with \<^verbatim>\<open>ipc_call\<close>, then in every continuation \<open>u\<close> stays asleep in its call for ever: no reply, and
  not even the exit of the server, wakes it.
\<close>

theorem second_call_orphans:
  assumes "no_calls sc" "ipc_step\<^sup>*\<^sup>* (ipc_start sc ms wd) c"
    and t: "pc c t = Idle" "ref c t = Some e" and u: "ipc_caller (thr (st c) t) = Some u" "pc c u = Replying"
    and q: "eps (st c) e = Some ep" "send_queue ep = w # ws" "waits (st c) w = Some x" "w_operation x = IPC_OP_CALL"
    and r: "ipc_recv (st c) t (Some e) (Some t) None = Some (s', Ret IPC_OK)"
    and run: "ipc_step\<^sup>*\<^sup>* (c\<lparr>st := s'\<rparr>) c'"
  shows "pc c' u = Replying \<and> t_state (thr (st c') u) \<noteq> TASK_RUNNING \<and> (\<forall>v. ipc_caller (thr (st c') v) \<noteq> Some u)"
proof -
  have inv: "ipc_inv c" by (rule run_inv [OF assms(2) start_inv [OF assms(1)]])
  then have ok: "queues_ok c" "calls_ok c" by (simp_all add: ipc_inv_def)
  have pc: "(pc c)(t := Idle) = pc c" using t(1) by auto
  have inv': "ipc_inv (c\<lparr>st := s'\<rparr>)" using recv_ok [OF inv t _ r] pc by (simp add: fresh_def)
  have "queued_wait c e True w" using queues_okD(6) [OF ok(1) q(1)] q(2) by simp
  then have xu: "w_partner x \<noteq> u" using q(3) u(2) by (auto simp: queued_wait_def)
  have server: "v = t" if "ipc_caller (thr (st c) v) = Some u" for v
    using calls_okD(2) [OF ok(2) that] calls_okD(2) [OF ok(2) u(1)] by simp
  from r q(1) have "orphan (c\<lparr>st := s'\<rparr>) u"
  proof (cases rule: recv_cases)
    case (received w' ws' x' wd')
    then have "x' = x" using q by simp
    then have "ipc_caller (thr s' v) = (if v = t then Some (w_partner x) else ipc_caller (thr (st c) v))"
      "ipc_reply_pending (thr s' u) = ipc_reply_pending (thr (st c) u)" for v
      using view_fields(2,4) [OF received_sel(6)] xu q(4) unfolding received(4) by simp_all
    then show ?thesis using calls_okD(1) [OF ok(2) u(1)] u(2) xu server by (auto simp: orphan_def)
  qed (use q in auto)
  from orphan_run [OF run inv' this] have o: "orphan c' u" .
  have "calls_ok c'" using run_inv [OF run inv'] by (simp add: ipc_inv_def)
  then show ?thesis using o calls_okD(4) [of c' u] by (auto simp: orphan_def)
qed

definition ex_d0 :: ipc_sys where
  "ex_d0 = ex_c3\<lparr>st := fst (the (endpoint_get (st ex_c3) 16)), ref := (ref ex_c3)(3 := Some 7)\<rparr>"

lemma ex_d0_run: "ipc_step\<^sup>*\<^sup>* (ipc_start ex_boot (\<lambda>_. ex_msg) (\<lambda>_. None)) ex_d0"
proof -
  have "ipc_step ex_c3 ex_d0" unfolding ex_d0_def
    by (rule Get [of ex_c3 3 16]) (code_simp, code_simp, rule some_fst, code_simp)
  then show ?thesis using ex_run3 unfolding ex_c0_def by (rule rtranclp.rtrancl_into_rtrancl [rotated])
qed

theorem second_call_orphans_witness:
  "\<exists>(c :: ipc_sys) s'. ipc_caller (thr (st c) 1) = Some 2 \<and> ipc_recv (st c) 1 (Some 7) (Some 1) None = Some (s', Ret IPC_OK) \<and>
     t_state (thr s' 2) \<noteq> TASK_RUNNING \<and> (\<forall>v. ipc_caller (thr s' v) \<noteq> Some 2)"
proof -
  have inv: "ipc_inv ex_d0" by (rule run_inv [OF ex_d0_run start_inv [OF ex_no_calls]])
  have "map_option (\<lambda>ep. (ep_flags ep AND EP_FLAG_DEAD, send_queue ep, recv_queue ep)) (eps (st ex_d0) 7) = Some (0, [], [])" by code_simp
  then obtain ep where e: "eps (st ex_d0) 7 = Some ep" "\<not> ep_dead ep" "send_queue ep = []" "recv_queue ep = []" by auto
  have p: "pc ex_d0 t = Idle" "ref ex_d0 1 = Some 7" "ref ex_d0 2 = Some 7" "ref ex_d0 3 = Some 7" for t
    by (simp_all add: ex_d0_def ex_c3_def ex_c2_def ex_c1_def ex_c0_def ipc_start_def)
  have w: "waits (st ex_d0) 5 = None" by code_simp
  have "MSG_FLAGS (m_tag (msgs (st ex_d0) x)) AND MSG_FLAG_SLICE = 0" "MSG_FLAGS (m_tag (msgs (st ex_d0) x)) AND MSG_FLAG_NONBLOCK = 0" for x
    by code_simp+
  then have m: "plain_msgs (st ex_d0)" by (simp add: plain_msgs_def)
  from two_calls_reached [OF inv p(1,2) p(1,3) p(1,4) _ _ _ e w m] obtain c where c: "ipc_step\<^sup>*\<^sup>* ex_d0 c" "two_calls c 1 2 5 7" by auto
  then obtain ep' x s' where q: "eps (st c) 7 = Some ep'" "send_queue ep' = [5]" "waits (st c) 5 = Some x" "w_operation x = IPC_OP_CALL"
    and r: "ipc_recv (st c) 1 (Some 7) (Some 1) None = Some (s', Ret IPC_OK)"
    and t: "pc c 1 = Idle" "ref c 1 = Some 7" "ipc_caller (thr (st c) 1) = Some 2" "pc c 2 = Replying"
    unfolding two_calls_def by blast
  have "ipc_step\<^sup>*\<^sup>* (ipc_start ex_boot (\<lambda>_. ex_msg) (\<lambda>_. None)) c" using ex_d0_run c(1) by (rule rtranclp_trans)
  from second_call_orphans [OF ex_no_calls this t q r rtranclp.rtrancl_refl]
  have "t_state (thr s' 2) \<noteq> TASK_RUNNING \<and> (\<forall>v. ipc_caller (thr s' v) \<noteq> Some 2)" by simp
  then show ?thesis using t(3) r by blast
qed

end
