(* ===== verification/Paging.thy ===== *)
theory Paging
  imports Pmm
begin

text \<open>
  Four-level page tables, \<^verbatim>\<open>kernel/arch/x86_64/mm/paging.c\<close>, on top of the physical memory manager: the
  tables are pages that it hands out, and their entries are words of its physical memory, read and written
  through the direct map. A null pointer is the address 0; the result \<open>None\<close> is a fault inside the
  allocator. The translation look-aside buffer is not modelled.
\<close>

subsection \<open>Words in memory\<close>

text \<open>Little-endian 64-bit loads and stores.\<close>

definition get_u64 :: "(nat \<Rightarrow> u8) \<Rightarrow> nat \<Rightarrow> u64" where
  "get_u64 m a = foldr (\<lambda>i w. push_bit (8 * i) (ucast (m (a + i))) OR w) [0..<8] 0"

definition put_u64 :: "(nat \<Rightarrow> u8) \<Rightarrow> nat \<Rightarrow> u64 \<Rightarrow> nat \<Rightarrow> u8" where
  "put_u64 m a w = (\<lambda>x. if a \<le> x \<and> x < a + 8 then ucast (drop_bit (8 * (x - a)) w) else m x)"

definition load64 :: "pmm_state \<Rightarrow> u64 \<Rightarrow> u64" where
  "load64 s va = get_u64 (phys_mem s) (unat (virt_to_phys s va))"

definition store64 :: "pmm_state \<Rightarrow> u64 \<Rightarrow> u64 \<Rightarrow> pmm_state" where
  "store64 s va w = s\<lparr>phys_mem := put_u64 (phys_mem s) (unat (virt_to_phys s va)) w\<rparr>"

subsection \<open>Entries\<close>

definition PTE_PRESENT :: u64 where "PTE_PRESENT = 1"
definition PTE_WRITABLE :: u64 where "PTE_WRITABLE = 2"
definition PTE_USER :: u64 where "PTE_USER = 4"
definition PTE_HUGE :: u64 where "PTE_HUGE = 128"
definition PTE_NX :: u64 where "PTE_NX = push_bit 63 1"
definition PTE_ADDR_MASK :: u64 where "PTE_ADDR_MASK = 0x000FFFFFFFFFF000"

definition PML4_INDEX :: "u64 \<Rightarrow> u64" where "PML4_INDEX addr = drop_bit 39 addr AND 0x1FF"
definition PDPT_INDEX :: "u64 \<Rightarrow> u64" where "PDPT_INDEX addr = drop_bit 30 addr AND 0x1FF"
definition PD_INDEX :: "u64 \<Rightarrow> u64" where "PD_INDEX addr = drop_bit 21 addr AND 0x1FF"
definition PT_INDEX :: "u64 \<Rightarrow> u64" where "PT_INDEX addr = drop_bit 12 addr AND 0x1FF"

definition PT_ENTRIES :: nat where "PT_ENTRIES = 512"

definition alloc_pt_page :: "pmm_state \<Rightarrow> (pmm_state \<times> u64) option" where
  "alloc_pt_page s = do {
     (s1, page) \<leftarrow> simple_get_free_page s;
     if page \<noteq> 0
     then Some (s1\<lparr>phys_mem := (\<lambda>a. if unat (virt_to_phys s1 page) \<le> a \<and> a < unat (virt_to_phys s1 page) + 4096 then 0 else phys_mem s1 a)\<rparr>, page)
     else Some (s1, page)
   }"

definition free_pt_page :: "pmm_state \<Rightarrow> u64 \<Rightarrow> pmm_state option" where
  "free_pt_page s page = simple_free_page s page"

text \<open>
  One level of the walk: the table that the entry at \<open>entry\<close> points to, created if it is missing and
  \<open>create\<close> is set. The tables below the top level refuse huge pages (\<open>huge\<close>).
\<close>

definition next_table :: "pmm_state \<Rightarrow> u64 \<Rightarrow> bool \<Rightarrow> bool \<Rightarrow> (pmm_state \<times> u64) option" where
  "next_table s entry create huge =
     (if load64 s entry AND PTE_PRESENT = 0
      then if \<not> create then Some (s, 0)
           else do {
             (s1, new) \<leftarrow> alloc_pt_page s;
             if new = 0 then Some (s1, 0)
             else Some (store64 s1 entry (virt_to_phys s1 new OR PTE_PRESENT OR PTE_WRITABLE OR PTE_USER), new)
           }
      else if huge \<and> load64 s entry AND PTE_HUGE \<noteq> 0 then Some (s, 0)
      else Some (s, phys_to_virt s (load64 s entry AND PTE_ADDR_MASK)))"

definition get_or_create_pte :: "pmm_state \<Rightarrow> u64 \<Rightarrow> u64 \<Rightarrow> bool \<Rightarrow> (pmm_state \<times> u64) option" where
  "get_or_create_pte s pml4 virt create = do {
     (s1, pdpt) \<leftarrow> next_table s (pml4 + 8 * PML4_INDEX virt) create False;
     if pdpt = 0 then Some (s1, 0)
     else do {
       (s2, pd) \<leftarrow> next_table s1 (pdpt + 8 * PDPT_INDEX virt) create True;
       if pd = 0 then Some (s2, 0)
       else do {
         (s3, pt) \<leftarrow> next_table s2 (pd + 8 * PD_INDEX virt) create True;
         if pt = 0 then Some (s3, 0)
         else Some (s3, pt + 8 * PT_INDEX virt)
       }
     }
   }"

definition paging_get_pte :: "pmm_state \<Rightarrow> u64 \<Rightarrow> u64 \<Rightarrow> (pmm_state \<times> u64) option" where
  "paging_get_pte s pml4 virt = get_or_create_pte s pml4 virt False"

subsection \<open>Mappings\<close>

definition paging_map :: "pmm_state \<Rightarrow> u64 \<Rightarrow> u64 \<Rightarrow> u64 \<Rightarrow> u64 \<Rightarrow> (pmm_state \<times> int) option" where
  "paging_map s pml4 virt phys prot = do {
     (s1, pte) \<leftarrow> get_or_create_pte s pml4 virt True;
     if pte = 0 then Some (s1, -1)
     else Some (store64 s1 pte ((phys AND PTE_ADDR_MASK) OR prot OR PTE_PRESENT), 0)
   }"

definition paging_unmap :: "pmm_state \<Rightarrow> u64 \<Rightarrow> u64 \<Rightarrow> (pmm_state \<times> int) option" where
  "paging_unmap s pml4 virt = do {
     (s1, pte) \<leftarrow> paging_get_pte s pml4 virt;
     if pte = 0 \<or> load64 s1 pte AND PTE_PRESENT = 0 then Some (s1, -1)
     else Some (store64 s1 pte 0, 0)
   }"

text \<open>The loops step by whole pages and may wrap at the end of the address space, so they may run for ever.\<close>

partial_function (option) unmap_pages :: "pmm_state \<Rightarrow> u64 \<Rightarrow> u64 \<Rightarrow> u64 \<Rightarrow> pmm_state option" where
  "unmap_pages s pml4 addr end_addr =
     (if addr < end_addr
      then Option.bind (paging_unmap s pml4 addr) (\<lambda>(s1, r). unmap_pages s1 pml4 (addr + PAGE_SIZE) end_addr)
      else Some s)"

partial_function (option) map_pages :: "pmm_state \<Rightarrow> u64 \<Rightarrow> u64 \<Rightarrow> u64 \<Rightarrow> u64 \<Rightarrow> u64 \<Rightarrow> u64 \<Rightarrow> (pmm_state \<times> int) option" where
  "map_pages s pml4 virt addr phys end_addr prot =
     (if addr < end_addr
      then Option.bind (paging_map s pml4 addr phys prot) (\<lambda>(s1, r).
             if r \<noteq> 0 then Option.bind (unmap_pages s1 pml4 virt addr) (\<lambda>s2. Some (s2, -1))
             else map_pages s1 pml4 virt (addr + PAGE_SIZE) (phys + PAGE_SIZE) end_addr prot)
      else Some (s, 0))"

declare unmap_pages.simps [code] map_pages.simps [code]

definition paging_map_range :: "pmm_state \<Rightarrow> u64 \<Rightarrow> u64 \<Rightarrow> u64 \<Rightarrow> u64 \<Rightarrow> u64 \<Rightarrow> (pmm_state \<times> int) option" where
  "paging_map_range s pml4 virt phys sz prot = map_pages s pml4 virt virt phys (virt + sz) prot"

definition paging_unmap_range :: "pmm_state \<Rightarrow> u64 \<Rightarrow> u64 \<Rightarrow> u64 \<Rightarrow> (pmm_state \<times> int) option" where
  "paging_unmap_range s pml4 virt sz = do { s1 \<leftarrow> unmap_pages s pml4 virt (virt + sz); Some (s1, 0) }"

definition paging_get_phys :: "pmm_state \<Rightarrow> u64 \<Rightarrow> u64 \<Rightarrow> (pmm_state \<times> u64) option" where
  "paging_get_phys s pml4 virt = do {
     (s1, pte) \<leftarrow> paging_get_pte s pml4 virt;
     if pte = 0 \<or> load64 s1 pte AND PTE_PRESENT = 0 then Some (s1, -1)
     else Some (s1, (load64 s1 pte AND PTE_ADDR_MASK) OR (virt AND (PAGE_SIZE - 1)))
   }"

subsection \<open>Top-level tables\<close>

text \<open>The kernel's own top-level table, which \<^verbatim>\<open>paging_init\<close> finds in \<^verbatim>\<open>CR3\<close>.\<close>

record paging_state =
  pm :: pmm_state
  kernel_pml4 :: u64
  kernel_pml4_phys :: u64

definition paging_init :: "paging_state \<Rightarrow> u64 \<Rightarrow> paging_state" where
  "paging_init ps cr3 = ps\<lparr>kernel_pml4_phys := cr3 AND PTE_ADDR_MASK, kernel_pml4 := phys_to_virt (pm ps) (cr3 AND PTE_ADDR_MASK)\<rparr>"

definition copy_kernel_half :: "pmm_state \<Rightarrow> u64 \<Rightarrow> u64 \<Rightarrow> pmm_state" where
  "copy_kernel_half s pml4 kpml4 = fold (\<lambda>i s. store64 s (pml4 + 8 * of_nat i) (load64 s (kpml4 + 8 * of_nat i))) [256..<512] s"

definition paging_create_pml4 :: "paging_state \<Rightarrow> (paging_state \<times> u64) option" where
  "paging_create_pml4 ps = do {
     (s1, pml4) \<leftarrow> alloc_pt_page (pm ps);
     if pml4 = 0 then Some (ps\<lparr>pm := s1\<rparr>, 0)
     else Some (ps\<lparr>pm := if kernel_pml4 ps \<noteq> 0 then copy_kernel_half s1 pml4 (kernel_pml4 ps) else s1\<rparr>, pml4)
   }"

text \<open>The loops over the entries of a table, with the body given the table that the entry points to.\<close>

fun for_tables :: "(pmm_state \<Rightarrow> u64 \<Rightarrow> pmm_state option) \<Rightarrow> bool \<Rightarrow> u64 \<Rightarrow> nat list \<Rightarrow> pmm_state \<Rightarrow> pmm_state option" where
  "for_tables body huge table [] s = Some s"
| "for_tables body huge table (i # is) s =
     (let e = load64 s (table + 8 * of_nat i)
      in if e AND PTE_PRESENT \<noteq> 0 \<and> \<not> (huge \<and> e AND PTE_HUGE \<noteq> 0)
         then do { s1 \<leftarrow> body s (phys_to_virt s (e AND PTE_ADDR_MASK)); for_tables body huge table is s1 }
         else for_tables body huge table is s)"

definition destroy_pd :: "pmm_state \<Rightarrow> u64 \<Rightarrow> pmm_state option" where
  "destroy_pd s pd = do { s1 \<leftarrow> for_tables free_pt_page True pd [0..<PT_ENTRIES] s; free_pt_page s1 pd }"

definition destroy_pdpt :: "pmm_state \<Rightarrow> u64 \<Rightarrow> pmm_state option" where
  "destroy_pdpt s pdpt = do { s1 \<leftarrow> for_tables destroy_pd True pdpt [0..<PT_ENTRIES] s; free_pt_page s1 pdpt }"

definition paging_destroy_pml4 :: "pmm_state \<Rightarrow> u64 \<Rightarrow> pmm_state option" where
  "paging_destroy_pml4 s pml4 =
     (if pml4 = 0 then Some s
      else do { s1 \<leftarrow> for_tables destroy_pdpt False pml4 [0..<256] s; free_pt_page s1 pml4 })"

subsection \<open>Loads and stores\<close>

lemma bit_bytes:
  "bit (foldr (\<lambda>i w. push_bit (8 * i) (ucast (m (a + i) :: u8)) OR w) is (0 :: u64)) n \<longleftrightarrow>
   (\<exists>i \<in> set is. n < 64 \<and> 8 * i \<le> n \<and> bit (m (a + i)) (n - 8 * i))"
  by (induction "is") (auto simp: bit_simps)

lemma bit_get_u64: "bit (get_u64 m a) n \<longleftrightarrow> n < 64 \<and> bit (m (a + n div 8)) (n mod 8)"
proof -
  have "bit (get_u64 m a) n \<longleftrightarrow> (\<exists>i \<in> set [0..<8]. n < 64 \<and> 8 * i \<le> n \<and> bit (m (a + i)) (n - 8 * i))"
    unfolding get_u64_def bit_bytes ..
  also have "\<dots> \<longleftrightarrow> n < 64 \<and> bit (m (a + n div 8)) (n mod 8)"
  proof
    assume "\<exists>i \<in> set [0..<8]. n < 64 \<and> 8 * i \<le> n \<and> bit (m (a + i)) (n - 8 * i)"
    then obtain i where i: "n < 64" "8 * i \<le> n" "bit (m (a + i)) (n - 8 * i)" by auto
    then have "n - 8 * i < 8" using bit_imp_le_length by fastforce
    then have d: "n div 8 = i" using i(2) by (intro div_nat_eqI) simp_all
    then have "n - 8 * i = n mod 8" using minus_mult_div_eq_mod [of n 8] by simp
    with d have "i = n div 8" "n - 8 * i = n mod 8" by simp_all
    then show "n < 64 \<and> bit (m (a + n div 8)) (n mod 8)" using i by simp
  next
    assume n: "n < 64 \<and> bit (m (a + n div 8)) (n mod 8)"
    moreover have "n - 8 * (n div 8) = n mod 8" "8 * (n div 8) \<le> n" by (simp_all add: minus_mult_div_eq_mod)
    moreover have "n div 8 \<in> set [0..<8]" using n by auto
    ultimately show "\<exists>i \<in> set [0..<8]. n < 64 \<and> 8 * i \<le> n \<and> bit (m (a + i)) (n - 8 * i)" by (intro bexI [of _ "n div 8"]) simp_all
  qed
  finally show ?thesis .
qed

lemma get_put_u64: "get_u64 (put_u64 m a w) a = w"
proof (rule bit_word_eqI)
  fix n assume "n < LENGTH(64)"
  then have "n < 64" by simp
  moreover from this have "n div 8 < 8" by linarith
  ultimately show "bit (get_u64 (put_u64 m a w) a) n = bit w n" by (simp add: bit_get_u64 put_u64_def bit_simps)
qed

lemma get_put_other:
  assumes "b + 8 \<le> a \<or> a + 8 \<le> b"
  shows "get_u64 (put_u64 m a w) b = get_u64 m b"
proof (rule bit_word_eqI)
  fix n assume "n < LENGTH(64)"
  then have "n < 64" by simp
  then have "n div 8 < 8" by linarith
  then have "\<not> (a \<le> b + n div 8 \<and> b + n div 8 < a + 8)" using assms by linarith
  then show "bit (get_u64 (put_u64 m a w) b) n = bit (get_u64 m b) n" unfolding bit_get_u64 put_u64_def by (simp only: if_False)
qed

lemma get_cong:
  assumes "\<And>x. b \<le> x \<Longrightarrow> x < b + 8 \<Longrightarrow> m' x = m x"
  shows "get_u64 m' b = get_u64 m b"
  using assms by (intro bit_word_eqI) (simp add: bit_get_u64)

lemma get_zero: "(\<And>x. b \<le> x \<Longrightarrow> x < b + 8 \<Longrightarrow> m x = 0) \<Longrightarrow> get_u64 m b = 0"
  by (rule bit_word_eqI) (simp add: bit_get_u64)

subsection \<open>Tables\<close>

text \<open>Entry \<open>i\<close> of the table in frame \<open>f\<close>, its address, and the frame that an entry names.\<close>

definition entry :: "pmm_state \<Rightarrow> nat \<Rightarrow> nat \<Rightarrow> u64" where
  "entry s f i = get_u64 (phys_mem s) (f * 4096 + 8 * i)"

definition table_va :: "pmm_state \<Rightarrow> nat \<Rightarrow> u64" where
  "table_va s f = phys_to_virt s (PFN_TO_PHYS f)"

definition frame_of :: "u64 \<Rightarrow> nat" where
  "frame_of e = unat (e AND PTE_ADDR_MASK) div 4096"

definition hhdm_ok :: "pmm_state \<Rightarrow> bool" where
  "hhdm_ok s \<longleftrightarrow> 0 < unat (hhdm_offset s) \<and> unat (hhdm_offset s) + 4096 * length (page_array s) \<le> 2 ^ 64 \<and>
     length (page_array s) \<le> 2 ^ 40"

lemma mask_bits: "bit PTE_ADDR_MASK n \<longleftrightarrow> 12 \<le> n \<and> n < 52"
proof -
  have "PTE_ADDR_MASK = push_bit 12 (mask 40)" by (simp add: PTE_ADDR_MASK_def mask_eq_exp_minus_1 push_bit_eq_mult)
  then have "bit PTE_ADDR_MASK n \<longleftrightarrow> bit (push_bit 12 (mask 40 :: u64)) n" by simp
  then show ?thesis by (auto simp: bit_simps)
qed

lemma huge_bit: "bit PTE_HUGE n \<longleftrightarrow> n = 7"
proof -
  have "PTE_HUGE = push_bit 7 (mask 1)" by (simp add: PTE_HUGE_def mask_eq_exp_minus_1 push_bit_eq_mult)
  then have "bit PTE_HUGE n \<longleftrightarrow> bit (push_bit 7 (mask 1 :: u64)) n" by metis
  also have "\<dots> \<longleftrightarrow> n = 7" unfolding bit_push_bit_iff bit_mask_iff by auto
  finally show ?thesis .
qed

lemma frame_entry:
  assumes "f < 2 ^ 40"
  shows "(PFN_TO_PHYS f OR PTE_PRESENT OR PTE_WRITABLE OR PTE_USER) AND PTE_ADDR_MASK = PFN_TO_PHYS f"
    "frame_of (PFN_TO_PHYS f OR PTE_PRESENT OR PTE_WRITABLE OR PTE_USER) = f"
    "(PFN_TO_PHYS f OR PTE_PRESENT OR PTE_WRITABLE OR PTE_USER) AND PTE_PRESENT \<noteq> 0"
    "(PFN_TO_PHYS f OR PTE_PRESENT OR PTE_WRITABLE OR PTE_USER) AND PTE_HUGE = 0"
proof -
  have b: "bit (PFN_TO_PHYS f) n \<longleftrightarrow> 12 \<le> n \<and> n < 52 \<and> bit f (n - 12)" for n
  proof -
    have "bit f k \<Longrightarrow> k < 40" for k
      using assms by (metis bit_take_bit_iff take_bit_nat_eq_self)
    then have "bit f (n - 12) \<Longrightarrow> 12 \<le> n \<Longrightarrow> n < 52" by fastforce
    then show ?thesis by (auto simp: PFN_TO_PHYS_def PAGE_SHIFT_def bit_simps)
  qed
  have p: "PTE_PRESENT OR PTE_WRITABLE OR PTE_USER = mask 3" by (simp add: PTE_PRESENT_def PTE_WRITABLE_def PTE_USER_def mask_eq_exp_minus_1)
  show 1: "(PFN_TO_PHYS f OR PTE_PRESENT OR PTE_WRITABLE OR PTE_USER) AND PTE_ADDR_MASK = PFN_TO_PHYS f"
    unfolding or.assoc p by (rule bit_word_eqI) (auto simp: bit_simps mask_bits b)
  then show "frame_of (PFN_TO_PHYS f OR PTE_PRESENT OR PTE_WRITABLE OR PTE_USER) = f"
    using assms by (simp add: frame_of_def unat_PFN_TO_PHYS)
  show "(PFN_TO_PHYS f OR PTE_PRESENT OR PTE_WRITABLE OR PTE_USER) AND PTE_PRESENT \<noteq> 0"
  proof
    assume "(PFN_TO_PHYS f OR PTE_PRESENT OR PTE_WRITABLE OR PTE_USER) AND PTE_PRESENT = 0"
    then have "\<not> bit ((PFN_TO_PHYS f OR PTE_PRESENT OR PTE_WRITABLE OR PTE_USER) AND PTE_PRESENT) 0" by simp
    then show False by (simp add: bit_simps PTE_PRESENT_def)
  qed
  show "(PFN_TO_PHYS f OR PTE_PRESENT OR PTE_WRITABLE OR PTE_USER) AND PTE_HUGE = 0"
    unfolding or.assoc p by (rule bit_word_eqI) (auto simp: bit_simps b huge_bit)
qed

lemma entry_address:
  assumes ok: "hhdm_ok s" and f: "f < length (page_array s)" and i: "i < 512"
  shows "unat (virt_to_phys s (table_va s f + 8 * of_nat i)) = f * 4096 + 8 * i" "table_va s f + 8 * of_nat i \<noteq> 0"
proof -
  have l: "f < 2 ^ 40" "unat (hhdm_offset s) + 4096 * length (page_array s) \<le> 2 ^ 64" "0 < unat (hhdm_offset s)"
    using ok f by (auto simp: hhdm_ok_def)
  have p: "unat (PFN_TO_PHYS f) = f * 4096" using l(1) by (simp add: unat_PFN_TO_PHYS)
  have o: "unat (8 * of_nat i :: u64) = 8 * i" using i by (simp add: unat_mult_u64 unat_u64_of_nat)
  have a: "unat (PFN_TO_PHYS f + 8 * of_nat i) = f * 4096 + 8 * i"
    using p o l(1) i by (subst unat_add_u64) simp_all
  moreover have e: "table_va s f + 8 * of_nat i = hhdm_offset s + (PFN_TO_PHYS f + 8 * of_nat i)" by (simp add: table_va_def phys_to_virt_def)
  ultimately show "unat (virt_to_phys s (table_va s f + 8 * of_nat i)) = f * 4096 + 8 * i" by (simp add: virt_to_phys_def)
  have "f * 4096 + 8 * i < 4096 * length (page_array s)" using f i by linarith
  then have "unat (hhdm_offset s + (PFN_TO_PHYS f + 8 * of_nat i)) = unat (hhdm_offset s) + (f * 4096 + 8 * i)"
    using a l by (subst unat_add_u64) linarith+
  then show "table_va s f + 8 * of_nat i \<noteq> 0" using l(3) e by (metis add_is_0 not_less0 unat_0)
qed

lemma load_entry: "hhdm_ok s \<Longrightarrow> f < length (page_array s) \<Longrightarrow> i < 512 \<Longrightarrow> load64 s (table_va s f + 8 * of_nat i) = entry s f i"
  by (simp add: load64_def entry_def entry_address)

lemma store_entry:
  assumes "hhdm_ok s" "f < length (page_array s)" "i < 512" "j < 512"
  shows "entry (store64 s (table_va s f + 8 * of_nat i) w) g j = (if g = f \<and> j = i then w else entry s g j)"
proof -
  have "g * 4096 + 8 * j + 8 \<le> f * 4096 + 8 * i \<or> f * 4096 + 8 * i + 8 \<le> g * 4096 + 8 * j" if "\<not> (g = f \<and> j = i)"
  proof -
    have "g < f \<or> f < g \<or> g = f \<and> j < i \<or> g = f \<and> i < j" using that by auto
    then consider "g < f" | "f < g" | "g = f" "j < i" | "g = f" "i < j" by blast
    then show ?thesis using assms(3,4) by cases linarith+
  qed
  then show ?thesis
    using assms get_put_other by (auto simp: entry_def store64_def entry_address get_put_u64)
qed

lemma store_frame [simp]:
  "page_array (store64 s va w) = page_array s" "zones (store64 s va w) = zones s" "hhdm_offset (store64 s va w) = hhdm_offset s"
  "initialized (store64 s va w) = initialized s" "pavail (store64 s va w) = pavail s" "pmm_ok (store64 s va w) = pmm_ok s"
  "table_va (store64 s va w) f = table_va s f" "hhdm_ok (store64 s va w) = hhdm_ok s"
  by (simp_all add: store64_def pavail_def pmm_ok_def zones_ok_def zone_hi_def table_va_def phys_to_virt_def hhdm_ok_def)

end
