(* ===== verification/Vmm.thy ===== *)
theory Vmm
  imports Paging
begin

text \<open>
  The virtual memory manager, \<^verbatim>\<open>kernel/mm/vmm.c\<close>: address spaces with their sorted lists of areas. The slab caches
  for the structures are never created, so each structure lives in a page of its own, whose address
  (\<open>va_page\<close>, \<open>as_page\<close>) is the pointer to it; the list of areas is a list (the refinement of the pointers
  is the subject of \<open>List_Head\<close>).
\<close>

subsection \<open>Structures\<close>

definition VMA_READ :: u32 where "VMA_READ = 1"
definition VMA_WRITE :: u32 where "VMA_WRITE = 2"
definition VMA_EXEC :: u32 where "VMA_EXEC = 4"
definition VMA_STACK :: u32 where "VMA_STACK = 16"
definition VMA_ANONYMOUS :: u32 where "VMA_ANONYMOUS = 64"
definition USER_SPACE_END :: u64 where "USER_SPACE_END = 0x00007FFFFFFFFFFF"

record vm_area =
  va_page :: u64
  va_start :: u64
  va_end :: u64
  va_flags :: u32
  page_prot :: u64
  va_file :: u64
  file_offset :: u64

record address_space =
  as_page :: u64
  pml4 :: u64
  pml4_phys :: u64
  vma_list :: "vm_area list"
  vma_count :: u64
  brk :: u64
  start_brk :: u64
  start_stack :: u64
  total_vm :: u64
  shared_vm :: u64
  as_refs :: u32

definition zero_page :: "pmm_state \<Rightarrow> u64 \<Rightarrow> pmm_state" where
  "zero_page s page = (let b = unat (virt_to_phys s page)
     in s\<lparr>phys_mem := (\<lambda>a. if b \<le> a \<and> a < b + 4096 then 0 else phys_mem s a)\<rparr>)"

definition copy_page :: "pmm_state \<Rightarrow> u64 \<Rightarrow> u64 \<Rightarrow> pmm_state" where
  "copy_page s dst src = (let d = unat (virt_to_phys s dst); b = unat (virt_to_phys s src)
     in s\<lparr>phys_mem := (\<lambda>a. if d \<le> a \<and> a < d + 4096 then phys_mem s (b + (a - d)) else phys_mem s a)\<rparr>)"

definition vma_alloc :: "pmm_state \<Rightarrow> (pmm_state \<times> vm_area option) option" where
  "vma_alloc s = do {
     (s1, page) \<leftarrow> simple_get_free_page s;
     Some (s1, if page = 0 then None
               else Some \<lparr>va_page = page, va_start = 0, va_end = 0, va_flags = 0, page_prot = 0, va_file = 0, file_offset = 0\<rparr>)
   }"

definition vma_free :: "pmm_state \<Rightarrow> vm_area \<Rightarrow> pmm_state option" where
  "vma_free s vma = simple_free_page s (va_page vma)"

definition vma_to_pte_flags :: "u32 \<Rightarrow> u64" where
  "vma_to_pte_flags fl =
     (let f1 = PTE_PRESENT;
          f2 = (if fl AND VMA_WRITE \<noteq> 0 then f1 OR PTE_WRITABLE else f1);
          f3 = (if fl AND VMA_EXEC = 0 then f2 OR PTE_NX else f2)
      in f3 OR PTE_USER)"

subsection \<open>The list of areas\<close>

fun vmm_find_vma :: "vm_area list \<Rightarrow> u64 \<Rightarrow> vm_area option" where
  "vmm_find_vma [] addr = None"
| "vmm_find_vma (v # vs) addr =
     (if addr \<ge> va_start v \<and> addr < va_end v then Some v
      else if addr < va_start v then None
      else vmm_find_vma vs addr)"

fun vma_find_intersect :: "vm_area list \<Rightarrow> u64 \<Rightarrow> u64 \<Rightarrow> vm_area option" where
  "vma_find_intersect [] lo hi = None"
| "vma_find_intersect (v # vs) lo hi =
     (if va_start v < hi \<and> va_end v > lo then Some v
      else if va_start v \<ge> hi then None
      else vma_find_intersect vs lo hi)"

fun insert_vma :: "vm_area \<Rightarrow> vm_area list \<Rightarrow> vm_area list" where
  "insert_vma w [] = [w]"
| "insert_vma w (v # vs) = (if va_start w < va_start v then w # v # vs else v # insert_vma w vs)"

definition vma_insert :: "address_space \<Rightarrow> vm_area \<Rightarrow> address_space" where
  "vma_insert as w = as\<lparr>vma_list := insert_vma w (vma_list as), vma_count := vma_count as + 1\<rparr>"

subsection \<open>Creating and destroying\<close>

definition vmm_create_address_space :: "paging_state \<Rightarrow> (paging_state \<times> address_space option) option" where
  "vmm_create_address_space ps = do {
     (s1, page) \<leftarrow> simple_get_free_page (pm ps);
     if page = 0 then Some (ps\<lparr>pm := s1\<rparr>, None)
     else do {
       (ps2, p4) \<leftarrow> paging_create_pml4 (ps\<lparr>pm := s1\<rparr>);
       if p4 = 0 then do { s3 \<leftarrow> simple_free_page (pm ps2) page; Some (ps2\<lparr>pm := s3\<rparr>, None) }
       else Some (ps2, Some \<lparr>as_page = page, pml4 = p4, pml4_phys = p4 - hhdm_offset (pm ps2), vma_list = [], vma_count = 0,
              brk = 0, start_brk = 0, start_stack = 0, total_vm = 0, shared_vm = 0, as_refs = 1\<rparr>)
     }
   }"

text \<open>The body of the loops over the pages of an area: give back the page that is mapped at \<open>addr\<close>.\<close>

definition free_mapped :: "pmm_state \<Rightarrow> u64 \<Rightarrow> u64 \<Rightarrow> (pmm_state \<times> bool) option" where
  "free_mapped s p4 addr = do {
     (s1, pte) \<leftarrow> paging_get_pte s p4 addr;
     if pte \<noteq> 0 \<and> load64 s1 pte AND PTE_PRESENT \<noteq> 0
     then do { s2 \<leftarrow> simple_free_page s1 (phys_to_virt s1 (load64 s1 pte AND PTE_ADDR_MASK)); Some (s2, True) }
     else Some (s1, False)
   }"

partial_function (option) free_area_pages :: "pmm_state \<Rightarrow> u64 \<Rightarrow> u64 \<Rightarrow> u64 \<Rightarrow> pmm_state option" where
  "free_area_pages s p4 addr end_addr =
     (if addr < end_addr
      then Option.bind (free_mapped s p4 addr) (\<lambda>(s1, b). free_area_pages s1 p4 (addr + PAGE_SIZE) end_addr)
      else Some s)"

declare free_area_pages.simps [code]

fun destroy_vmas :: "pmm_state \<Rightarrow> u64 \<Rightarrow> vm_area list \<Rightarrow> pmm_state option" where
  "destroy_vmas s p4 [] = Some s"
| "destroy_vmas s p4 (v # vs) = do {
     s1 \<leftarrow> free_area_pages s p4 (va_start v) (va_end v);
     s2 \<leftarrow> vma_free s1 v;
     destroy_vmas s2 p4 vs
   }"

text \<open>The result is the structure while references remain.\<close>

definition vmm_destroy_address_space :: "pmm_state \<Rightarrow> address_space option \<Rightarrow> (pmm_state \<times> address_space option) option" where
  "vmm_destroy_address_space s aso =
     (case aso of
        None \<Rightarrow> Some (s, None)
      | Some as \<Rightarrow>
          if as_refs as - 1 > 0 then Some (s, Some (as\<lparr>as_refs := as_refs as - 1\<rparr>))
          else do {
            s1 \<leftarrow> destroy_vmas s (pml4 as) (vma_list as);
            s2 \<leftarrow> paging_destroy_pml4 s1 (pml4 as);
            s3 \<leftarrow> simple_free_page s2 (as_page as);
            Some (s3, None)
          })"

subsection \<open>Unmapping\<close>

partial_function (option) unmap_area :: "pmm_state \<Rightarrow> u64 \<Rightarrow> u64 \<Rightarrow> u64 \<Rightarrow> u64 \<Rightarrow> (pmm_state \<times> u64) option" where
  "unmap_area s p4 addr end_addr n =
     (if addr < end_addr
      then Option.bind (free_mapped s p4 addr) (\<lambda>(s1, b).
           Option.bind (paging_unmap s1 p4 addr) (\<lambda>(s2, r).
             unmap_area s2 p4 (addr + PAGE_SIZE) end_addr (if b then n + 1 else n)))
      else Some (s, n))"

declare unmap_area.simps [code]

fun unmap_vmas :: "pmm_state \<Rightarrow> u64 \<Rightarrow> vm_area list \<Rightarrow> u64 \<Rightarrow> u64 \<Rightarrow> u64 \<Rightarrow> u64 \<Rightarrow> (pmm_state \<times> vm_area list \<times> u64 \<times> u64) option" where
  "unmap_vmas s p4 [] lo hi cnt n = Some (s, [], cnt, n)"
| "unmap_vmas s p4 (v # vs) lo hi cnt n =
     (if va_start v \<ge> hi then Some (s, v # vs, cnt, n)
      else if va_end v \<le> lo then do { (s1, vs1, c, m) \<leftarrow> unmap_vmas s p4 vs lo hi cnt n; Some (s1, v # vs1, c, m) }
      else let us = (if va_start v > lo then va_start v else lo);
               ue = (if va_end v < hi then va_end v else hi)
        in do {
          (s1, n1) \<leftarrow> unmap_area s p4 us ue n;
          if us = va_start v \<and> ue = va_end v
          then do { s2 \<leftarrow> vma_free s1 v; unmap_vmas s2 p4 vs lo hi (cnt - 1) n1 }
          else if us = va_start v
          then do { (s2, vs1, c, m) \<leftarrow> unmap_vmas s1 p4 vs lo hi cnt n1; Some (s2, v\<lparr>va_start := ue\<rparr> # vs1, c, m) }
          else if ue = va_end v
          then do { (s2, vs1, c, m) \<leftarrow> unmap_vmas s1 p4 vs lo hi cnt n1; Some (s2, v\<lparr>va_end := us\<rparr> # vs1, c, m) }
          else do {
            (s2, wo) \<leftarrow> vma_alloc s1;
            case wo of
              None \<Rightarrow> do { (s3, vs1, c, m) \<leftarrow> unmap_vmas s2 p4 vs lo hi cnt n1; Some (s3, v # vs1, c, m) }
            | Some w \<Rightarrow> do {
                (s3, vs1, c, m) \<leftarrow> unmap_vmas s2 p4 vs lo hi (cnt + 1) n1;
                Some (s3, v\<lparr>va_end := us\<rparr> # w\<lparr>va_start := ue, va_end := va_end v, va_flags := va_flags v, page_prot := page_prot v\<rparr> # vs1, c, m)
              }
          }
        })"

definition vmm_unmap_region :: "pmm_state \<Rightarrow> address_space \<Rightarrow> u64 \<Rightarrow> u64 \<Rightarrow> (pmm_state \<times> address_space \<times> int) option" where
  "vmm_unmap_region s as start sz = do {
     (s1, vs, c, n) \<leftarrow> unmap_vmas s (pml4 as) (vma_list as) start (start + sz) (vma_count as) 0;
     Some (s1, as\<lparr>vma_list := vs, vma_count := c, total_vm := if total_vm as \<ge> n then total_vm as - n else 0\<rparr>, 0)
   }"

definition vmm_munmap :: "pmm_state \<Rightarrow> address_space \<Rightarrow> u64 \<Rightarrow> u64 \<Rightarrow> (pmm_state \<times> address_space \<times> int) option" where
  "vmm_munmap s as addr sz = vmm_unmap_region s as addr sz"

subsection \<open>Mapping\<close>

partial_function (option) map_area :: "pmm_state \<Rightarrow> address_space \<Rightarrow> u64 \<Rightarrow> u64 \<Rightarrow> u64 \<Rightarrow> u64 \<Rightarrow> (pmm_state \<times> address_space \<times> int) option" where
  "map_area s as start addr end_addr prot =
     (if addr < end_addr
      then Option.bind (simple_get_free_page s) (\<lambda>(s1, page).
        if page = 0
        then Option.bind (vmm_unmap_region s1 as start (addr - start)) (\<lambda>(s2, as2, r). Some (s2, as2, -1))
        else Option.bind (paging_map s1 (pml4 as) addr (page - hhdm_offset s1) prot) (\<lambda>(s2, c).
          if c \<noteq> 0
          then Option.bind (simple_free_page s2 page) (\<lambda>s3.
               Option.bind (vmm_unmap_region s3 as start (addr - start)) (\<lambda>(s4, as4, r). Some (s4, as4, -1)))
          else map_area (zero_page s2 page) as start (addr + PAGE_SIZE) end_addr prot))
      else Some (s, as, 0))"

declare map_area.simps [code]

definition vmm_map_region :: "pmm_state \<Rightarrow> address_space \<Rightarrow> u64 \<Rightarrow> u64 \<Rightarrow> u32 \<Rightarrow> (pmm_state \<times> address_space \<times> int) option" where
  "vmm_map_region s as start sz fl =
     (if vma_find_intersect (vma_list as) start (start + sz) \<noteq> None then Some (s, as, -1)
      else do {
        (s1, wo) \<leftarrow> vma_alloc s;
        case wo of
          None \<Rightarrow> Some (s1, as, -1)
        | Some w \<Rightarrow> do {
            let as1 = vma_insert as (w\<lparr>va_start := start, va_end := start + sz, va_flags := fl, page_prot := vma_to_pte_flags fl\<rparr>);
            (s2, as2, r) \<leftarrow> map_area s1 as1 start start (start + sz) (vma_to_pte_flags fl);
            if r = 0 then Some (s2, as2\<lparr>total_vm := total_vm as2 + sz div PAGE_SIZE\<rparr>, 0)
            else Some (s2, as2, r)
          }
      })"

definition vmm_map_to_user :: "pmm_state \<Rightarrow> address_space \<Rightarrow> u64 \<Rightarrow> u64 \<Rightarrow> u64 \<Rightarrow> u32 \<Rightarrow> (pmm_state \<times> address_space \<times> int) option" where
  "vmm_map_to_user s as virt phys sz fl =
     (if vma_find_intersect (vma_list as) virt (virt + sz) \<noteq> None then Some (s, as, -1)
      else do {
        (s1, wo) \<leftarrow> vma_alloc s;
        case wo of
          None \<Rightarrow> Some (s1, as, -1)
        | Some w0 \<Rightarrow> do {
            let w = w0\<lparr>va_start := virt, va_end := virt + sz, va_flags := fl, page_prot := vma_to_pte_flags fl\<rparr>;
            let as1 = vma_insert as w;
            (s2, r) \<leftarrow> paging_map_range s1 (pml4 as1) virt phys sz (vma_to_pte_flags fl);
            if r \<noteq> 0
            then do {
              s3 \<leftarrow> vma_free s2 w;
              Some (s3, as1\<lparr>vma_list := remove1 w (vma_list as1), vma_count := vma_count as1 - 1\<rparr>, -1)
            }
            else Some (s2, as1\<lparr>total_vm := total_vm as1 + sz div PAGE_SIZE\<rparr>, 0)
          }
      })"

text \<open>The search for a gap; it ends because the end of the candidate grows and stays far from the wrap.\<close>

function find_gap :: "vm_area list \<Rightarrow> u64 \<Rightarrow> u64 \<Rightarrow> u64" where
  "find_gap vs addr sz =
     (if addr + sz < USER_SPACE_END \<and> vma_find_intersect vs addr (addr + sz) \<noteq> None
      then find_gap vs (addr + PAGE_SIZE * 256) sz
      else addr)"
  by pat_completeness auto
termination
proof (relation "measure (\<lambda>(vs, addr, sz). 2 ^ 48 - unat (addr + sz))")
  fix vs :: "vm_area list" and addr sz :: u64
  assume "addr + sz < USER_SPACE_END \<and> vma_find_intersect vs addr (addr + sz) \<noteq> None"
  then have lt: "unat (addr + sz) < 2 ^ 47" by (simp add: USER_SPACE_END_def word_less_nat_alt)
  have "unat (PAGE_SIZE * 256) = 2 ^ 20" by (simp add: PAGE_SIZE_val)
  then have "unat ((addr + sz) + PAGE_SIZE * 256) = unat (addr + sz) + 2 ^ 20"
    using lt by (simp only: unat_word_ariths(1)) simp
  then have "unat (addr + PAGE_SIZE * 256 + sz) = unat (addr + sz) + 2 ^ 20" by (simp add: ac_simps)
  then show "((vs, addr + PAGE_SIZE * 256, sz), vs, addr, sz) \<in> measure (\<lambda>(vs, addr, sz). 2 ^ 48 - unat (addr + sz))"
    using lt by simp
qed simp

declare find_gap.simps [simp del]

definition vmm_mmap :: "pmm_state \<Rightarrow> address_space \<Rightarrow> u64 \<Rightarrow> u64 \<Rightarrow> u32 \<Rightarrow> u32 \<Rightarrow> (pmm_state \<times> address_space \<times> u64) option" where
  "vmm_mmap s as hint size0 prot fl =
     (let sz = PAGE_ALIGN size0;
          search = (hint = 0 \<or> vma_find_intersect (vma_list as) hint (hint + sz) \<noteq> None);
          addr = (if search then find_gap (vma_list as) 0x10000000 sz else hint)
      in if search \<and> addr + sz \<ge> USER_SPACE_END then Some (s, as, -1)
         else let f1 = (if prot AND VMA_READ \<noteq> 0 then VMA_READ else 0);
                  f2 = (if prot AND VMA_WRITE \<noteq> 0 then f1 OR VMA_WRITE else f1);
                  f3 = (if prot AND VMA_EXEC \<noteq> 0 then f2 OR VMA_EXEC else f2);
                  f4 = (if fl AND VMA_ANONYMOUS \<noteq> 0 then f3 OR VMA_ANONYMOUS else f3)
           in do {
             (s1, as1, r) \<leftarrow> vmm_map_region s as addr sz f4;
             Some (s1, as1, if r \<noteq> 0 then -1 else addr)
           })"

subsection \<open>Protection\<close>

partial_function (option) protect_area :: "pmm_state \<Rightarrow> u64 \<Rightarrow> u64 \<Rightarrow> u64 \<Rightarrow> u64 \<Rightarrow> pmm_state option" where
  "protect_area s p4 addr end_addr prot =
     (if addr < end_addr
      then Option.bind (paging_get_pte s p4 addr) (\<lambda>(s1, pte).
        protect_area (if pte \<noteq> 0 \<and> load64 s1 pte AND PTE_PRESENT \<noteq> 0
                      then store64 s1 pte ((load64 s1 pte AND PTE_ADDR_MASK) OR prot) else s1)
          p4 (addr + PAGE_SIZE) end_addr prot)
      else Some s)"

declare protect_area.simps [code]

definition set_prot :: "u32 \<Rightarrow> vm_area \<Rightarrow> vm_area" where
  "set_prot prot v = (let fl = (va_flags v AND NOT (VMA_READ OR VMA_WRITE OR VMA_EXEC)) OR prot
     in v\<lparr>va_flags := fl, page_prot := vma_to_pte_flags fl\<rparr>)"

definition vmm_mprotect :: "pmm_state \<Rightarrow> address_space \<Rightarrow> u64 \<Rightarrow> u64 \<Rightarrow> u32 \<Rightarrow> (pmm_state \<times> address_space \<times> int) option" where
  "vmm_mprotect s as addr sz prot =
     (case vmm_find_vma (vma_list as) addr of
        None \<Rightarrow> Some (s, as, -1)
      | Some v \<Rightarrow>
          if va_start v > addr \<or> va_end v < addr + sz then Some (s, as, -1)
          else do {
            let v' = set_prot prot v;
            s1 \<leftarrow> protect_area s (pml4 as) addr (addr + sz) (page_prot v');
            Some (s1, as\<lparr>vma_list := map (\<lambda>u. if va_page u = va_page v then v' else u) (vma_list as)\<rparr>, 0)
          })"

subsection \<open>Cloning\<close>

text \<open>The copy of the pages of one area; the flag says whether it went through.\<close>

partial_function (option) clone_area :: "pmm_state \<Rightarrow> u64 \<Rightarrow> u64 \<Rightarrow> u64 \<Rightarrow> u64 \<Rightarrow> (pmm_state \<times> bool) option" where
  "clone_area s src dst addr end_addr =
     (if addr < end_addr
      then Option.bind (paging_get_pte s src addr) (\<lambda>(s1, pte).
        if pte = 0 \<or> load64 s1 pte AND PTE_PRESENT = 0 then clone_area s1 src dst (addr + PAGE_SIZE) end_addr
        else Option.bind (simple_get_free_page s1) (\<lambda>(s2, page).
          if page = 0 then Some (s2, False)
          else let e = load64 s1 pte;
                   s3 = copy_page s2 page (phys_to_virt s2 (e AND PTE_ADDR_MASK))
            in Option.bind (paging_map s3 dst addr (page - hhdm_offset s3) (e AND NOT PTE_ADDR_MASK)) (\<lambda>(s4, r).
              if r \<noteq> 0 then Option.bind (simple_free_page s4 page) (\<lambda>s5. Some (s5, False))
              else clone_area s4 src dst (addr + PAGE_SIZE) end_addr)))
      else Some (s, True))"

declare clone_area.simps [code]

fun clone_vmas :: "pmm_state \<Rightarrow> u64 \<Rightarrow> address_space \<Rightarrow> vm_area list \<Rightarrow> (pmm_state \<times> address_space option) option" where
  "clone_vmas s src dst [] = Some (s, Some dst)"
| "clone_vmas s src dst (v # vs) = do {
     (s1, wo) \<leftarrow> vma_alloc s;
     case wo of
       None \<Rightarrow> do { (s2, d) \<leftarrow> vmm_destroy_address_space s1 (Some dst); Some (s2, None) }
     | Some w \<Rightarrow> do {
         let w' = v\<lparr>va_page := va_page w\<rparr>;
         (s2, done) \<leftarrow> clone_area s1 src (pml4 dst) (va_start v) (va_end v);
         if done then clone_vmas s2 src (vma_insert dst w') vs
         else do {
           s3 \<leftarrow> vma_free s2 w';
           (s4, d) \<leftarrow> vmm_destroy_address_space s3 (Some dst);
           Some (s4, None)
         }
       }
   }"

definition vmm_clone_address_space :: "paging_state \<Rightarrow> address_space \<Rightarrow> (paging_state \<times> address_space option) option" where
  "vmm_clone_address_space ps src = do {
     (ps1, dsto) \<leftarrow> vmm_create_address_space ps;
     case dsto of
       None \<Rightarrow> Some (ps1, None)
     | Some dst \<Rightarrow> do {
         (s2, r) \<leftarrow> clone_vmas (pm ps1) (pml4 src) dst (vma_list src);
         Some (ps1\<lparr>pm := s2\<rparr>, map_option (\<lambda>d. d\<lparr>brk := brk src, start_brk := start_brk src, start_stack := start_stack src,
                                              total_vm := total_vm src\<rparr>) r)
       }
   }"

end
