(* ===== verification/Vmm_Areas.thy ===== *)
theory Vmm_Areas
  imports Vmm
begin

text \<open>
  The list of areas of an address space as a map from addresses to areas: it is sorted, its areas are not empty and
  do not overlap, and the searches that stop early, insertion and unmapping are look-up, update and removal on that map.
\<close>

definition span :: "vm_area \<Rightarrow> u64 set" where "span v = {va_start v..<va_end v}"

definition vmas_ok :: "vm_area list \<Rightarrow> bool" where
  "vmas_ok vs \<longleftrightarrow> sorted_wrt (\<lambda>u v. va_end u \<le> va_start v) vs \<and> (\<forall>v \<in> set vs. va_start v < va_end v)"

definition area_at :: "vm_area list \<Rightarrow> u64 \<Rightarrow> vm_area option" where
  "area_at vs x = find (\<lambda>v. x \<in> span v) vs"

text \<open>What user code sees of the areas: flags and protection, by address.\<close>

definition prot_at :: "vm_area list \<Rightarrow> u64 \<Rightarrow> (u32 \<times> u64) option" where
  "prot_at vs x = map_option (\<lambda>v. (va_flags v, page_prot v)) (area_at vs x)"

lemma vmas_ok_simps [simp]:
  "vmas_ok []"
  "vmas_ok (v # vs) \<longleftrightarrow> va_start v < va_end v \<and> (\<forall>u \<in> set vs. va_end v \<le> va_start u) \<and> vmas_ok vs"
  by (auto simp: vmas_ok_def)

lemma area_at_simps [simp]:
  "area_at [] x = None" "area_at (v # vs) x = (if x \<in> span v then Some v else area_at vs x)"
  by (simp_all add: area_at_def)

lemma area_at_None: "area_at vs x = None \<longleftrightarrow> (\<forall>v \<in> set vs. x \<notin> span v)"
  by (auto simp: area_at_def find_None_iff)

lemma area_at_iff: "vmas_ok vs \<Longrightarrow> area_at vs x = Some v \<longleftrightarrow> v \<in> set vs \<and> x \<in> span v"
  by (induction vs) (auto simp: span_def)

lemma later_start: "vmas_ok (v # vs) \<Longrightarrow> u \<in> set vs \<Longrightarrow> va_start v < va_start u"
  by (auto intro: order.strict_trans2)

lemma find_vma_area: "vmas_ok vs \<Longrightarrow> vmm_find_vma vs x = area_at vs x"
proof (induction vs)
  case (Cons v vs)
  have "area_at vs x = None" if "x < va_start v"
    unfolding area_at_None using later_start [OF Cons.prems] that by (fastforce simp: span_def)
  then show ?case using Cons by (auto simp: span_def)
qed simp

lemma find_intersect:
  "vmas_ok vs \<Longrightarrow> vma_find_intersect vs lo hi = None \<longleftrightarrow> (\<forall>v \<in> set vs. hi \<le> va_start v \<or> va_end v \<le> lo)"
proof (induction vs)
  case (Cons v vs)
  have "hi \<le> va_start u" if "va_start v \<ge> hi" "u \<in> set vs" for u
    using later_start [OF Cons.prems that(2)] that(1) by simp
  then show ?case using Cons by auto
qed simp

lemma set_insert_vma [simp]: "set (insert_vma w vs) = insert w (set vs)"
  by (induction vs) auto

lemma length_insert_vma [simp]: "length (insert_vma w vs) = Suc (length vs)"
  by (induction vs) auto

lemma vmas_insert:
  "vmas_ok vs \<Longrightarrow> va_start w < va_end w \<Longrightarrow> \<forall>v \<in> set vs. va_end w \<le> va_start v \<or> va_end v \<le> va_start w \<Longrightarrow> vmas_ok (insert_vma w vs)"
proof (induction vs)
  case (Cons v vs)
  have w: "va_end w \<le> va_start v \<or> va_end v \<le> va_start w" using Cons.prems(3) by simp
  show ?case
  proof (cases "va_start w < va_start v")
    case True
    then have "va_end w \<le> va_start v" using w Cons.prems(1) by auto
    moreover from this have "va_end w \<le> va_start u" if "u \<in> set vs" for u using later_start [OF Cons.prems(1) that] by simp
    ultimately show ?thesis using True Cons.prems by simp
  next
    case False
    then have "va_end v \<le> va_start w" using w Cons.prems(2) by auto
    then show ?thesis using False Cons by simp
  qed
qed simp

lemma area_at_insert:
  assumes "vmas_ok vs" "va_start w < va_end w" "\<forall>v \<in> set vs. va_end w \<le> va_start v \<or> va_end v \<le> va_start w"
  shows "area_at (insert_vma w vs) x = (if x \<in> span w then Some w else area_at vs x)"
proof (cases "area_at (insert_vma w vs) x")
  case None
  then have "x \<notin> span w" "area_at vs x = None" unfolding area_at_None by simp_all
  then show ?thesis using None by simp
next
  case (Some u)
  then have u: "u = w \<or> u \<in> set vs" "x \<in> span u" using area_at_iff [OF vmas_insert [OF assms], of x u] by simp_all
  then show ?thesis
  proof (cases "u = w")
    case False
    then have "x \<notin> span w" using u assms(3) by (fastforce simp: span_def)
    then show ?thesis using Some False u area_at_iff [OF assms(1), of x u] by simp
  qed (use Some in simp)
qed

subsection \<open>Unmapping\<close>

text \<open>The areas after unmapping \<open>{lo..<hi}\<close>; \<open>wo\<close> is the structure for the second half of a split, if there was memory for it.\<close>

fun cut_vmas :: "vm_area list \<Rightarrow> u64 \<Rightarrow> u64 \<Rightarrow> vm_area option \<Rightarrow> vm_area list" where
  "cut_vmas [] lo hi wo = []"
| "cut_vmas (v # vs) lo hi wo =
     (if va_start v \<ge> hi then v # vs
      else if va_end v \<le> lo then v # cut_vmas vs lo hi wo
      else if lo \<le> va_start v \<and> va_end v \<le> hi then cut_vmas vs lo hi wo
      else if lo \<le> va_start v then v\<lparr>va_start := hi\<rparr> # cut_vmas vs lo hi wo
      else if va_end v \<le> hi then v\<lparr>va_end := lo\<rparr> # cut_vmas vs lo hi wo
      else case wo of
             None \<Rightarrow> v # cut_vmas vs lo hi wo
           | Some w \<Rightarrow> v\<lparr>va_end := lo\<rparr> # w\<lparr>va_start := hi, va_end := va_end v, va_flags := va_flags v, page_prot := page_prot v\<rparr> # cut_vmas vs lo hi wo)"

definition inside :: "vm_area list \<Rightarrow> u64 \<Rightarrow> u64 \<Rightarrow> bool" where
  "inside vs lo hi \<longleftrightarrow> (\<exists>v \<in> set vs. va_start v < lo \<and> hi < va_end v)"

lemma prot_at_None: "prot_at vs x = None \<longleftrightarrow> (\<forall>v \<in> set vs. x \<notin> span v)"
  by (simp add: prot_at_def area_at_None)

lemma prot_at_Cons [simp]: "prot_at (v # vs) x = (if x \<in> span v then Some (va_flags v, page_prot v) else prot_at vs x)"
  by (simp add: prot_at_def)

lemma prot_at_Nil [simp]: "prot_at [] x = None"
  by (simp add: prot_at_def)

lemma cut_beyond: "\<forall>v \<in> set vs. hi \<le> va_start v \<Longrightarrow> cut_vmas vs lo hi wo = vs"
  by (cases vs) auto

lemma cut_bounds:
  assumes "\<forall>v \<in> set vs. P (va_start v) \<and> P (va_end v)" "P lo" "P hi"
  shows "\<forall>v \<in> set (cut_vmas vs lo hi wo). P (va_start v) \<and> P (va_end v)"
  using assms by (induction vs) (auto split: option.splits)

lemma cut_lower: "lo \<le> hi \<Longrightarrow> \<forall>v \<in> set vs. b \<le> va_start v \<Longrightarrow> v' \<in> set (cut_vmas vs lo hi wo) \<Longrightarrow> b \<le> va_start v'"
  by (induction vs) (auto split: option.splits if_splits)

lemma vmas_cut: "vmas_ok vs \<Longrightarrow> lo \<le> hi \<Longrightarrow> vmas_ok (cut_vmas vs lo hi wo)"
proof (induction vs)
  case (Cons v vs)
  have l: "va_end v \<le> va_start u" if "u \<in> set (cut_vmas vs lo hi wo)" for u
    using cut_lower [OF Cons.prems(2) _ that, of "va_end v"] Cons.prems(1) by simp
  moreover from this have "va_start v < va_start u" "lo < va_end v \<Longrightarrow> lo \<le> va_start u" "hi < va_end v \<Longrightarrow> hi \<le> va_start u"
    if "u \<in> set (cut_vmas vs lo hi wo)" for u using l [OF that] Cons.prems(1) by auto
  ultimately show ?case using Cons by (auto split: option.splits)
qed simp

lemma prot_beyond: "vmas_ok (v # vs) \<Longrightarrow> x < va_end v \<Longrightarrow> prot_at vs x = None"
  unfolding prot_at_None by (auto simp: span_def)

lemma cut_outside: "vmas_ok vs \<Longrightarrow> lo \<le> hi \<Longrightarrow> x \<notin> {lo..<hi} \<Longrightarrow> prot_at (cut_vmas vs lo hi wo) x = prot_at vs x"
proof (induction vs)
  case (Cons v vs)
  have b: "prot_at vs x = None" if "x < va_end v" using prot_beyond [OF Cons.prems(1) that] .
  have "prot_at (cut_vmas vs lo hi wo) x = prot_at vs x" using Cons by simp
  then show ?case using b Cons.prems(1,2,3) by (auto simp: span_def split: option.splits)
qed simp

lemma cut_inside: "vmas_ok vs \<Longrightarrow> lo \<le> hi \<Longrightarrow> x \<in> {lo..<hi} \<Longrightarrow> wo \<noteq> None \<or> \<not> inside vs lo hi \<Longrightarrow> prot_at (cut_vmas vs lo hi wo) x = None"
proof (induction vs)
  case (Cons v vs)
  have "prot_at (cut_vmas vs lo hi wo) x = None" using Cons by (auto simp: inside_def)
  moreover have "prot_at vs x = None" if "hi \<le> va_start v"
    using that Cons.prems(1,3) later_start [OF Cons.prems(1)] by (fastforce simp: prot_at_None span_def)
  ultimately show ?case using Cons.prems(3,4) by (auto simp: span_def inside_def split: option.splits)
qed simp

lemma cut_length:
  "vmas_ok vs \<Longrightarrow> lo \<le> hi \<Longrightarrow> wo = None \<or> \<not> inside vs lo hi \<Longrightarrow> length (cut_vmas vs lo hi wo) \<le> length vs"
  by (induction vs) (auto simp: inside_def split: option.splits)

lemma cut_kept: "vmas_ok vs \<Longrightarrow> lo \<le> hi \<Longrightarrow> inside vs lo hi \<Longrightarrow> cut_vmas vs lo hi None = vs"
proof (induction vs)
  case (Cons v vs)
  show ?case
  proof (cases "va_start v < lo \<and> hi < va_end v")
    case True
    moreover have "cut_vmas vs lo hi None = vs" using True Cons.prems(1) by (intro cut_beyond) auto
    ultimately show ?thesis by auto
  next
    case False
    then obtain u where u: "u \<in> set vs" "va_start u < lo" "hi < va_end u" using Cons.prems(3) by (auto simp: inside_def)
    then have "va_end v \<le> lo" using Cons.prems(1) by auto
    moreover have "inside vs lo hi" using u by (auto simp: inside_def)
    ultimately show ?thesis using Cons by simp
  qed
qed simp

end
