(* ===== verification/Page_Tables.thy ===== *)
theory Page_Tables
  imports Paging "HOL-Library.Sublist"
begin

text \<open>
  The page tables of \<^verbatim>\<open>kernel/arch/x86_64/mm/paging.c\<close> as a finite map from pages to entries. A table is
  named by the indices that lead to it, the last one first; the invariant says that every table of an address
  space is an allocated frame that is reached in one way only. Mapping and unmapping refine the update of the
  map, address spaces do not disturb each other, and destroying one gives back exactly its tables.
\<close>

subsection \<open>The tables of an address space\<close>

definition child :: "pmm_state \<Rightarrow> bool \<Rightarrow> nat \<Rightarrow> nat \<Rightarrow> nat option" where
  "child s huge f i =
     (let e = entry s f i in if e AND PTE_PRESENT = 0 \<or> huge \<and> e AND PTE_HUGE \<noteq> 0 then None else Some (frame_of e))"

fun tbl :: "pmm_state \<Rightarrow> nat \<Rightarrow> nat list \<Rightarrow> nat option" where
  "tbl s r [] = Some r"
| "tbl s r (i # p) = (case tbl s r p of None \<Rightarrow> None | Some f \<Rightarrow> child s (p \<noteq> []) f i)"

definition paths :: "nat list set" where
  "paths = {q. length q \<le> 3 \<and> (\<forall>i \<in> set q. i < 512)}"

definition wpath :: "u64 \<Rightarrow> nat list" where
  "wpath va = [unat (PD_INDEX va), unat (PDPT_INDEX va), unat (PML4_INDEX va)]"

definition leaf :: "u64 \<Rightarrow> nat" where "leaf va = unat (PT_INDEX va)"

text \<open>The entry that translates an address.\<close>

definition lookup :: "pmm_state \<Rightarrow> nat \<Rightarrow> u64 \<Rightarrow> u64 option" where
  "lookup s r va = (case tbl s r (wpath va) of
     None \<Rightarrow> None
   | Some f \<Rightarrow> if entry s f (leaf va) AND PTE_PRESENT = 0 then None else Some (entry s f (leaf va)))"

definition page_of :: "u64 \<Rightarrow> u64" where "page_of va = drop_bit 12 va AND mask 36"

definition user_va :: "u64 \<Rightarrow> bool" where "user_va va \<longleftrightarrow> unat (PML4_INDEX va) < 256"

text \<open>
  The invariant. It asks that no table is a free frame, of the kernel half too, and is an assumption on the
  tables that \<^verbatim>\<open>paging_init\<close> takes over from the boot loader: \<^verbatim>\<open>pmm_init\<close> frees the memory the boot
  loader marks as reclaimable, and a boot loader that keeps its tables there breaks the invariant at boot.
\<close>

definition tables_ok :: "pmm_state \<Rightarrow> nat \<Rightarrow> bool" where
  "tables_ok s r \<longleftrightarrow> pmm_ok s \<and> hhdm_ok s \<and>
     (\<forall>q \<in> paths. \<forall>f. tbl s r q = Some f \<longrightarrow>
        f < length (page_array s) \<and> f \<notin> pavail s \<and> (\<forall>q' \<in> paths. tbl s r q' = Some f \<longrightarrow> q' = q))"

text \<open>The tables, those of one entry of the top level with the root, and those of the user half.\<close>

definition tables :: "pmm_state \<Rightarrow> nat \<Rightarrow> nat set" where
  "tables s r = {f. \<exists>q \<in> paths. tbl s r q = Some f}"

definition branch :: "pmm_state \<Rightarrow> nat \<Rightarrow> nat \<Rightarrow> nat set" where
  "branch s r i = {f. \<exists>q \<in> paths. (q = [] \<or> last q = i) \<and> tbl s r q = Some f}"

definition utables :: "pmm_state \<Rightarrow> nat \<Rightarrow> nat set" where
  "utables s r = {f. \<exists>q \<in> paths. (q = [] \<or> last q < 256) \<and> tbl s r q = Some f}"

text \<open>Address spaces may share the tables of the kernel half; the tables of a user half are its own.\<close>

definition spaces_ok :: "pmm_state \<Rightarrow> nat set \<Rightarrow> bool" where
  "spaces_ok s R \<longleftrightarrow> (\<forall>r \<in> R. tables_ok s r) \<and> (\<forall>r \<in> R. \<forall>r' \<in> R. r \<noteq> r' \<longrightarrow> utables s r \<inter> tables s r' = {})"

lemma pathsI: "i < 512 \<Longrightarrow> q \<in> paths \<Longrightarrow> length q \<le> 2 \<Longrightarrow> i # q \<in> paths"
  by (simp add: paths_def)

lemma paths_Nil [simp]: "[] \<in> paths"
  by (simp add: paths_def)

lemma paths_tl: "suffix p q \<Longrightarrow> q \<in> paths \<Longrightarrow> p \<in> paths"
  by (auto simp: paths_def suffix_def)

lemma index_bound: "unat (w AND 0x1FF :: u64) < 512"
proof -
  have "w AND 0x1FF \<le> 0x1FF" by (rule word_and_le1)
  then show ?thesis by (simp add: word_le_nat_alt)
qed

lemma wpath_paths [simp]: "wpath va \<in> paths"
  by (simp add: paths_def wpath_def PD_INDEX_def PDPT_INDEX_def PML4_INDEX_def index_bound)

lemma length_wpath [simp]: "length (wpath va) = 3"
  by (simp add: wpath_def)

lemma leaf_bound [simp]: "leaf va < 512"
  by (simp add: leaf_def PT_INDEX_def index_bound)

lemma unat_eq_iff: "unat a = unat b \<longleftrightarrow> a = (b :: u64)"
  by (simp add: word_unat_eq_iff)

lemma mask9: "(0x1FF :: u64) = mask 9"
  by (simp add: mask_eq_exp_minus_1)

lemma page_of_eq: "page_of va = page_of va' \<longleftrightarrow> wpath va = wpath va' \<and> leaf va = leaf va'"
proof
  assume e: "page_of va = page_of va'"
  have b: "bit va n = bit va' n" if "12 \<le> n" "n < 48" for n
  proof -
    have "bit (page_of va) (n - 12) = bit (page_of va') (n - 12)" using e by simp
    moreover have "n - 12 < 64" "n - 12 < 36" using that by linarith+
    ultimately show ?thesis using that by (simp add: page_of_def bit_simps)
  qed
  have "drop_bit k va AND 0x1FF = drop_bit k va' AND 0x1FF" if "12 \<le> k" "k \<le> 39" for k
    unfolding mask9 by (rule bit_word_eqI) (use b that in \<open>auto simp: bit_simps\<close>)
  then show "wpath va = wpath va' \<and> leaf va = leaf va'"
    by (simp add: wpath_def leaf_def PML4_INDEX_def PDPT_INDEX_def PD_INDEX_def PT_INDEX_def)
next
  assume "wpath va = wpath va' \<and> leaf va = leaf va'"
  then have e: "drop_bit 39 va AND mask 9 = drop_bit 39 va' AND mask 9" "drop_bit 30 va AND mask 9 = drop_bit 30 va' AND mask 9"
    "drop_bit 21 va AND mask 9 = drop_bit 21 va' AND mask 9" "drop_bit 12 va AND mask 9 = drop_bit 12 va' AND mask 9"
    by (simp_all add: wpath_def leaf_def PML4_INDEX_def PDPT_INDEX_def PD_INDEX_def PT_INDEX_def mask9 unat_eq_iff)
  have b: "bit va (k + n) = bit va' (k + n)" if "drop_bit k va AND mask 9 = drop_bit k va' AND mask 9" "n < 9" for k n
  proof -
    have "bit (drop_bit k va AND mask 9) n = bit (drop_bit k va' AND mask 9) n" using that(1) by simp
    then show ?thesis using that(2) by (simp add: bit_simps)
  qed
  show "page_of va = page_of va'"
  proof (rule bit_word_eqI)
    fix n :: nat
    consider "n < 9" | "9 \<le> n" "n < 18" | "18 \<le> n" "n < 27" | "27 \<le> n" "n < 36" | "36 \<le> n" by linarith
    then have "n < 36 \<Longrightarrow> bit va (12 + n) = bit va' (12 + n)"
      using b [OF e(4), of n] b [OF e(3), of "n - 9"] b [OF e(2), of "n - 18"] b [OF e(1), of "n - 27"] by cases simp_all
    then show "bit (page_of va) n = bit (page_of va') n" by (auto simp: page_of_def bit_simps)
  qed
qed

lemma tbl_same:
  assumes "\<And>j p f. suffix (j # p) q \<Longrightarrow> tbl s r p = Some f \<Longrightarrow> entry s' f j = entry s f j"
  shows "tbl s' r q = tbl s r q"
  using assms
proof (induction q)
  case (Cons i p)
  have "tbl s' r p = tbl s r p" by (rule Cons.IH) (rule Cons.prems, rule suffix_ConsI)
  moreover have "tbl s r p = Some f \<Longrightarrow> entry s' f i = entry s f i" for f by (rule Cons.prems) simp_all
  ultimately show ?case by (simp add: child_def split: option.split)
qed simp

lemma tables_okD:
  assumes "tables_ok s r" "q \<in> paths" "tbl s r q = Some f"
  shows "pmm_ok s" "hhdm_ok s" "f < length (page_array s)" "f \<notin> pavail s" "q' \<in> paths \<Longrightarrow> tbl s r q' = Some f \<Longrightarrow> q' = q"
  using assms unfolding tables_ok_def by blast+

lemma tables_ok_pmm: "tables_ok s r \<Longrightarrow> pmm_ok s" "tables_ok s r \<Longrightarrow> hhdm_ok s"
  by (simp_all add: tables_ok_def)

lemma entry_mem:
  assumes "\<And>a. a div 4096 = f \<Longrightarrow> phys_mem s' a = phys_mem s a" "j < 512"
  shows "entry s' f j = entry s f j"
  unfolding entry_def
proof (rule get_cong)
  fix x assume "f * 4096 + 8 * j \<le> x" "x < f * 4096 + 8 * j + 8"
  then have "x div 4096 = f" using assms(2) by (intro div_nat_eqI) simp_all
  then show "phys_mem s' x = phys_mem s x" by (rule assms(1))
qed

subsection \<open>Creating tables\<close>

text \<open>What creating tables below entry \<open>i\<close> of the top level does: the tables that were there stay, the new
  ones come from the free frames, and no translation changes.\<close>

definition grown :: "pmm_state \<Rightarrow> pmm_state \<Rightarrow> nat \<Rightarrow> nat \<Rightarrow> bool" where
  "grown s s' r i \<longleftrightarrow> tables_ok s' r \<and> pmm_frame s s' \<and> pavail s' \<subseteq> pavail s \<and>
     (\<forall>q \<in> paths. \<forall>f. tbl s r q = Some f \<longrightarrow> tbl s' r q = Some f) \<and>
     (\<forall>q \<in> paths. \<forall>f. tbl s' r q = Some f \<longrightarrow> tbl s r q = Some f \<or> f \<in> pavail s \<and> q \<noteq> [] \<and> last q = i) \<and>
     pavail s - pavail s' \<subseteq> branch s' r i \<and>
     (\<forall>va. lookup s' r va = lookup s r va) \<and>
     (\<forall>a. a div 4096 \<notin> branch s r i \<union> pavail s \<longrightarrow> phys_mem s' a = phys_mem s a)"

lemma grownD:
  assumes "grown s s' r i"
  shows "tables_ok s' r" "pmm_frame s s'" "pavail s' \<subseteq> pavail s"
    "q \<in> paths \<Longrightarrow> tbl s r q = Some f \<Longrightarrow> tbl s' r q = Some f"
    "q \<in> paths \<Longrightarrow> tbl s' r q = Some f \<Longrightarrow> tbl s r q = Some f \<or> f \<in> pavail s \<and> q \<noteq> [] \<and> last q = i"
    "pavail s - pavail s' \<subseteq> branch s' r i" "lookup s' r va = lookup s r va"
    "a div 4096 \<notin> branch s r i \<Longrightarrow> a div 4096 \<notin> pavail s \<Longrightarrow> phys_mem s' a = phys_mem s a"
  using assms unfolding grown_def by blast+

lemma branchI: "q \<in> paths \<Longrightarrow> q = [] \<or> last q = i \<Longrightarrow> tbl s r q = Some f \<Longrightarrow> f \<in> branch s r i"
  unfolding branch_def by blast

lemma branchE:
  assumes "f \<in> branch s r i"
  obtains q where "q \<in> paths" "q = [] \<or> last q = i" "tbl s r q = Some f"
  using assms unfolding branch_def by blast

lemma grown_branch:
  assumes g: "grown s s' r i"
  shows "branch s r i \<subseteq> branch s' r i" "branch s' r i \<subseteq> branch s r i \<union> pavail s"
proof -
  show "branch s r i \<subseteq> branch s' r i"
    by (rule subsetI, erule branchE) (rule branchI, assumption+, rule grownD(4) [OF g])
  show "branch s' r i \<subseteq> branch s r i \<union> pavail s"
  proof
    fix f assume "f \<in> branch s' r i"
    then obtain q where q: "q \<in> paths" "q = [] \<or> last q = i" "tbl s' r q = Some f" by (rule branchE)
    then show "f \<in> branch s r i \<union> pavail s" using grownD(5) [OF g q(1,3)] branchI [OF q(1,2)] by blast
  qed
qed

lemma grown_refl: "tables_ok s r \<Longrightarrow> grown s s r i"
  by (auto simp: grown_def pmm_frame_def)

lemma grown_trans:
  assumes 1: "grown s s1 r i" and 2: "grown s1 s2 r i"
  shows "grown s s2 r i"
  unfolding grown_def
proof (intro conjI allI ballI impI)
  show "tables_ok s2 r" using grownD(1) [OF 2] .
  show "pmm_frame s s2" using grownD(2) [OF 1] grownD(2) [OF 2] by (simp add: pmm_frame_def)
  show "pavail s2 \<subseteq> pavail s" using grownD(3) [OF 1] grownD(3) [OF 2] by blast
  show "pavail s - pavail s2 \<subseteq> branch s2 r i" using grownD(6) [OF 1] grownD(6) [OF 2] grown_branch(1) [OF 2] by blast
  fix q f assume q: "q \<in> paths"
  { assume "tbl s r q = Some f"
    then show "tbl s2 r q = Some f" using grownD(4) [OF 2 q] grownD(4) [OF 1 q] by blast }
  { assume "tbl s2 r q = Some f"
    then show "tbl s r q = Some f \<or> f \<in> pavail s \<and> q \<noteq> [] \<and> last q = i"
      using grownD(5) [OF 2 q, of f] grownD(5) [OF 1 q, of f] grownD(3) [OF 1] by blast }
next
  show "lookup s2 r va = lookup s r va" for va using grownD(7) [OF 1] grownD(7) [OF 2] by metis
  fix a assume a: "a div 4096 \<notin> branch s r i \<union> pavail s"
  then have "phys_mem s1 a = phys_mem s a" using grownD(8) [OF 1] by blast
  moreover have "phys_mem s2 a = phys_mem s1 a"
    using a grownD(8) [OF 2] grownD(3) [OF 1] grown_branch(2) [OF 1] by blast
  ultimately show "phys_mem s2 a = phys_mem s a" by simp
qed

lemma zero_range:
  "p < 2 ^ 40 \<Longrightarrow> (unat (virt_to_phys s (phys_to_virt s' (PFN_TO_PHYS p))) \<le> a \<and> a < unat (virt_to_phys s (phys_to_virt s' (PFN_TO_PHYS p))) + 4096
    \<longleftrightarrow> a div 4096 = p)" if "hhdm_offset s' = hhdm_offset s"
proof -
  assume p: "p < 2 ^ 40"
  have "unat (virt_to_phys s (phys_to_virt s' (PFN_TO_PHYS p))) = p * 4096"
    using p that unat_PFN_TO_PHYS [of p] by (simp add: virt_to_phys_def phys_to_virt_def)
  moreover have "p * 4096 \<le> a \<and> a < p * 4096 + 4096 \<longleftrightarrow> a div 4096 = p" by linarith
  ultimately show ?thesis by simp
qed

lemma alloc_pt_page_ok:
  assumes ok: "pmm_ok s" and h: "hhdm_ok s"
  obtains s' where "alloc_pt_page s = Some (s', 0)" "pmm_ok s'" "hhdm_ok s'" "pmm_frame s s'" "pavail s' = pavail s" "phys_mem s' = phys_mem s"
  | s' g where "alloc_pt_page s = Some (s', table_va s g)" "table_va s g \<noteq> 0" "pmm_ok s'" "hhdm_ok s'" "pmm_frame s s'" "g \<in> pavail s"
    "g < length (page_array s)" "pavail s' = pavail s - {g}"
    "\<And>a. phys_mem s' a = (if a div 4096 = g then 0 else phys_mem s a)"
proof -
  obtain s1 p where a: "alloc_pages s 0 GFP_KERNEL = Some (s1, p)" "got s s1 0 (Suc (start_zone GFP_KERNEL)) p" "phys_mem s1 = phys_mem s"
    using alloc_pages_ok [OF ok, of 0 GFP_KERNEL] by (auto simp: GFP_KERNEL_def split: option.splits)
  have fr: "pmm_ok s1" "pmm_frame s s1" using a(2) by (simp_all add: got_def)
  then have h1: "hhdm_ok s1" using h by (simp add: hhdm_ok_def pmm_frame_def)
  show ?thesis
  proof (cases p)
    case None
    then have "alloc_pt_page s = Some (s1, 0)"
      using a(1) by (simp add: alloc_pt_page_def simple_get_free_page_def get_free_page_def get_free_pages_def)
    moreover have "pavail s1 = pavail s" using a(2) None by (simp add: got_def)
    ultimately show ?thesis using that(1) fr h1 a(3) by blast
  next
    case (Some g)
    then have g: "g \<in> pavail s" "g < length (page_array s)" "pavail s1 = pavail s - {g}"
      using a(2) by (auto simp: got_def)
    then have l: "g < 2 ^ 40" using h by (simp add: hhdm_ok_def)
    have off: "hhdm_offset s1 = hhdm_offset s" using fr(2) by (simp add: pmm_frame_def)
    have nz: "table_va s g \<noteq> 0" using entry_address(2) [OF h g(2), of 0] by simp
    let ?s = "s1\<lparr>phys_mem := \<lambda>a. if a div 4096 = g then 0 else phys_mem s1 a\<rparr>"
    have "alloc_pt_page s = Some (?s, table_va s g)"
      using a(1) Some nz off zero_range [of s1 s1 g] l
      by (simp add: alloc_pt_page_def simple_get_free_page_def get_free_page_def get_free_pages_def table_va_def phys_to_virt_def)
    moreover have "pmm_ok ?s" "hhdm_ok ?s" "pmm_frame s ?s" "pavail ?s = pavail s1"
      using fr h1 by (simp_all add: pmm_ok_def zones_ok_def zone_hi_def hhdm_ok_def pmm_frame_def pavail_def)
    ultimately show ?thesis using that(2) [of ?s g] g nz a(3) by simp
  qed
qed

lemma tbl_None_append: "tbl s r q = None \<Longrightarrow> tbl s r (x @ q) = None"
  by (induction x) simp_all

lemma set_path: "suffix (j # p) q \<Longrightarrow> q \<in> paths \<Longrightarrow> j < 512"
  by (auto simp: suffix_def paths_def)

text \<open>The tables after a fresh empty one was hooked in at entry \<open>i\<close> of the table at \<open>p\<close>.\<close>

lemma hook_tbl:
  assumes ok: "tables_ok s r" and p: "p \<in> paths" "length p \<le> 2" "i < 512" "tbl s r p = Some f" "tbl s r (i # p) = None"
    and g: "g \<in> pavail s" "child s' (p \<noteq> []) f i = Some g"
    and e: "\<forall>h. \<forall>j < 512. \<not> (h = f \<and> j = i) \<longrightarrow> entry s' h j = (if h = g then 0 else entry s h j)"
    and q: "q \<in> paths"
  shows "tbl s' r q = (if q = i # p then Some g else tbl s r q)"
proof -
  note inj = tables_okD(5) [OF ok p(1,4)] and fresh = tables_okD(4) [OF ok]
  have same: "tbl s' r q' = tbl s r q'" if q': "q' \<in> paths" "\<not> suffix (i # p) q'" for q'
  proof (rule tbl_same)
    fix j p' h assume a: "suffix (j # p') q'" "tbl s r p' = Some h"
    have p': "p' \<in> paths" by (rule paths_tl [OF suffix_ConsD [OF a(1)] q'(1)])
    have "\<not> (h = f \<and> j = i)" using inj [OF p'] a q'(2) by blast
    moreover have "h \<noteq> g" using fresh [OF p' a(2)] g(1) by blast
    ultimately show "entry s' h j = entry s h j" using e set_path [OF a(1) q'(1)] by simp
  qed
  have "\<not> suffix (i # p) p" using suffix_length_le by fastforce
  then have new: "tbl s' r (i # p) = Some g" using same [OF p(1)] p(4) g(2) by simp
  have nf: "g \<noteq> f" using fresh [OF p(1,4)] g(1) by blast
  have none: "tbl s' r (j # i # p) = None" if "j < 512" for j
    using new e nf that by (simp add: child_def)
  show ?thesis
  proof (cases "suffix (i # p) q")
    case True
    then obtain x where x: "q = x @ i # p" by (auto simp: suffix_def)
    show ?thesis
    proof (cases "x = []")
      case False
      then obtain y j where y: "x = y @ [j]" using rev_exhaust by blast
      have "j < 512" using x y q by (simp add: paths_def)
      then have "tbl s' r q = None" using tbl_None_append [OF none, of j y] x y by simp
      then show ?thesis using tbl_None_append [OF p(5), of x] x False by simp
    qed (use x new in simp)
  qed (use same [OF q] in auto)
qed

lemma hook_grown:
  assumes ok: "tables_ok s r" and p: "p \<in> paths" "length p \<le> 2" "i < 512" "tbl s r p = Some f" "tbl s r (i # p) = None"
    and g: "g \<in> pavail s" "child s' (p \<noteq> []) f i = Some g" "g < length (page_array s)"
    and e: "\<forall>h. \<forall>j < 512. \<not> (h = f \<and> j = i) \<longrightarrow> entry s' h j = (if h = g then 0 else entry s h j)"
    and s': "pmm_ok s'" "hhdm_ok s'" "pmm_frame s s'" "pavail s' = pavail s - {g}"
    and m: "\<And>a. a div 4096 \<noteq> f \<Longrightarrow> a div 4096 \<noteq> g \<Longrightarrow> phys_mem s' a = phys_mem s a"
  shows "grown s s' r (last (i # p)) \<and> tbl s' r (i # p) = Some g"
proof -
  note t = hook_tbl [OF ok p g(1,2) e]
  have ip: "i # p \<in> paths" using p by (simp add: paths_def)
  have len: "length (page_array s') = length (page_array s)" using s'(3) by (simp add: pmm_frame_def)
  have fresh: "tbl s r q \<noteq> Some g" if "q \<in> paths" for q using tables_okD(4) [OF ok that] g(1) by blast
  have ok': "tables_ok s' r"
    unfolding tables_ok_def
  proof (intro conjI ballI allI impI s'(1,2))
    fix q h assume q: "q \<in> paths" "tbl s' r q = Some h"
    note h = q(2) [unfolded t [OF q(1)]]
    have "h = g \<or> tbl s r q = Some h" using h by (auto split: if_splits)
    then show "h < length (page_array s')" "h \<notin> pavail s'"
      using tables_okD(3,4) [OF ok q(1)] g(3) len s'(4) by auto
    show "q' = q" if "q' \<in> paths" "tbl s' r q' = Some h" for q'
      using that(2) [unfolded t [OF that(1)]] h fresh [OF that(1)] fresh [OF q(1)] tables_okD(5) [OF ok q(1) _ that(1)]
      by (auto split: if_splits)
  qed
  have new: "tbl s' r (i # p) = Some g" using t [OF ip] by simp
  have "lookup s' r va = lookup s r va" for va
  proof (cases "wpath va = i # p")
    case True
    moreover have "g \<noteq> f" using fresh [OF p(1)] p(4) by blast
    ultimately show ?thesis using e new p(5) by (simp add: lookup_def del: tbl.simps)
  next
    case False
    then have tt: "tbl s' r (wpath va) = tbl s r (wpath va)" using t [of "wpath va"] by simp
    have "entry s' h (leaf va) = entry s h (leaf va)" if h: "tbl s r (wpath va) = Some h" for h
    proof -
      have "h \<noteq> g" using fresh [OF wpath_paths] h by blast
      moreover have "h \<noteq> f" using tables_okD(5) [OF ok p(1,4) wpath_paths, of va] h p(2) length_wpath [of va] by auto
      ultimately show ?thesis using e by simp
    qed
    then show ?thesis using tt by (simp add: lookup_def split: option.split)
  qed
  moreover have "phys_mem s' a = phys_mem s a" if "a div 4096 \<notin> branch s r (last (i # p)) \<union> pavail s" for a
  proof -
    have "f \<in> branch s r (last (i # p))" by (rule branchI [OF p(1) _ p(4)]) simp
    then show ?thesis using m [of a] that g(1) by blast
  qed
  moreover have "g \<in> branch s' r (last (i # p))" by (rule branchI [OF ip _ new]) simp
  ultimately show ?thesis
    unfolding grown_def using ok' s' t p(5) g(1) new by (auto simp del: tbl.simps split: if_splits)
qed

lemma grown_same:
  assumes ok: "tables_ok s r" and s': "pmm_ok s'" "hhdm_ok s'" "pmm_frame s s'" "pavail s' = pavail s" "phys_mem s' = phys_mem s"
  shows "grown s s' r i" "tbl s' r q = tbl s r q"
proof -
  have e: "entry s' = entry s" using s'(5) by (intro ext) (simp add: entry_def)
  have t: "tbl s' r q = tbl s r q" for q by (rule tbl_same) (simp add: e)
  have "tables_ok s' r" using ok s' by (simp add: tables_ok_def t pmm_frame_def)
  moreover have "lookup s' r va = lookup s r va" for va by (simp add: lookup_def t e split: option.split)
  ultimately show "grown s s' r i" "tbl s' r q = tbl s r q" using s' by (simp_all add: grown_def t)
qed

lemma frame_addr: "PFN_TO_PHYS (frame_of e) = e AND PTE_ADDR_MASK"
proof -
  have "frame_of e = unat (drop_bit 12 (e AND PTE_ADDR_MASK))"
    unfolding frame_of_def unat_drop_bit_eq by (simp add: drop_bit_eq_div)
  then have "PFN_TO_PHYS (frame_of e) = push_bit 12 (drop_bit 12 (e AND PTE_ADDR_MASK))"
    by (simp add: PFN_TO_PHYS_def PAGE_SHIFT_def)
  also have "\<dots> = e AND PTE_ADDR_MASK" by (rule bit_word_eqI) (auto simp: bit_simps mask_bits)
  finally show ?thesis .
qed

lemma fresh_entry:
  assumes "\<And>a. phys_mem s1 a = (if a div 4096 = g then 0 else phys_mem s a)" "j < 512"
  shows "entry s1 h j = (if h = g then 0 else entry s h j)"
proof (cases "h = g")
  case True
  have "get_u64 (phys_mem s1) (g * 4096 + 8 * j) = 0"
  proof (rule get_zero)
    fix x assume "g * 4096 + 8 * j \<le> x" "x < g * 4096 + 8 * j + 8"
    then have "x div 4096 = g" using assms(2) by (intro div_nat_eqI) simp_all
    then show "phys_mem s1 x = 0" using assms(1) by simp
  qed
  then show ?thesis using True by (simp add: entry_def)
next
  case False
  then show ?thesis using entry_mem [of h s1 s j] assms by simp
qed

lemma store_other:
  assumes "hhdm_ok s" "f < length (page_array s)" "i < 512" "a div 4096 \<noteq> f"
  shows "phys_mem (store64 s (table_va s f + 8 * of_nat i) w) a = phys_mem s a"
proof -
  have "\<not> (f * 4096 + 8 * i \<le> a \<and> a < f * 4096 + 8 * i + 8)"
    using assms(3,4) div_nat_eqI [of 4096 f a] by auto
  then show ?thesis using entry_address(1) [OF assms(1-3)] by (auto simp: store64_def put_u64_def)
qed

text \<open>One step of the walk: the table is there, or it is refused, or it is created.\<close>

lemma next_table_ok:
  assumes ok: "tables_ok s r" and p: "p \<in> paths" "length p \<le> 2" "i < 512" "tbl s r p = Some f"
  obtains g where "next_table s (table_va s f + 8 * of_nat i) c (p \<noteq> []) = Some (s, table_va s g)" "tbl s r (i # p) = Some g"
  | s' where "next_table s (table_va s f + 8 * of_nat i) c (p \<noteq> []) = Some (s', 0)" "tbl s r (i # p) = None"
      "grown s s' r (last (i # p))" "tbl s' r (i # p) = None" "\<not> c \<longrightarrow> s' = s"
  | s' g where "c" "next_table s (table_va s f + 8 * of_nat i) c (p \<noteq> []) = Some (s', table_va s g)" "tbl s r (i # p) = None"
      "grown s s' r (last (i # p))" "tbl s' r (i # p) = Some g"
proof -
  note pm = tables_okD(1-4) [OF ok p(1,4)]
  let ?va = "table_va s f + 8 * of_nat i"
  have ld: "load64 s ?va = entry s f i" using load_entry [OF pm(2,3) p(3)] .
  show ?thesis
  proof (cases "entry s f i AND PTE_PRESENT = 0")
    case False
    show ?thesis
    proof (cases "p \<noteq> [] \<and> entry s f i AND PTE_HUGE \<noteq> 0")
      case True
      then show ?thesis using that(2) [of s] False p(4) ld grown_refl [OF ok] by (simp add: next_table_def child_def)
    next
      case nh: False
      then have c: "tbl s r (i # p) = Some (frame_of (entry s f i))" using False p(4) by (auto simp: child_def Let_def)
      have "phys_to_virt s (entry s f i AND PTE_ADDR_MASK) = table_va s (frame_of (entry s f i))"
        by (simp add: table_va_def frame_addr)
      then show ?thesis using that(1) [OF _ c] False nh ld by (auto simp: next_table_def)
    qed
  next
    case True
    then have none: "tbl s r (i # p) = None" using p(4) by (simp add: child_def)
    show ?thesis
    proof (cases c)
      case False
      then show ?thesis using that(2) [of s] none True ld grown_refl [OF ok] by (simp add: next_table_def del: tbl.simps)
    next
      case c: True
      show ?thesis
      proof (rule alloc_pt_page_ok [OF pm(1,2)])
        fix s1 assume a: "alloc_pt_page s = Some (s1, 0)" "pmm_ok s1" "hhdm_ok s1" "pmm_frame s s1" "pavail s1 = pavail s" "phys_mem s1 = phys_mem s"
        then have "grown s s1 r (last (i # p))" "tbl s1 r (i # p) = None" using grown_same [OF ok a(2-6)] none by metis+
        then show ?thesis using that(2) [of s1] none True c ld a(1) by (simp add: next_table_def del: tbl.simps)
      next
        fix s1 g assume a: "alloc_pt_page s = Some (s1, table_va s g)" "table_va s g \<noteq> 0" "pmm_ok s1" "hhdm_ok s1" "pmm_frame s s1" "g \<in> pavail s"
          "g < length (page_array s)" "pavail s1 = pavail s - {g}" "\<And>a. phys_mem s1 a = (if a div 4096 = g then 0 else phys_mem s a)"
        let ?w = "PFN_TO_PHYS g OR PTE_PRESENT OR PTE_WRITABLE OR PTE_USER" and ?s = "store64 s1 ?va (PFN_TO_PHYS g OR PTE_PRESENT OR PTE_WRITABLE OR PTE_USER)"
        have va: "?va = table_va s1 f + 8 * of_nat i" using a(5) by (simp add: table_va_def phys_to_virt_def pmm_frame_def)
        have "virt_to_phys s1 (table_va s g) = PFN_TO_PHYS g" using a(5) by (simp add: table_va_def phys_to_virt_def virt_to_phys_def pmm_frame_def)
        then have nt: "next_table s ?va c (p \<noteq> []) = Some (?s, table_va s g)"
          using True c ld a(1,2) by (simp add: next_table_def)
        have fl: "f < length (page_array s1)" using pm(3) a(5) by (simp add: pmm_frame_def)
        have en: "entry ?s h j = (if h = f \<and> j = i then ?w else if h = g then 0 else entry s h j)" if "j < 512" for h j
          unfolding va store_entry [OF a(4) fl p(3) that] fresh_entry [OF a(9) that] ..
        have g40: "g < 2 ^ 40" using a(7) pm(2) by (simp add: hhdm_ok_def)
        have "child ?s (p \<noteq> []) f i = Some g" using en [OF p(3), of f] frame_entry [OF g40] by (simp add: child_def)
        moreover have "phys_mem ?s a = phys_mem s a" if "a div 4096 \<noteq> f" "a div 4096 \<noteq> g" for a
          using store_other [OF a(4) fl p(3), of a] that a(9) va by simp
        ultimately have "grown s ?s r (last (i # p)) \<and> tbl ?s r (i # p) = Some g"
          using a en by (intro hook_grown [OF ok p none a(6)]) (auto simp: pmm_frame_def)
        then show ?thesis using that(3) [OF c nt none] by blast
      qed
    qed
  qed
qed

lemma table_va_frame: "pmm_frame s s' \<Longrightarrow> table_va s' f = table_va s f"
  by (simp add: table_va_def phys_to_virt_def pmm_frame_def)

lemma table_va_0: "hhdm_ok s \<Longrightarrow> f < length (page_array s) \<Longrightarrow> table_va s f \<noteq> 0"
  using entry_address(2) [of s f 0] by simp

text \<open>What the walk along a path gives: the table there, or 0 when there is none.\<close>

definition level :: "pmm_state \<Rightarrow> nat \<Rightarrow> nat list \<Rightarrow> bool \<Rightarrow> pmm_state \<Rightarrow> u64 \<Rightarrow> bool" where
  "level s r q c s' t \<longleftrightarrow> grown s s' r (last q) \<and> (tbl s r q \<noteq> None \<or> \<not> c \<longrightarrow> s' = s) \<and>
     (case tbl s' r q of None \<Rightarrow> t = 0 | Some f \<Rightarrow> t = table_va s f \<and> t \<noteq> 0)"

lemma next_level:
  assumes ok: "tables_ok s r" and p: "p \<in> paths" "length p \<le> 2" "i < 512" "tbl s r p = Some f"
  shows "\<exists>s' t. next_table s (table_va s f + 8 * of_nat i) c (p \<noteq> []) = Some (s', t) \<and> level s r (i # p) c s' t"
proof -
  have ip: "i # p \<in> paths" using p by (simp add: paths_def)
  have nz: "table_va s g \<noteq> 0" if "tbl s' r (i # p) = Some g" "grown s s' r j" for s' g j
  proof -
    have "g < length (page_array s')" using tables_okD(3) [OF grownD(1) [OF that(2)] ip that(1)] .
    then show ?thesis using grownD(2) [OF that(2)] table_va_0 [OF tables_ok_pmm(2) [OF ok]] by (simp add: pmm_frame_def)
  qed
  show ?thesis
  proof (rule next_table_ok [OF ok p, of c])
    fix g assume "next_table s (table_va s f + 8 * word_of_nat i) c (p \<noteq> []) = Some (s, table_va s g)" "tbl s r (i # p) = Some g"
    then show ?thesis using grown_refl [OF ok] nz by (auto simp: level_def simp del: tbl.simps)
  next
    fix s' assume "next_table s (table_va s f + 8 * word_of_nat i) c (p \<noteq> []) = Some (s', 0)" "tbl s r (i # p) = None"
      "grown s s' r (last (i # p))" "tbl s' r (i # p) = None" "\<not> c \<longrightarrow> s' = s"
    then show ?thesis by (auto simp: level_def simp del: tbl.simps)
  next
    fix s' g assume "c" "next_table s (table_va s f + 8 * word_of_nat i) c (p \<noteq> []) = Some (s', table_va s g)" "tbl s r (i # p) = None"
      "grown s s' r (last (i # p))" "tbl s' r (i # p) = Some g"
    then show ?thesis using nz by (auto simp: level_def simp del: tbl.simps)
  qed
qed

lemma level_fail:
  assumes "level s r p c s' 0" "p \<noteq> []" "x @ p \<in> paths"
  shows "level s r (x @ p) c s' 0"
proof -
  have n: "tbl s' r p = None" using assms(1) by (auto simp: level_def split: option.splits)
  then have "tbl s' r (x @ p) = None" by (rule tbl_None_append)
  moreover have "tbl s r (x @ p) = None"
    using tbl_None_append [of s r p x] assms(1) n by (auto simp: level_def)
  ultimately show ?thesis using assms(1,2) by (auto simp: level_def)
qed

lemma level_step:
  assumes 1: "level s r p c s1 t1" "t1 \<noteq> 0" "p \<noteq> []" "length p \<le> 2" "p \<in> paths" and i: "i < 512"
  shows "\<exists>s2 t2. next_table s1 (t1 + 8 * of_nat i) c True = Some (s2, t2) \<and> level s r (i # p) c s2 t2"
proof -
  obtain f where f: "tbl s1 r p = Some f" "t1 = table_va s f" and g: "grown s s1 r (last p)" and e: "tbl s r p \<noteq> None \<or> \<not> c \<longrightarrow> s1 = s"
    using 1(1,2) by (auto simp: level_def split: option.splits)
  have tv: "table_va s1 h = table_va s h" for h using table_va_frame [OF grownD(2) [OF g]] .
  obtain s2 t2 where n: "next_table s1 (table_va s1 f + 8 * of_nat i) c (p \<noteq> []) = Some (s2, t2)" "level s1 r (i # p) c s2 t2"
    using next_level [OF grownD(1) [OF g] 1(5,4) i f(1)] by blast
  have "level s r (i # p) c s2 t2"
    unfolding level_def
  proof (intro conjI impI)
    show "grown s s2 r (last (i # p))" using grown_trans [OF g] n(2) 1(3) by (simp add: level_def)
    have "tbl s r (i # p) \<noteq> None \<Longrightarrow> tbl s r p \<noteq> None" by (cases "tbl s r p") simp_all
    then show "s2 = s" if "tbl s r (i # p) \<noteq> None \<or> \<not> c" using that e n(2) unfolding level_def by metis
    show "case tbl s2 r (i # p) of None \<Rightarrow> t2 = 0 | Some f \<Rightarrow> t2 = table_va s f \<and> t2 \<noteq> 0"
      using n(2) tv by (auto simp: level_def simp del: tbl.simps split: option.splits)
  qed
  then show ?thesis using n(1) 1(3) f(2) tv by auto
qed

text \<open>The whole walk.\<close>

lemma walk_ok:
  assumes ok: "tables_ok s r"
  shows "\<exists>s' t. get_or_create_pte s (table_va s r) va c = Some (s', if t = 0 then 0 else t + 8 * of_nat (leaf va)) \<and>
    level s r (wpath va) c s' t"
proof -
  let ?i4 = "unat (PML4_INDEX va)" and ?i3 = "unat (PDPT_INDEX va)" and ?i2 = "unat (PD_INDEX va)"
  have b: "?i4 < 512" "?i3 < 512" "?i2 < 512" by (simp_all add: PML4_INDEX_def PDPT_INDEX_def PD_INDEX_def index_bound)
  have p: "[?i4] \<in> paths" "[?i3, ?i4] \<in> paths" "[?i2, ?i3, ?i4] \<in> paths" using b by (simp_all add: paths_def)
  note wpath_def [simp] leaf_def [simp] and get = get_or_create_pte_def [of s "table_va s r" va c]
  obtain s1 t1 where 1: "next_table s (table_va s r + 8 * PML4_INDEX va) c False = Some (s1, t1)" "level s r [?i4] c s1 t1"
    using next_level [OF ok paths_Nil _ b(1), of r c] by auto
  show ?thesis
  proof (cases "t1 = 0")
    case True
    then show ?thesis using 1 level_fail [of s r "[?i4]" c s1 "[?i2, ?i3]"] p(3) by (auto simp: get)
  next
    case t1: False
    obtain s2 t2 where 2: "next_table s1 (t1 + 8 * PDPT_INDEX va) c True = Some (s2, t2)" "level s r [?i3, ?i4] c s2 t2"
      using level_step [OF 1(2) t1 _ _ p(1) b(2)] by auto
    show ?thesis
    proof (cases "t2 = 0")
      case True
      then show ?thesis using 1(1) t1 2 level_fail [of s r "[?i3, ?i4]" c s2 "[?i2]"] p(3) by (auto simp: get)
    next
      case t2: False
      obtain s3 t3 where 3: "next_table s2 (t2 + 8 * PD_INDEX va) c True = Some (s3, t3)" "level s r [?i2, ?i3, ?i4] c s3 t3"
        using level_step [OF 2(2) t2 _ _ p(2) b(3)] by auto
      then show ?thesis using 1(1) t1 2(1) t2 by (auto simp: get)
    qed
  qed
qed

subsection \<open>Changes local to one address space\<close>

definition within :: "pmm_state \<Rightarrow> pmm_state \<Rightarrow> nat \<Rightarrow> bool" where
  "within s s' r \<longleftrightarrow> tables_ok s' r \<and> pmm_frame s s' \<and> pavail s' \<subseteq> pavail s \<and>
     pavail s' \<union> utables s' r = pavail s \<union> utables s r \<and>
     (\<forall>q \<in> paths. \<forall>f. tbl s' r q = Some f \<longrightarrow> tbl s r q = Some f \<or> f \<in> pavail s) \<and>
     (\<forall>a. a div 4096 \<notin> utables s r \<union> pavail s \<longrightarrow> phys_mem s' a = phys_mem s a)"

lemma withinD:
  assumes "within s s' r"
  shows "tables_ok s' r" "pmm_frame s s'" "pavail s' \<subseteq> pavail s" "pavail s' \<union> utables s' r = pavail s \<union> utables s r"
    "q \<in> paths \<Longrightarrow> tbl s' r q = Some f \<Longrightarrow> tbl s r q = Some f \<or> f \<in> pavail s"
    "a div 4096 \<notin> utables s r \<Longrightarrow> a div 4096 \<notin> pavail s \<Longrightarrow> phys_mem s' a = phys_mem s a"
  using assms unfolding within_def by blast+

lemma utablesI: "q \<in> paths \<Longrightarrow> q = [] \<or> last q < 256 \<Longrightarrow> tbl s r q = Some f \<Longrightarrow> f \<in> utables s r"
  unfolding utables_def by blast

lemma utablesE:
  assumes "f \<in> utables s r"
  obtains q where "q \<in> paths" "q = [] \<or> last q < 256" "tbl s r q = Some f"
  using assms unfolding utables_def by blast

lemma tablesI: "q \<in> paths \<Longrightarrow> tbl s r q = Some f \<Longrightarrow> f \<in> tables s r"
  unfolding tables_def by blast

lemma utables_sub: "utables s r \<subseteq> tables s r"
  unfolding utables_def tables_def by blast

lemma branch_sub: "i < 256 \<Longrightarrow> branch s r i \<subseteq> utables s r"
  unfolding utables_def branch_def by blast

lemma grown_within:
  assumes g: "grown s s' r i" and i: "i < 256"
  shows "within s s' r"
proof -
  have "utables s r \<subseteq> utables s' r"
    by (rule subsetI, erule utablesE) (rule utablesI, assumption+, rule grownD(4) [OF g])
  moreover have "utables s' r \<subseteq> utables s r \<union> pavail s"
  proof
    fix f assume "f \<in> utables s' r"
    then obtain q where q: "q \<in> paths" "q = [] \<or> last q < 256" "tbl s' r q = Some f" by (rule utablesE)
    then show "f \<in> utables s r \<union> pavail s" using grownD(5) [OF g q(1,3)] utablesI [OF q(1,2)] by blast
  qed
  ultimately have "pavail s' \<union> utables s' r = pavail s \<union> utables s r"
    using grownD(3,6) [OF g] branch_sub [OF i, of s' r] by blast
  then show ?thesis
    unfolding within_def using grownD(1-3) [OF g] grownD(5,8) [OF g] branch_sub [OF i, of s r] by blast
qed

lemma within_refl: "tables_ok s r \<Longrightarrow> within s s r"
  by (auto simp: within_def pmm_frame_def)

lemma within_trans:
  assumes 1: "within s s1 r" and 2: "within s1 s2 r"
  shows "within s s2 r"
  unfolding within_def
proof (intro conjI allI ballI impI)
  show "tables_ok s2 r" using withinD(1) [OF 2] .
  show "pmm_frame s s2" using withinD(2) [OF 1] withinD(2) [OF 2] by (simp add: pmm_frame_def)
  show "pavail s2 \<subseteq> pavail s" using withinD(3) [OF 1] withinD(3) [OF 2] by blast
  show "pavail s2 \<union> utables s2 r = pavail s \<union> utables s r" using withinD(4) [OF 1] withinD(4) [OF 2] by simp
  show "tbl s r q = Some f \<or> f \<in> pavail s" if "q \<in> paths" "tbl s2 r q = Some f" for q f
    using withinD(5) [OF 2 that] withinD(5) [OF 1 that(1), of f] withinD(3) [OF 1] by blast
  fix a assume a: "a div 4096 \<notin> utables s r \<union> pavail s"
  then have "phys_mem s1 a = phys_mem s a" using withinD(6) [OF 1] by blast
  moreover have "phys_mem s2 a = phys_mem s1 a" using a withinD(6) [OF 2] withinD(4) [OF 1] by blast
  ultimately show "phys_mem s2 a = phys_mem s a" by simp
qed

lemma tbl_mem:
  assumes "\<And>a. a div 4096 \<in> tables s r \<Longrightarrow> phys_mem s' a = phys_mem s a" "q \<in> paths"
  shows "tbl s' r q = tbl s r q"
proof (rule tbl_same)
  fix j p f assume a: "suffix (j # p) q" "tbl s r p = Some f"
  have "f \<in> tables s r" using tablesI [OF paths_tl [OF suffix_ConsD [OF a(1)] assms(2)] a(2)] .
  then show "entry s' f j = entry s f j" using assms(1) by (intro entry_mem set_path [OF a(1) assms(2)]) auto
qed

lemma lookup_mem:
  assumes "\<And>a. a div 4096 \<in> tables s r \<Longrightarrow> phys_mem s' a = phys_mem s a"
  shows "lookup s' r va = lookup s r va"
proof -
  have t: "tbl s' r (wpath va) = tbl s r (wpath va)" by (rule tbl_mem [OF assms wpath_paths])
  have "entry s' f (leaf va) = entry s f (leaf va)" if "tbl s r (wpath va) = Some f" for f
    using tablesI [OF wpath_paths that] assms by (intro entry_mem leaf_bound) auto
  then show ?thesis using t by (simp add: lookup_def split: option.split)
qed

lemma tables_mem:
  assumes "\<And>a. a div 4096 \<in> tables s r \<Longrightarrow> phys_mem s' a = phys_mem s a"
  shows "tables s' r = tables s r" "utables s' r = utables s r"
  using tbl_mem [OF assms] by (auto simp: tables_def utables_def)

lemma tables_ok_mem:
  assumes "tables_ok s r" "\<And>a. a div 4096 \<in> tables s r \<Longrightarrow> phys_mem s' a = phys_mem s a"
    "pmm_ok s'" "hhdm_ok s'" "length (page_array s') = length (page_array s)" "tables s r \<inter> pavail s' = {}"
  shows "tables_ok s' r"
  unfolding tables_ok_def
proof (intro conjI ballI allI impI assms(3,4))
  fix q f assume q: "q \<in> paths" "tbl s' r q = Some f"
  have f: "tbl s r q = Some f" using q tbl_mem [OF assms(2)] by simp
  show "f < length (page_array s')" "f \<notin> pavail s'"
    using tables_okD(3) [OF assms(1) q(1) f] assms(5,6) tablesI [OF q(1) f] by auto
  show "q' = q" if "q' \<in> paths" "tbl s' r q' = Some f" for q'
    using tables_okD(5) [OF assms(1) q(1) f that(1)] that(2) tbl_mem [OF assms(2) that(1)] by simp
qed

lemma tables_notin: "tables_ok s r \<Longrightarrow> f \<in> tables s r \<Longrightarrow> f \<notin> pavail s"
  by (auto simp: tables_def dest: tables_okD(4))

lemma tables_less: "tables_ok s r \<Longrightarrow> f \<in> tables s r \<Longrightarrow> f < length (page_array s)"
  by (auto simp: tables_def dest: tables_okD(3))

lemma spaces_okD:
  assumes "spaces_ok s R"
  shows "r \<in> R \<Longrightarrow> tables_ok s r" "r \<in> R \<Longrightarrow> r' \<in> R \<Longrightarrow> r \<noteq> r' \<Longrightarrow> f \<in> utables s r \<Longrightarrow> f \<notin> tables s r'"
  using assms unfolding spaces_ok_def by blast+

text \<open>A change within one address space keeps the invariant and what the others see.\<close>

lemma within_spaces:
  assumes ok: "spaces_ok s R" and r: "r \<in> R" and w: "within s s' r"
  shows "spaces_ok s' R" "r' \<in> R \<Longrightarrow> r' \<noteq> r \<Longrightarrow> lookup s' r' va = lookup s r' va"
proof -
  note pm = tables_ok_pmm [OF withinD(1) [OF w]]
  have m: "phys_mem s' a = phys_mem s a" if "r' \<in> R" "r' \<noteq> r" "a div 4096 \<in> tables s r'" for r' a
    using withinD(6) [OF w, of a] spaces_okD(2) [OF ok r that(1)] tables_notin [OF spaces_okD(1) [OF ok that(1)] that(3)] that by blast
  show "lookup s' r' va = lookup s r' va" if "r' \<in> R" "r' \<noteq> r" by (rule lookup_mem [OF m [OF that]])
  have t: "tables s' r' = tables s r'" "utables s' r' = utables s r'" if "r' \<in> R" "r' \<noteq> r" for r'
    using tables_mem [OF m [OF that]] by blast+
  have tr: "tables s' r \<subseteq> tables s r \<union> pavail s" "utables s' r \<subseteq> utables s r \<union> pavail s"
    using withinD(4,5) [OF w] by (auto simp: tables_def)
  have disj: "tables s r' \<inter> pavail s = {}" if "r' \<in> R" for r' using tables_notin [OF spaces_okD(1) [OF ok that]] by blast
  show "spaces_ok s' R"
    unfolding spaces_ok_def
  proof (intro conjI ballI impI)
    fix r1 assume r1: "r1 \<in> R"
    show "tables_ok s' r1"
    proof (cases "r1 = r")
      case False
      show ?thesis
        using withinD(2,3) [OF w] disj [OF r1]
        by (intro tables_ok_mem [OF spaces_okD(1) [OF ok r1] m [OF r1 False] pm]) (auto simp: pmm_frame_def)
    qed (use withinD(1) [OF w] in simp)
    fix r2 assume r2: "r2 \<in> R" "r1 \<noteq> r2"
    have d: "utables s r1 \<inter> tables s r2 = {}" using spaces_okD(2) [OF ok r1 r2] by blast
    consider "r1 = r" | "r2 = r" | "r1 \<noteq> r" "r2 \<noteq> r" by blast
    then show "utables s' r1 \<inter> tables s' r2 = {}"
    proof cases
      case 1
      then have "tables s' r2 = tables s r2" using t(1) r2 by blast
      then show ?thesis using 1 d tr(2) disj [OF r2(1)] by blast
    next
      case 2
      then have "utables s' r1 = utables s r1" using t(2) r1 r2 by blast
      then show ?thesis using 2 d tr(1) disj [OF r1] utables_sub [of s r1] by blast
    next
      case 3
      then show ?thesis using d t [OF r1 3(1)] t [OF r2(1) 3(2)] by simp
    qed
  qed
qed

subsection \<open>Mapping and unmapping\<close>

lemma leaf_store:
  fixes w :: u64
  assumes ok: "tables_ok s r" and f: "tbl s r (wpath va) = Some f"
  defines "s' \<equiv> store64 s (table_va s f + 8 * of_nat (leaf va)) w"
  shows "user_va va \<Longrightarrow> within s s' r" "tables_ok s' r"
    "lookup s' r va' = (if page_of va' = page_of va then if w AND PTE_PRESENT = 0 then None else Some w else lookup s r va')"
proof -
  note pm = tables_okD(1-4) [OF ok wpath_paths f] and inj = tables_okD(5) [OF ok wpath_paths f]
  note e = store_entry [OF pm(2,3) leaf_bound [of va], of _ w, folded s'_def]
  have t: "tbl s' r q = tbl s r q" if "q \<in> paths" for q
  proof (rule tbl_same)
    fix j p h assume a: "suffix (j # p) q" "tbl s r p = Some h"
    have "p \<in> paths" by (rule paths_tl [OF suffix_ConsD [OF a(1)] that])
    moreover have "length (j # p) \<le> 3" using suffix_length_le [OF a(1)] that by (simp add: paths_def)
    ultimately have "h \<noteq> f" using inj [of p] a(2) by auto
    then show "entry s' h j = entry s h j" using e [OF set_path [OF a(1) that], of h] by simp
  qed
  show ok': "tables_ok s' r" using ok t by (auto simp: tables_ok_def s'_def)
  have u: "utables s' r = utables s r" using t by (auto simp: utables_def)
  have fu: "f \<in> utables s r" if "user_va va" using that by (intro utablesI [OF wpath_paths _ f]) (simp add: wpath_def user_va_def)
  have m: "phys_mem s' a = phys_mem s a" if "user_va va" "a div 4096 \<notin> utables s r \<union> pavail s" for a
    unfolding s'_def using fu [OF that(1)] that(2) by (intro store_other [OF pm(2,3) leaf_bound]) blast
  show "within s s' r" if "user_va va"
    unfolding within_def using ok' t u m [OF that] by (simp add: pmm_frame_def s'_def)
  show "lookup s' r va' = (if page_of va' = page_of va then if w AND PTE_PRESENT = 0 then None else Some w else lookup s r va')"
  proof (cases "tbl s r (wpath va')")
    case None
    then have "page_of va' \<noteq> page_of va" using f by (auto simp: page_of_eq)
    then show ?thesis using None t by (simp add: lookup_def)
  next
    case (Some h)
    have "h = f \<and> leaf va' = leaf va \<longleftrightarrow> page_of va' = page_of va"
      using inj [OF wpath_paths, of va'] Some f by (auto simp: page_of_eq)
    then show ?thesis using e [OF leaf_bound, of h va'] Some t by (auto simp: lookup_def)
  qed
qed

definition make_pte :: "u64 \<Rightarrow> u64 \<Rightarrow> u64" where
  "make_pte pa prot = (pa AND PTE_ADDR_MASK) OR prot OR PTE_PRESENT"

lemma make_pte_present: "make_pte pa prot AND PTE_PRESENT \<noteq> 0"
  by (simp add: make_pte_def PTE_PRESENT_def and_one_eq mod_2_eq_odd even_or_iff)

lemma lookup_page: "page_of va' = page_of va \<Longrightarrow> lookup s r va' = lookup s r va"
  by (simp add: page_of_eq lookup_def split: option.split)

lemma level_pte:
  assumes "level s r (wpath va) c s' t" "t \<noteq> 0"
  obtains f where "tbl s' r (wpath va) = Some f" "t = table_va s' f" "t + 8 * of_nat (leaf va) \<noteq> 0"
    "load64 s' (t + 8 * of_nat (leaf va)) = entry s' f (leaf va)"
proof -
  obtain f where f: "tbl s' r (wpath va) = Some f" "t = table_va s f" and g: "grown s s' r (last (wpath va))"
    using assms by (auto simp: level_def split: option.splits)
  note pm = tables_okD(2,3) [OF grownD(1) [OF g] wpath_paths f(1)]
  have "t = table_va s' f" using f(2) table_va_frame [OF grownD(2) [OF g]] by simp
  then show ?thesis using that [OF f(1)] entry_address(2) [OF pm leaf_bound] load_entry [OF pm leaf_bound] by simp
qed

lemma map_ok:
  assumes ok: "tables_ok s r"
  shows "\<exists>s' c. paging_map s (table_va s r) va pa prot = Some (s', c) \<and> (c = 0 \<or> c = -1 \<and> lookup s r va = None) \<and> tables_ok s' r \<and> pmm_frame s s' \<and>
    (user_va va \<longrightarrow> within s s' r) \<and>
    (\<forall>va'. lookup s' r va' = (if c = 0 \<and> page_of va' = page_of va then Some (make_pte pa prot) else lookup s r va'))"
proof -
  obtain s1 t where w: "get_or_create_pte s (table_va s r) va True = Some (s1, if t = 0 then 0 else t + 8 * of_nat (leaf va))"
    and l: "level s r (wpath va) True s1 t" using walk_ok [OF ok] by blast
  have g: "grown s s1 r (unat (PML4_INDEX va))" using l by (simp add: level_def wpath_def)
  have win: "user_va va \<Longrightarrow> within s s1 r" using grown_within [OF g] by (simp add: user_va_def)
  show ?thesis
  proof (cases "t = 0")
    case True
    have "lookup s1 r va = None" using l True by (auto simp: level_def lookup_def split: option.splits)
    then show ?thesis using w True grownD(1,2,7) [OF g] win by (simp add: paging_map_def)
  next
    case False
    obtain f where f: "tbl s1 r (wpath va) = Some f" "t = table_va s1 f" "t + 8 * of_nat (leaf va) \<noteq> 0"
      using level_pte [OF l False] by blast
    note st = leaf_store [OF grownD(1) [OF g] f(1), of "make_pte pa prot"]
    have "pmm_frame s (store64 s1 (table_va s1 f + 8 * of_nat (leaf va)) (make_pte pa prot))"
      using grownD(2) [OF g] by (simp add: pmm_frame_def)
    then show ?thesis
      using w False f st(2,3) within_trans [OF win st(1)] grownD(7) [OF g] make_pte_present [of pa prot]
      by (auto simp: paging_map_def make_pte_def)
  qed
qed

lemma get_pte_ok:
  assumes ok: "tables_ok s r"
  obtains "paging_get_pte s (table_va s r) va = Some (s, 0)" "lookup s r va = None"
  | f where "paging_get_pte s (table_va s r) va = Some (s, table_va s f + 8 * of_nat (leaf va))" "tbl s r (wpath va) = Some f"
    "table_va s f + 8 * of_nat (leaf va) \<noteq> 0" "load64 s (table_va s f + 8 * of_nat (leaf va)) = entry s f (leaf va)"
proof -
  obtain s1 t where w: "get_or_create_pte s (table_va s r) va False = Some (s1, if t = 0 then 0 else t + 8 * of_nat (leaf va))"
    and l: "level s r (wpath va) False s1 t" using walk_ok [OF ok] by blast
  have s1: "s1 = s" using l by (simp add: level_def)
  show ?thesis
  proof (cases "t = 0")
    case True
    then have "lookup s r va = None" using l s1 by (auto simp: level_def lookup_def split: option.splits)
    then show ?thesis using that(1) w True s1 by (simp add: paging_get_pte_def)
  next
    case False
    show ?thesis using level_pte [OF l False] that(2) w False s1 by (auto simp: paging_get_pte_def)
  qed
qed

lemma unmap_ok:
  assumes ok: "tables_ok s r"
  shows "\<exists>s'. paging_unmap s (table_va s r) va = Some (s', if lookup s r va = None then -1 else 0) \<and> tables_ok s' r \<and> pmm_frame s s' \<and>
    (user_va va \<longrightarrow> within s s' r) \<and> pavail s' = pavail s \<and>
    (\<forall>va'. lookup s' r va' = (if page_of va' = page_of va then None else lookup s r va'))"
proof (rule get_pte_ok [OF ok, of va])
  assume a: "paging_get_pte s (table_va s r) va = Some (s, 0)" "lookup s r va = None"
  moreover have "lookup s r va' = None" if "page_of va' = page_of va" for va' using a(2) lookup_page [OF that] by simp
  ultimately show ?thesis using ok within_refl [OF ok] by (auto simp: paging_unmap_def pmm_frame_def)
next
  fix f assume a: "paging_get_pte s (table_va s r) va = Some (s, table_va s f + 8 * of_nat (leaf va))" "tbl s r (wpath va) = Some f"
    "table_va s f + 8 * of_nat (leaf va) \<noteq> 0" "load64 s (table_va s f + 8 * of_nat (leaf va)) = entry s f (leaf va)"
  have l: "lookup s r va = (if entry s f (leaf va) AND PTE_PRESENT = 0 then None else Some (entry s f (leaf va)))" using a(2) by (simp add: lookup_def)
  show ?thesis
  proof (cases "entry s f (leaf va) AND PTE_PRESENT = 0")
    case True
    moreover from this have "lookup s r va' = None" if "page_of va' = page_of va" for va' using l lookup_page [OF that] by simp
    ultimately show ?thesis using a ok l within_refl [OF ok] by (auto simp: paging_unmap_def pmm_frame_def)
  next
    case False
    note st = leaf_store [OF ok a(2), of 0]
    show ?thesis using a False l st by (auto simp: paging_unmap_def pmm_frame_def)
  qed
qed

lemma get_phys_ok:
  assumes ok: "tables_ok s r"
  shows "paging_get_phys s (table_va s r) va = Some (s, case lookup s r va of None \<Rightarrow> -1 | Some e \<Rightarrow> (e AND PTE_ADDR_MASK) OR (va AND 0xFFF))"
  by (rule get_pte_ok [OF ok, of va]) (auto simp: paging_get_phys_def lookup_def PAGE_SIZE_def PAGE_SHIFT_def)

subsection \<open>Ranges\<close>

text \<open>The addresses that a loop from \<open>a\<close> below \<open>e\<close> visits.\<close>

definition addrs :: "u64 \<Rightarrow> u64 \<Rightarrow> u64 set" where
  "addrs a e = (\<lambda>k. a + 4096 * of_nat k) ` {k. unat a + 4096 * k < unat e}"

lemma unat_next: "a < e \<Longrightarrow> unat e \<le> 2 ^ 47 \<Longrightarrow> unat (a + PAGE_SIZE) = unat a + 4096"
  by (subst unat_add_u64) (simp_all add: word_less_nat_alt PAGE_SIZE_def PAGE_SHIFT_def)

lemma addrs_empty: "\<not> a < e \<Longrightarrow> addrs a e = {}"
  by (auto simp: addrs_def word_less_nat_alt)

lemma addrs_step:
  assumes "a < e" "unat e \<le> 2 ^ 47"
  shows "addrs a e = insert a (addrs (a + PAGE_SIZE) e)"
proof -
  have k: "{k. unat a + 4096 * k < unat e} = insert 0 (Suc ` {k. unat (a + PAGE_SIZE) + 4096 * k < unat e})"
  proof (intro set_eqI iffI)
    fix k assume "k \<in> {k. unat a + 4096 * k < unat e}"
    then show "k \<in> insert 0 (Suc ` {k. unat (a + PAGE_SIZE) + 4096 * k < unat e})"
      using unat_next [OF assms] by (cases k) auto
  qed (use assms unat_next [OF assms] in \<open>auto simp: word_less_nat_alt\<close>)
  show ?thesis unfolding addrs_def k by (simp add: image_image algebra_simps PAGE_SIZE_def PAGE_SHIFT_def)
qed

lemma user_low: "unat a < 2 ^ 47 \<Longrightarrow> user_va a"
proof -
  assume a: "unat a < 2 ^ 47"
  have "unat (drop_bit 39 a) < 256" unfolding unat_drop_bit_eq using a by (simp add: drop_bit_eq_div less_mult_imp_div_less)
  moreover have "PML4_INDEX a \<le> drop_bit 39 a" unfolding PML4_INDEX_def by (rule word_and_le2)
  ultimately show ?thesis by (simp add: user_va_def word_le_nat_alt)
qed

lemma user_less: "a < e \<Longrightarrow> unat e \<le> 2 ^ 47 \<Longrightarrow> user_va a"
  by (rule user_low) (simp add: word_less_nat_alt)

lemma unmap_pages_ok:
  assumes "tables_ok s r" "unat e \<le> 2 ^ 47"
  shows "\<exists>s'. unmap_pages s (table_va s r) a e = Some s' \<and> within s s' r \<and>
    (\<forall>va. lookup s' r va = (if page_of va \<in> page_of ` addrs a e then None else lookup s r va))"
  using assms(1)
proof (induction "unat e - unat a" arbitrary: s a rule: less_induct)
  case less
  show ?case
  proof (cases "a < e")
    case False
    then show ?thesis using less.prems within_refl by (subst unmap_pages.simps) (auto simp: addrs_empty)
  next
    case True
    obtain s1 c where u: "paging_unmap s (table_va s r) a = Some (s1, c)" "tables_ok s1 r" "within s s1 r"
      "\<And>va. lookup s1 r va = (if page_of va = page_of a then None else lookup s r va)"
      using unmap_ok [OF less.prems, of a] user_less [OF True assms(2)] by auto
    have "unat e - unat (a + PAGE_SIZE) < unat e - unat a" using True unat_next [OF True assms(2)] by (simp add: word_less_nat_alt)
    from less.hyps [OF this u(2)] obtain s' where IH: "unmap_pages s1 (table_va s1 r) (a + PAGE_SIZE) e = Some s'" "within s1 s' r"
      "\<And>va. lookup s' r va = (if page_of va \<in> page_of ` addrs (a + PAGE_SIZE) e then None else lookup s1 r va)" by blast
    have "unmap_pages s (table_va s r) a e = Some s'"
      using True u(1) IH(1) table_va_frame [OF withinD(2) [OF u(3)]] by (subst unmap_pages.simps) simp
    then show ?thesis using within_trans [OF u(3) IH(2)] IH(3) u(4) by (simp add: addrs_step [OF True assms(2)])
  qed
qed

definition mapped :: "pmm_state \<Rightarrow> pmm_state \<Rightarrow> nat \<Rightarrow> u64 \<Rightarrow> u64 \<Rightarrow> u64 \<Rightarrow> u64 \<Rightarrow> bool" where
  "mapped s s' r a pa e prot \<longleftrightarrow>
     (\<forall>k va. unat a + 4096 * k < unat e \<longrightarrow> page_of va = page_of (a + 4096 * of_nat k) \<longrightarrow> lookup s' r va = Some (make_pte (pa + 4096 * of_nat k) prot)) \<and>
     (\<forall>va. page_of va \<notin> page_of ` addrs a e \<longrightarrow> lookup s' r va = lookup s r va)"

lemma unat_addr: "unat a + 4096 * k < 2 ^ 47 \<Longrightarrow> unat (a + 4096 * of_nat k :: u64) = unat a + 4096 * k"
proof -
  assume a: "unat a + 4096 * k < 2 ^ 47"
  then have "unat (4096 * of_nat k :: u64) = 4096 * k" by (simp add: unat_mult_u64 unat_u64_of_nat)
  then show ?thesis using a by (subst unat_add_u64) simp_all
qed

lemma page_of_low: "unat a < 2 ^ 47 \<Longrightarrow> unat (page_of a) = unat a div 4096"
proof -
  assume a: "unat a < 2 ^ 47"
  have d: "unat (drop_bit 12 a) = unat a div 4096" unfolding unat_drop_bit_eq by (simp add: drop_bit_eq_div)
  have "unat (page_of a) = take_bit 36 (unat a div 4096)"
    unfolding page_of_def take_bit_eq_mask [symmetric] unsigned_take_bit_eq d ..
  moreover have "unat a div 4096 < 2 ^ 36" using a by (simp add: less_mult_imp_div_less)
  ultimately show ?thesis by (simp add: take_bit_nat_eq_self)
qed

lemma addr_not_later:
  assumes "a < e" "unat e \<le> 2 ^ 47"
  shows "page_of a \<notin> page_of ` addrs (a + PAGE_SIZE) e"
proof
  assume "page_of a \<in> page_of ` addrs (a + PAGE_SIZE) e"
  then obtain k where k: "page_of a = page_of (a + PAGE_SIZE + 4096 * of_nat k)" "unat (a + PAGE_SIZE) + 4096 * k < unat e"
    by (auto simp: addrs_def)
  have l: "unat a < 2 ^ 47" "unat (a + PAGE_SIZE) + 4096 * k < 2 ^ 47" using assms k(2) by (simp_all add: word_less_nat_alt)
  then have "unat (a + PAGE_SIZE + 4096 * of_nat k) = unat a + 4096 + 4096 * k" using unat_addr unat_next [OF assms] by simp
  then have "unat a div 4096 = (unat a + 4096 + 4096 * k) div 4096"
    using page_of_low [OF l(1)] page_of_low [of "a + PAGE_SIZE + 4096 * of_nat k"] k(1) l(2) unat_next [OF assms] by simp
  then show False by simp
qed

lemma mapped_step:
  assumes lt: "a < e" "unat e \<le> 2 ^ 47"
    and 1: "\<And>va. lookup s1 r va = (if page_of va = page_of a then Some (make_pte pa prot) else lookup s r va)"
    and 2: "mapped s1 s' r (a + PAGE_SIZE) (pa + PAGE_SIZE) e prot"
  shows "mapped s s' r a pa e prot"
  unfolding mapped_def
proof (intro conjI allI impI)
  fix k va assume k: "unat a + 4096 * k < unat e" "page_of va = page_of (a + 4096 * of_nat k)"
  show "lookup s' r va = Some (make_pte (pa + 4096 * of_nat k) prot)"
  proof (cases k)
    case 0
    then have "page_of va \<notin> page_of ` addrs (a + PAGE_SIZE) e" using k(2) addr_not_later [OF lt] by simp
    then have "lookup s' r va = lookup s1 r va" using 2 by (simp add: mapped_def)
    then show ?thesis using 0 1 k(2) by simp
  next
    case (Suc j)
    then have "unat (a + PAGE_SIZE) + 4096 * j < unat e" "page_of va = page_of (a + PAGE_SIZE + 4096 * of_nat j)"
      using k unat_next [OF lt] by (simp_all add: algebra_simps PAGE_SIZE_def PAGE_SHIFT_def)
    then have "lookup s' r va = Some (make_pte (pa + PAGE_SIZE + 4096 * of_nat j) prot)" using 2 unfolding mapped_def by blast
    then show ?thesis using Suc by (simp add: algebra_simps PAGE_SIZE_def PAGE_SHIFT_def)
  qed
next
  fix va assume "page_of va \<notin> page_of ` addrs a e"
  then have "page_of va \<noteq> page_of a" "page_of va \<notin> page_of ` addrs (a + PAGE_SIZE) e" by (simp_all add: addrs_step [OF lt])
  then show "lookup s' r va = lookup s r va" using 1 2 by (simp add: mapped_def)
qed

lemma addrs_before:
  assumes lt: "a < e" "unat e \<le> 2 ^ 47" and m: "unat a = unat b + 4096 * m" and x: "x \<in> addrs (a + PAGE_SIZE) e"
  shows "a \<in> addrs b x"
proof -
  obtain j where j: "x = a + PAGE_SIZE + 4096 * of_nat j" "unat (a + PAGE_SIZE) + 4096 * j < unat e" using x by (auto simp: addrs_def)
  then have "unat x = unat a + 4096 + 4096 * j" using unat_addr [of "a + PAGE_SIZE" j] unat_next [OF lt] lt(2) by simp
  moreover have "unat (b + 4096 * of_nat m) = unat a" using unat_addr [of b m] m lt by (simp add: word_less_nat_alt)
  then have "a = b + 4096 * of_nat m" using unat_eq_iff by metis
  ultimately show ?thesis using m unfolding addrs_def by (intro image_eqI [of _ _ m]) simp_all
qed

text \<open>The loop of \<^verbatim>\<open>paging_map_range\<close> from the address \<open>a\<close>, having started at \<open>b\<close>: everything is mapped, or
  the page \<open>x\<close> could not be, and then the pages before it are unmapped.\<close>

lemma map_pages_ok:
  assumes "tables_ok s r" "unat e \<le> 2 ^ 47" "\<exists>m. unat a = unat b + 4096 * m"
  shows "\<exists>s' c. map_pages s (table_va s r) b a pa e prot = Some (s', c) \<and> within s s' r \<and>
    (c = 0 \<and> mapped s s' r a pa e prot \<or>
     c = -1 \<and> (\<exists>x \<in> addrs a e. \<forall>va. lookup s' r va = (if page_of va \<in> page_of ` addrs b x then None else lookup s r va)))"
  using assms(1,3)
proof (induction "unat e - unat a" arbitrary: s a pa rule: less_induct)
  case less
  show ?case
  proof (cases "a < e")
    case False
    then show ?thesis using less.prems(1) within_refl by (subst map_pages.simps) (auto simp: addrs_empty mapped_def word_less_nat_alt)
  next
    case True
    obtain s1 c where u: "paging_map s (table_va s r) a pa prot = Some (s1, c)" "c = 0 \<or> c = -1" "tables_ok s1 r" "within s s1 r"
      "\<And>va. lookup s1 r va = (if c = 0 \<and> page_of va = page_of a then Some (make_pte pa prot) else lookup s r va)"
      using map_ok [OF less.prems(1), of a pa prot] user_less [OF True assms(2)] by blast
    have tv: "table_va s1 r = table_va s r" using table_va_frame [OF withinD(2) [OF u(4)]] .
    show ?thesis
    proof (cases "c = 0")
      case False
      then have c: "c = -1" using u(2) by simp
      have "unat a \<le> 2 ^ 47" using True assms(2) by (simp add: word_less_nat_alt)
      from unmap_pages_ok [OF u(3) this, of b] obtain s2 where r2: "unmap_pages s1 (table_va s r) b a = Some s2" "within s1 s2 r"
        "\<And>va. lookup s2 r va = (if page_of va \<in> page_of ` addrs b a then None else lookup s1 r va)" using tv by auto
      have "map_pages s (table_va s r) b a pa e prot = Some (s2, -1)" using True u(1) c r2(1) by (subst map_pages.simps) simp
      moreover have "a \<in> addrs a e" using addrs_step [OF True assms(2)] by simp
      ultimately show ?thesis using within_trans [OF u(4) r2(2)] r2(3) u(5) c by auto
    next
      case c: True
      have dec: "unat e - unat (a + PAGE_SIZE) < unat e - unat a" using True unat_next [OF True assms(2)] by (simp add: word_less_nat_alt)
      obtain m where m: "unat a = unat b + 4096 * m" using less.prems(2) by blast
      then have "unat (a + PAGE_SIZE) = unat b + 4096 * Suc m" using unat_next [OF True assms(2)] by simp
      then obtain s' d where IH: "map_pages s1 (table_va s1 r) b (a + PAGE_SIZE) (pa + PAGE_SIZE) e prot = Some (s', d)" "within s1 s' r"
        "d = 0 \<and> mapped s1 s' r (a + PAGE_SIZE) (pa + PAGE_SIZE) e prot \<or>
         d = -1 \<and> (\<exists>x \<in> addrs (a + PAGE_SIZE) e. \<forall>va. lookup s' r va = (if page_of va \<in> page_of ` addrs b x then None else lookup s1 r va))"
        using less.hyps [OF dec u(3), of "pa + PAGE_SIZE"] by blast
      have mp: "map_pages s (table_va s r) b a pa e prot = Some (s', d)" using True u(1) c IH(1) tv by (subst map_pages.simps) simp
      from IH(3) show ?thesis
      proof
        assume "d = 0 \<and> mapped s1 s' r (a + PAGE_SIZE) (pa + PAGE_SIZE) e prot"
        then show ?thesis using mp within_trans [OF u(4) IH(2)] mapped_step [OF True assms(2) _, of s1 r pa prot s s'] u(5) c by auto
      next
        assume "d = -1 \<and> (\<exists>x \<in> addrs (a + PAGE_SIZE) e. \<forall>va. lookup s' r va = (if page_of va \<in> page_of ` addrs b x then None else lookup s1 r va))"
        then obtain x where x: "d = -1" "x \<in> addrs (a + PAGE_SIZE) e"
          "\<And>va. lookup s' r va = (if page_of va \<in> page_of ` addrs b x then None else lookup s1 r va)" by blast
        have "a \<in> addrs b x" using addrs_before [OF True assms(2) m x(2)] .
        then have "\<forall>va. lookup s' r va = (if page_of va \<in> page_of ` addrs b x then None else lookup s r va)" using x(3) u(5) by auto
        moreover have "x \<in> addrs a e" using x(2) addrs_step [OF True assms(2)] by simp
        ultimately show ?thesis using mp within_trans [OF u(4) IH(2)] x(1) by blast
      qed
    qed
  qed
qed

end
