(* ===== verification/Paging_Spaces.thy ===== *)
theory Paging_Spaces
  imports Page_Tables
begin

text \<open>
  The life of an address space: \<^verbatim>\<open>paging_create_pml4\<close> and \<^verbatim>\<open>paging_destroy_pml4\<close> of
  \<^verbatim>\<open>kernel/arch/x86_64/mm/paging.c\<close>, runs of all the operations, and the properties of paging.
\<close>

subsection \<open>Creation\<close>

lemma copy_entries:
  assumes "hhdm_ok s" "r < length (page_array s)" "k < length (page_array s)" "r \<noteq> k" "\<forall>i \<in> set is. i < 512"
  defines "s' \<equiv> fold (\<lambda>i t. store64 t (table_va s r + 8 * of_nat i) (load64 t (table_va s k + 8 * of_nat i))) is s"
  shows "(\<forall>h. \<forall>j < 512. entry s' h j = (if h = r \<and> j \<in> set is then entry s k j else entry s h j)) \<and>
    pmm_frame s s' \<and> pavail s' = pavail s \<and> pmm_ok s' = pmm_ok s \<and> hhdm_ok s' \<and> (\<forall>a. a div 4096 \<noteq> r \<longrightarrow> phys_mem s' a = phys_mem s a)"
  using assms(1-5) unfolding s'_def
proof (induction "is" arbitrary: s)
  case Nil
  then show ?case by (simp add: pmm_frame_def)
next
  case (Cons i "is")
  have i: "i < 512" using Cons.prems(5) by simp
  let ?t = "store64 s (table_va s r + 8 * of_nat i) (entry s k i)"
  have t: "hhdm_ok ?t" "r < length (page_array ?t)" "k < length (page_array ?t)" "\<forall>i \<in> set is. i < 512" using Cons.prems by simp_all
  have e: "entry ?t h j = (if h = r \<and> j = i then entry s k i else entry s h j)" if "j < 512" for h j
    by (rule store_entry [OF Cons.prems(1,2) i that])
  have m: "phys_mem ?t a = phys_mem s a" if "a div 4096 \<noteq> r" for a by (rule store_other [OF Cons.prems(1,2) i that])
  have ld: "load64 s (table_va s k + 8 * of_nat i) = entry s k i" by (rule load_entry [OF Cons.prems(1,3) i])
  show ?case
    using Cons.IH [OF t(1,2,3) Cons.prems(4) t(4)] e m Cons.prems(4) by (simp add: ld pmm_frame_def)
qed

text \<open>The tables of a new address space: its root and the tables of the kernel half.\<close>

lemma create_tbl:
  assumes ok: "tables_ok s k" and r: "r \<in> pavail s"
    and e: "\<forall>h. \<forall>j < 512. entry s' h j = (if h = r then if 256 \<le> j then entry s k j else 0 else entry s h j)"
    and q: "q \<in> paths" "q \<noteq> []"
  shows "tbl s' r q = (if last q < 256 then None else tbl s k q)"
  using q
proof (induction q)
  case (Cons j p)
  have j: "j < 512" using Cons.prems(1) by (simp add: paths_def)
  show ?case
  proof (cases "p = []")
    case True
    then show ?thesis using e j by (simp add: child_def)
  next
    case False
    have p: "p \<in> paths" using Cons.prems(1) by (simp add: paths_def)
    have "entry s' h j = entry s h j" if "tbl s k p = Some h" for h
      using tables_okD(4) [OF ok p that] r e j by auto
    then show ?thesis using Cons.IH [OF p False] False by (auto simp: child_def split: option.split)
  qed
qed simp

lemma create_tables_ok:
  assumes ok: "tables_ok s k" and r: "r \<in> pavail s" "r < length (page_array s)"
    and e: "\<forall>h. \<forall>j < 512. entry s' h j = (if h = r then if 256 \<le> j then entry s k j else 0 else entry s h j)"
    and s': "pmm_ok s'" "hhdm_ok s'" "pmm_frame s s'" "pavail s' = pavail s - {r}"
  shows "tables_ok s' r"
  unfolding tables_ok_def
proof (intro conjI ballI allI impI s'(1,2))
  note t = create_tbl [OF ok r(1) e]
  have fresh: "tbl s k q \<noteq> Some r" if "q \<in> paths" for q using tables_okD(4) [OF ok that] r(1) by blast
  have root: "q = []" if "q \<in> paths" "tbl s' r q = Some r" for q
    using t [OF that(1)] that fresh [OF that(1)] by (cases "q = []") (simp_all split: if_splits)
  have sub: "tbl s k q = Some f" if "q \<in> paths" "tbl s' r q = Some f" "q \<noteq> []" for q f
    using t [OF that(1,3)] that(2) by (simp split: if_splits)
  fix q f assume q: "q \<in> paths" "tbl s' r q = Some f"
  show "f < length (page_array s')" "f \<notin> pavail s'"
    using q(2) r(2) s'(3,4) tables_okD(3,4) [OF ok q(1) sub [OF q]] by (cases "q = []"; auto simp: pmm_frame_def)+
  show "q' = q" if q': "q' \<in> paths" "tbl s' r q' = Some f" for q'
  proof (cases "q = [] \<or> q' = []")
    case True
    then have "f = r" using q(2) q'(2) by auto
    then show ?thesis using root [OF q(1)] root [OF q'(1)] q(2) q'(2) by simp
  next
    case False
    then show ?thesis using tables_okD(5) [OF ok q(1) sub [OF q] q'(1) sub [OF q']] by simp
  qed
qed

lemma create_spaces:
  assumes ok: "spaces_ok s R" and k: "k \<in> R" and r: "r \<in> pavail s" "r < length (page_array s)"
    and e: "\<forall>h. \<forall>j < 512. entry s' h j = (if h = r then if 256 \<le> j then entry s k j else 0 else entry s h j)"
    and s': "pmm_ok s'" "hhdm_ok s'" "pmm_frame s s'" "pavail s' = pavail s - {r}"
    and m: "\<forall>a. a div 4096 \<noteq> r \<longrightarrow> phys_mem s' a = phys_mem s a"
  shows "spaces_ok s' (insert r R)" "utables s' r = {r}" "lookup s' r va = (if user_va va then None else lookup s k va)"
    "r' \<in> R \<Longrightarrow> lookup s' r' va = lookup s r' va" "r' \<in> R \<Longrightarrow> utables s' r' = utables s r'"
    "tables s' r \<subseteq> insert r (tables s k)"
proof -
  note kok = spaces_okD(1) [OF ok k]
  note t = create_tbl [OF kok r(1) e]
  have fresh: "r \<notin> tables s r'" if "r' \<in> R" for r' using tables_notin [OF spaces_okD(1) [OF ok that]] r(1) by blast
  have m': "phys_mem s' a = phys_mem s a" if "r' \<in> R" "a div 4096 \<in> tables s r'" for r' a using m fresh [OF that(1)] that(2) by auto
  show same: "lookup s' r' va = lookup s r' va" if "r' \<in> R" for r' va by (rule lookup_mem [OF m' [OF that]])
  have tm: "tables s' r' = tables s r'" "utables s' r' = utables s r'" if "r' \<in> R" for r' using tables_mem [OF m' [OF that]] by auto
  then show "r' \<in> R \<Longrightarrow> utables s' r' = utables s r'" by blast
  have "f = r" if f: "f \<in> utables s' r" for f
  proof -
    obtain q where q: "q \<in> paths" "q = [] \<or> last q < 256" "tbl s' r q = Some f" using f by (rule utablesE)
    then show ?thesis using t [OF q(1)] by (cases "q = []") auto
  qed
  then show u: "utables s' r = {r}" using utablesI [OF paths_Nil, of s' r r] by auto
  have tr: "f = r \<or> (\<exists>q \<in> paths. q \<noteq> [] \<and> \<not> last q < 256 \<and> tbl s k q = Some f)" if f: "f \<in> tables s' r" for f
  proof -
    obtain q where q: "q \<in> paths" "tbl s' r q = Some f" using f unfolding tables_def by blast
    then show ?thesis using t [OF q(1)] by (cases "q = []") (auto split: if_splits)
  qed
  then show "tables s' r \<subseteq> insert r (tables s k)" unfolding tables_def by blast
  show "lookup s' r va = (if user_va va then None else lookup s k va)"
  proof -
    have w: "tbl s' r (wpath va) = (if user_va va then None else tbl s k (wpath va))"
      using t [OF wpath_paths] by (simp add: wpath_def user_va_def)
    have "entry s' h (leaf va) = entry s h (leaf va)" if "tbl s k (wpath va) = Some h" for h
      using e leaf_bound [of va] tablesI [OF wpath_paths that] fresh [OF k] by auto
    then show ?thesis using w by (auto simp: lookup_def split: option.split)
  qed
  show "spaces_ok s' (insert r R)"
    unfolding spaces_ok_def
  proof (intro conjI ballI impI)
    fix r1 assume r1: "r1 \<in> insert r R"
    show "tables_ok s' r1"
    proof (cases "r1 = r")
      case False
      then have "r1 \<in> R" using r1 by simp
      then show ?thesis using s'(3,4) fresh tables_notin [OF spaces_okD(1) [OF ok]] m'
        by (intro tables_ok_mem [OF spaces_okD(1) [OF ok] _ s'(1,2)]) (auto simp: pmm_frame_def)
    qed (use create_tables_ok [OF kok r e s'] in simp)
    fix r2 assume r2: "r2 \<in> insert r R" "r1 \<noteq> r2"
    consider "r1 = r" "r2 \<in> R" | "r2 = r" "r1 \<in> R" | "r1 \<in> R" "r2 \<in> R" using r1 r2 by blast
    then show "utables s' r1 \<inter> tables s' r2 = {}"
    proof cases
      case 1
      then show ?thesis using u tm(1) [OF 1(2)] fresh [OF 1(2)] by simp
    next
      case 2
      have "f \<notin> tables s' r" if f: "f \<in> utables s r1" for f
      proof
        assume "f \<in> tables s' r"
        then consider "f = r" | q where "q \<in> paths" "q \<noteq> []" "\<not> last q < 256" "tbl s k q = Some f" using tr by blast
        then show False
        proof cases
          case 1
          then show False using f fresh [OF 2(2)] utables_sub [of s r1] by blast
        next
          case q: 2
          show False
          proof (cases "r1 = k")
            case True
            obtain q' where "q' \<in> paths" "q' = [] \<or> last q' < 256" "tbl s k q' = Some f" using f True by (auto elim: utablesE)
            then show False using tables_okD(5) [OF kok q(1,4)] q(2,3) by blast
          next
            case False
            then show False using spaces_okD(2) [OF ok 2(2) k False f] tablesI [OF q(1,4)] by blast
          qed
        qed
      qed
      then show ?thesis using 2 tm(2) [OF 2(2)] by blast
    next
      case 3
      then show ?thesis using tm spaces_okD(2) [OF ok 3 r2(2)] by blast
    qed
  qed
qed

lemma create_pml4_ok:
  assumes ok: "spaces_ok (pm ps) R" and k: "k \<in> R" "kernel_pml4 ps = table_va (pm ps) k"
  shows "\<exists>ps' v. paging_create_pml4 ps = Some (ps', v) \<and> kernel_pml4 ps' = kernel_pml4 ps \<and> pmm_frame (pm ps) (pm ps') \<and>
    (v = 0 \<and> spaces_ok (pm ps') R \<and> pavail (pm ps') = pavail (pm ps) \<and> phys_mem (pm ps') = phys_mem (pm ps) \<or>
     (\<exists>r. v = table_va (pm ps) r \<and> v \<noteq> 0 \<and> r \<in> pavail (pm ps) \<and> r < length (page_array (pm ps)) \<and>
        pavail (pm ps') = pavail (pm ps) - {r} \<and> (\<forall>a. a div 4096 \<noteq> r \<longrightarrow> phys_mem (pm ps') a = phys_mem (pm ps) a) \<and>
        spaces_ok (pm ps') (insert r R) \<and> utables (pm ps') r = {r} \<and> tables (pm ps') r \<subseteq> insert r (tables (pm ps) k) \<and>
        (\<forall>va. lookup (pm ps') r va = (if user_va va then None else lookup (pm ps) k va)) \<and>
        (\<forall>r' \<in> R. utables (pm ps') r' = utables (pm ps) r' \<and> (\<forall>va. lookup (pm ps') r' va = lookup (pm ps) r' va))))"
proof -
  let ?s = "pm ps"
  note kok = spaces_okD(1) [OF ok k(1)]
  have kl: "k < length (page_array ?s)" using tables_okD(3) [OF kok paths_Nil] by simp
  note pm = tables_ok_pmm [OF kok]
  have k0: "kernel_pml4 ps \<noteq> 0" using k(2) table_va_0 [OF pm(2) kl] by simp
  show ?thesis
  proof (rule alloc_pt_page_ok [OF pm])
    fix s' assume a: "alloc_pt_page ?s = Some (s', 0)" "pmm_ok s'" "hhdm_ok s'" "pmm_frame ?s s'" "pavail s' = pavail ?s" "phys_mem s' = phys_mem ?s"
    have e: "tbl s' r q = tbl ?s r q" for r q by (rule tbl_same) (simp add: entry_def a(6))
    have "spaces_ok s' R" using ok a(2-5) by (simp add: spaces_ok_def tables_ok_def utables_def tables_def e pmm_frame_def)
    then show ?thesis using a by (simp add: paging_create_pml4_def)
  next
    fix s1 r assume a: "alloc_pt_page ?s = Some (s1, table_va ?s r)" "table_va ?s r \<noteq> 0" "pmm_ok s1" "hhdm_ok s1" "pmm_frame ?s s1" "r \<in> pavail ?s"
      "r < length (page_array ?s)" "pavail s1 = pavail ?s - {r}" "\<And>a. phys_mem s1 a = (if a div 4096 = r then 0 else phys_mem ?s a)"
    have rk: "r \<noteq> k" using a(6) tables_notin [OF kok tablesI [OF paths_Nil]] by auto
    have len: "r < length (page_array s1)" "k < length (page_array s1)" using a(5,7) kl by (simp_all add: pmm_frame_def)
    note tv = table_va_frame [OF a(5)]
    let ?s' = "copy_kernel_half s1 (table_va ?s r) (table_va ?s k)"
    have up: "i \<in> set [256..<512] \<longleftrightarrow> 256 \<le> i \<and> i < 512" for i :: nat by (simp only: set_upt atLeastLessThan_iff)
    have "\<forall>i \<in> set [256..<512]. i < (512 :: nat)" using up by blast
    note ce = copy_entries [OF a(4) len rk this, folded copy_kernel_half_def [of s1 "table_va s1 r" "table_va s1 k"], unfolded tv up]
    have c: "\<forall>h. \<forall>j < 512. entry ?s' h j = (if h = r \<and> 256 \<le> j then entry s1 k j else entry s1 h j)" "pmm_frame s1 ?s'" "pavail ?s' = pavail s1"
      "pmm_ok ?s' = pmm_ok s1" "hhdm_ok ?s'" "\<forall>a. a div 4096 \<noteq> r \<longrightarrow> phys_mem ?s' a = phys_mem s1 a"
      using ce by simp_all
    have e: "\<forall>h. \<forall>j < 512. entry ?s' h j = (if h = r then if 256 \<le> j then entry ?s k j else 0 else entry ?s h j)"
      using c(1) fresh_entry [OF a(9)] rk by auto
    have f: "pmm_frame ?s ?s'" using a(5) c(2) by (simp add: pmm_frame_def)
    have m: "\<forall>a. a div 4096 \<noteq> r \<longrightarrow> phys_mem ?s' a = phys_mem ?s a" using c(6) a(9) by simp
    note cs = create_spaces [OF ok k(1) a(6,7) e _ c(5) f _ m, unfolded c(3,4), OF a(3,8)]
    have "paging_create_pml4 ps = Some (ps\<lparr>pm := ?s'\<rparr>, table_va ?s r)" using a(1,2) k0 k(2) by (simp add: paging_create_pml4_def)
    then show ?thesis using a(2,6,7,8) c(3) f cs m by auto
  qed
qed

subsection \<open>Destruction\<close>

text \<open>\<open>freed s s' X\<close>: the frames \<open>X\<close> were given back, once each, and nothing else happened.\<close>

definition freed :: "pmm_state \<Rightarrow> pmm_state \<Rightarrow> nat set \<Rightarrow> bool" where
  "freed s s' X \<longleftrightarrow> pmm_ok s' \<and> pmm_frame s s' \<and> phys_mem s' = phys_mem s \<and> pavail s' = pavail s \<union> X"

lemma freed_hhdm: "freed s s' X \<Longrightarrow> hhdm_ok s' = hhdm_ok s"
  by (simp add: freed_def hhdm_ok_def pmm_frame_def)

lemma freed_trans: "freed s s1 X \<Longrightarrow> freed s1 s2 Y \<Longrightarrow> freed s s2 (X \<union> Y)"
  by (auto simp: freed_def pmm_frame_def)

lemma freed_entry: "freed s s' X \<Longrightarrow> entry s' f i = entry s f i"
  by (simp add: freed_def entry_def)

lemma free_mem: "free_pages_pmm s p k = Some s' \<Longrightarrow> phys_mem s' = phys_mem s"
  by (auto simp: free_pages_pmm_def Let_def split: option.splits if_splits bind_splits prod.splits)

lemma free_pt_ok:
  assumes "pmm_ok s" "hhdm_ok s" "f < length (page_array s)" "f \<notin> pavail s"
  shows "\<exists>s'. free_pt_page s (table_va s f) = Some s' \<and> freed s s' {f}"
proof -
  have "f < 2 ^ 40" using assms(2,3) by (simp add: hhdm_ok_def)
  then have "unat (PFN_TO_PHYS f) = f * 4096" by (simp add: unat_PFN_TO_PHYS)
  then have v: "virt_to_page s (table_va s f) = Some f"
    using assms(3) by (simp add: virt_to_page_def virt_to_phys_def table_va_def phys_to_virt_def PFN_word)
  have "zone_of f < 3" by (simp add: zone_of_def)
  moreover from this have "zone_lo (zone_of f) \<le> f" "f < zone_hi s (zone_of f)" using zone_of_iff [OF assms(3), of "zone_of f"] by auto
  ultimately have "pregion s f 0" using assms(3) by (auto simp: pregion_def intro!: exI [of _ "zone_of f"])
  then obtain s' where s': "free_pages_pmm s (Some f) 0 = Some s'" "pmm_ok s'" "pavail s' = pavail s \<union> block f 0" "pmm_frame s s'"
    using free_pages_ok [OF assms(1), of 0 f] assms(4) by (auto simp: MAX_ORDER_def)
  then have "freed s s' {f}" using free_mem [OF s'(1)] by (auto simp: freed_def)
  then show ?thesis using s'(1) v table_va_0 [OF assms(2,3)] by (simp add: free_pt_page_def simple_free_page_def free_page_def)
qed

text \<open>The tables at and below a path.\<close>

definition sub :: "pmm_state \<Rightarrow> nat \<Rightarrow> nat list \<Rightarrow> nat set" where
  "sub s r p = {f. \<exists>x. x @ p \<in> paths \<and> tbl s r (x @ p) = Some f}"

lemma sub_None: "tbl s r p = None \<Longrightarrow> sub s r p = {}"
  using tbl_None_append [of s r p] by (simp add: sub_def)

lemma sub_split:
  assumes "tbl s r p = Some f" "p \<in> paths"
  shows "sub s r p = insert f (\<Union>i < 512. sub s r (i # p))"
proof (intro set_eqI iffI)
  fix g assume "g \<in> sub s r p"
  then obtain x where x: "x @ p \<in> paths" "tbl s r (x @ p) = Some g" by (auto simp: sub_def)
  show "g \<in> insert f (\<Union>i < 512. sub s r (i # p))"
  proof (cases x rule: rev_exhaust)
    case (snoc y i)
    then have "i < 512" "y @ i # p \<in> paths" "tbl s r (y @ i # p) = Some g" using x by (simp_all add: paths_def)
    then show ?thesis by (auto simp: sub_def)
  qed (use x assms in simp)
next
  fix g assume "g \<in> insert f (\<Union>i < 512. sub s r (i # p))"
  then consider "g = f" | i x where "x @ i # p \<in> paths" "tbl s r (x @ i # p) = Some g" by (auto simp: sub_def)
  then show "g \<in> sub s r p"
  proof cases
    case 1
    then show ?thesis using assms unfolding sub_def by (auto intro: exI [of _ "[]"])
  next
    case (2 i x)
    then show ?thesis unfolding sub_def by (auto intro!: exI [of _ "x @ [i]"])
  qed
qed

lemma sub_deep: "length p = 3 \<Longrightarrow> sub s r (i # p) = {}"
  by (auto simp: sub_def paths_def)

lemma sub_distinct:
  assumes ok: "tables_ok s r" and "f \<in> sub s r (i # p)"
  shows "f \<in> sub s r (j # p) \<Longrightarrow> i = j" "tbl s r p = Some f \<Longrightarrow> p \<in> paths \<Longrightarrow> False"
proof -
  obtain x where x: "x @ i # p \<in> paths" "tbl s r (x @ i # p) = Some f" using assms(2) by (auto simp: sub_def)
  show False if "tbl s r p = Some f" "p \<in> paths" using tables_okD(5) [OF ok x that(2,1)] by simp
  assume "f \<in> sub s r (j # p)"
  then obtain y where y: "y @ j # p \<in> paths" "tbl s r (y @ j # p) = Some f" by (auto simp: sub_def)
  have "y @ j # p = x @ i # p" by (rule tables_okD(5) [OF ok x y])
  then have "rev (y @ j # p) = rev (x @ i # p)" by simp
  then show "i = j" by simp
qed

definition frees :: "pmm_state \<Rightarrow> nat \<Rightarrow> nat list \<Rightarrow> nat \<Rightarrow> (pmm_state \<Rightarrow> u64 \<Rightarrow> pmm_state option) \<Rightarrow> bool" where
  "frees s0 r p f body \<longleftrightarrow> (\<forall>s X. freed s0 s X \<longrightarrow> sub s0 r p \<inter> pavail s = {} \<longrightarrow>
     (\<exists>s'. body s (table_va s0 f) = Some s' \<and> freed s s' (sub s0 r p)))"

lemma freesD:
  "frees s0 r p f body \<Longrightarrow> freed s0 s X \<Longrightarrow> sub s0 r p \<inter> pavail s = {} \<Longrightarrow>
   \<exists>s'. body s (table_va s0 f) = Some s' \<and> freed s s' (sub s0 r p)"
  unfolding frees_def by blast

lemma freed_load:
  assumes "tables_ok s0 r" "p \<in> paths" "tbl s0 r p = Some f" "freed s0 s X" "i < 512"
  shows "load64 s (table_va s0 f + 8 * of_nat i) = entry s0 f i" "phys_to_virt s (entry s0 f i AND PTE_ADDR_MASK) = table_va s0 (frame_of (entry s0 f i))"
proof -
  have fr: "pmm_frame s0 s" using assms(4) by (simp add: freed_def)
  note o = tables_okD(2,3) [OF assms(1-3)]
  have "hhdm_ok s" "f < length (page_array s)" using o freed_hhdm [OF assms(4)] fr by (simp_all add: pmm_frame_def)
  from load_entry [OF this assms(5)] show "load64 s (table_va s0 f + 8 * of_nat i) = entry s0 f i"
    using table_va_frame [OF fr] freed_entry [OF assms(4)] by simp
  show "phys_to_virt s (entry s0 f i AND PTE_ADDR_MASK) = table_va s0 (frame_of (entry s0 f i))"
    using fr by (simp add: table_va_def frame_addr phys_to_virt_def pmm_frame_def)
qed

lemma for_tables_ok:
  assumes ok: "tables_ok s0 r" and p: "p \<in> paths" "tbl s0 r p = Some f"
    and body: "\<And>i g. i < 512 \<Longrightarrow> tbl s0 r (i # p) = Some g \<Longrightarrow> frees s0 r (i # p) g body"
  shows "distinct is \<Longrightarrow> \<forall>i \<in> set is. i < 512 \<Longrightarrow> freed s0 s X \<Longrightarrow> (\<Union>i \<in> set is. sub s0 r (i # p)) \<inter> pavail s = {} \<Longrightarrow>
    \<exists>s'. for_tables body (p \<noteq> []) (table_va s0 f) is s = Some s' \<and> freed s s' (\<Union>i \<in> set is. sub s0 r (i # p))"
proof (induction "is" arbitrary: s X)
  case Nil
  then show ?case by (simp add: freed_def pmm_frame_def)
next
  case (Cons i "is")
  have i: "i < 512" using Cons.prems(2) by simp
  note ld = freed_load [OF ok p Cons.prems(3) i]
  let ?e = "entry s0 f i"
  show ?case
  proof (cases "tbl s0 r (i # p)")
    case None
    then have "\<not> (?e AND PTE_PRESENT \<noteq> 0 \<and> \<not> (p \<noteq> [] \<and> ?e AND PTE_HUGE \<noteq> 0))" using p(2) by (auto simp: child_def Let_def split: if_splits)
    then have "for_tables body (p \<noteq> []) (table_va s0 f) (i # is) s = for_tables body (p \<noteq> []) (table_va s0 f) is s"
      by (simp only: for_tables.simps Let_def ld(1) if_False)
    moreover have "sub s0 r (i # p) = {}" using sub_None [OF None] .
    ultimately show ?thesis using Cons.IH [of s X] Cons.prems by simp
  next
    case (Some g)
    then have e: "?e AND PTE_PRESENT \<noteq> 0 \<and> \<not> (p \<noteq> [] \<and> ?e AND PTE_HUGE \<noteq> 0)" "g = frame_of ?e"
      using p(2) by (auto simp: child_def Let_def split: if_splits)
    have "sub s0 r (i # p) \<inter> pavail s = {}" using Cons.prems(4) by auto
    from freesD [OF body [OF i Some] Cons.prems(3) this] obtain s1 where
      s1: "body s (table_va s0 g) = Some s1" "freed s s1 (sub s0 r (i # p))" by blast
    have "sub s0 r (j # p) \<inter> sub s0 r (i # p) = {}" if "j \<in> set is" for j
    proof -
      have "i \<noteq> j" using Cons.prems(1) that by auto
      then show ?thesis using sub_distinct(1) [OF ok] by blast
    qed
    then have "(\<Union>j \<in> set is. sub s0 r (j # p)) \<inter> pavail s1 = {}" using Cons.prems(4) s1(2) by (auto simp: freed_def)
    from Cons.IH [OF _ _ freed_trans [OF Cons.prems(3) s1(2)] this] obtain s' where
      s': "for_tables body (p \<noteq> []) (table_va s0 f) is s1 = Some s'" "freed s1 s' (\<Union>j \<in> set is. sub s0 r (j # p))"
      using Cons.prems(1,2) by auto
    have "for_tables body (p \<noteq> []) (table_va s0 f) (i # is) s = Some s'"
      unfolding for_tables.simps Let_def ld if_P [OF e(1)] using s1(1) s'(1) e(2) by simp
    then show ?thesis using freed_trans [OF s1(2) s'(2)] by simp
  qed
qed

lemma freed_page:
  assumes ok: "tables_ok s0 r" and p: "p \<in> paths" "tbl s0 r p = Some f" and s: "freed s0 s X" "f \<notin> pavail s"
  shows "\<exists>s'. free_pt_page s (table_va s0 f) = Some s' \<and> freed s s' {f}"
proof -
  have fr: "pmm_frame s0 s" "pmm_ok s" using s(1) by (simp_all add: freed_def)
  have "hhdm_ok s" "f < length (page_array s)" using tables_okD(2,3) [OF ok p] freed_hhdm [OF s(1)] fr(1) by (simp_all add: pmm_frame_def)
  from free_pt_ok [OF fr(2) this s(2)] show ?thesis using table_va_frame [OF fr(1)] by simp
qed

text \<open>One level: the loop over the entries, then the table itself.\<close>

lemma table_ok:
  assumes ok: "tables_ok s0 r" and p: "p \<in> paths" "tbl s0 r p = Some f"
    and body: "\<And>i g. i < 512 \<Longrightarrow> tbl s0 r (i # p) = Some g \<Longrightarrow> frees s0 r (i # p) g body"
    and js: "distinct is" "\<forall>i \<in> set is. i < 512" and s: "freed s0 s X" "insert f (\<Union>i \<in> set is. sub s0 r (i # p)) \<inter> pavail s = {}"
  shows "\<exists>s1 s'. for_tables body (p \<noteq> []) (table_va s0 f) is s = Some s1 \<and> free_pt_page s1 (table_va s0 f) = Some s' \<and>
    freed s s' (insert f (\<Union>i \<in> set is. sub s0 r (i # p)))"
proof -
  let ?U = "\<Union>i \<in> set is. sub s0 r (i # p)"
  have "?U \<inter> pavail s = {}" using s(2) by blast
  from for_tables_ok [OF ok p body js s(1) this] obtain s1 where
    s1: "for_tables body (p \<noteq> []) (table_va s0 f) is s = Some s1" "freed s s1 ?U" by blast
  have "f \<notin> ?U" using sub_distinct(2) [OF ok] p by blast
  then have "f \<notin> pavail s1" using s(2) s1(2) by (auto simp: freed_def)
  from freed_page [OF ok p freed_trans [OF s(1) s1(2)] this] obtain s' where
    s': "free_pt_page s1 (table_va s0 f) = Some s'" "freed s1 s' {f}" by blast
  have "freed s s' (insert f ?U)" using freed_trans [OF s1(2) s'(2)] by (simp add: Un_commute)
  then show ?thesis using s1(1) s'(1) by blast
qed

lemma upto_entries: "i \<in> set [0..<PT_ENTRIES] \<longleftrightarrow> i < 512" "distinct [0..<PT_ENTRIES]"
  unfolding PT_ENTRIES_def by (simp_all only: set_upt atLeastLessThan_iff distinct_upt le0 simp_thms)

lemma table_frees:
  assumes ok: "tables_ok s0 r" and p: "p \<in> paths" "tbl s0 r p = Some f" "p \<noteq> []"
    and body: "\<And>i g. i < 512 \<Longrightarrow> tbl s0 r (i # p) = Some g \<Longrightarrow> frees s0 r (i # p) g body"
    and t: "\<And>s va. t s va = do { s1 \<leftarrow> for_tables body True va [0..<PT_ENTRIES] s; free_pt_page s1 va }"
  shows "frees s0 r p f t"
  unfolding frees_def
proof (intro allI impI)
  fix s X assume s: "freed s0 s X" "sub s0 r p \<inter> pavail s = {}"
  have u: "sub s0 r p = insert f (\<Union>i \<in> set [0..<PT_ENTRIES]. sub s0 r (i # p))"
    unfolding sub_split [OF p(2,1)] by (auto simp only: upto_entries)
  from table_ok [OF ok p(1,2) body upto_entries(2) _ s(1)] obtain s1 s' where
    "for_tables body (p \<noteq> []) (table_va s0 f) [0..<PT_ENTRIES] s = Some s1" "free_pt_page s1 (table_va s0 f) = Some s'"
    "freed s s' (insert f (\<Union>i \<in> set [0..<PT_ENTRIES]. sub s0 r (i # p)))"
    using s(2) upto_entries(1) unfolding u by blast
  then show "\<exists>s'. t s (table_va s0 f) = Some s' \<and> freed s s' (sub s0 r p)" unfolding u t using p(3) by simp
qed

lemma pt_frees:
  assumes ok: "tables_ok s0 r" and p: "p \<in> paths" "tbl s0 r p = Some f" "length p = 3"
  shows "frees s0 r p f free_pt_page"
proof -
  have "sub s0 r p = {f}" using sub_split [OF p(2,1)] sub_deep [OF p(3)] by simp
  then show ?thesis unfolding frees_def using freed_page [OF ok p(1,2)] by auto
qed

lemma pd_frees:
  assumes ok: "tables_ok s0 r" and p: "p \<in> paths" "tbl s0 r p = Some f" "length p = 2"
  shows "frees s0 r p f destroy_pd"
  by (rule table_frees [OF ok p(1,2) _ pt_frees [OF ok] destroy_pd_def]) (use p in \<open>auto simp: paths_def\<close>)

lemma pdpt_frees:
  assumes ok: "tables_ok s0 r" and p: "p \<in> paths" "tbl s0 r p = Some f" "length p = 1"
  shows "frees s0 r p f destroy_pdpt"
  by (rule table_frees [OF ok p(1,2) _ pd_frees [OF ok] destroy_pdpt_def]) (use p in \<open>auto simp: paths_def\<close>)

lemma utables_sub_eq: "utables s r = insert r (\<Union>i < 256. sub s r [i])"
proof (intro set_eqI iffI)
  fix f assume "f \<in> utables s r"
  then obtain q where q: "q \<in> paths" "q = [] \<or> last q < 256" "tbl s r q = Some f" by (rule utablesE)
  show "f \<in> insert r (\<Union>i < 256. sub s r [i])"
  proof (cases q rule: rev_exhaust)
    case (snoc x i)
    then show ?thesis using q by (auto simp: sub_def)
  qed (use q in simp)
next
  fix f assume "f \<in> insert r (\<Union>i < 256. sub s r [i])"
  then show "f \<in> utables s r" using utablesI [OF paths_Nil, of s r r] by (auto simp: sub_def intro: utablesI)
qed

lemma destroy_pml4_ok:
  assumes ok: "spaces_ok s R" and r: "r \<in> R"
  shows "\<exists>s'. paging_destroy_pml4 s (table_va s r) = Some s' \<and> freed s s' (utables s r) \<and> spaces_ok s' (R - {r})"
proof -
  note rok = spaces_okD(1) [OF ok r]
  have up: "i \<in> set [0..<256] \<longleftrightarrow> i < 256" "distinct [0..<256 :: nat]" for i :: nat by (simp_all only: set_upt atLeastLessThan_iff distinct_upt le0 simp_thms)
  have u: "utables s r = insert r (\<Union>i \<in> set [0..<256]. sub s r [i])" unfolding utables_sub_eq by (auto simp only: up)
  have b: "frees s r [i] g destroy_pdpt" if "i < 512" "tbl s r [i] = Some g" for i g
    by (rule pdpt_frees [OF rok _ that(2)]) (use that(1) in \<open>simp_all add: paths_def\<close>)
  have "freed s s {}" using tables_ok_pmm [OF rok] by (simp add: freed_def pmm_frame_def)
  moreover have "utables s r \<inter> pavail s = {}" using tables_notin [OF rok] utables_sub [of s r] by blast
  moreover have "\<forall>i \<in> set [0..<256]. i < (512 :: nat)" using up(1) by fastforce
  ultimately obtain s1 s' where d: "for_tables destroy_pdpt False (table_va s r) [0..<256] s = Some s1"
    "free_pt_page s1 (table_va s r) = Some s'" "freed s s' (utables s r)"
    using table_ok [OF rok paths_Nil _ b up(2), of r s "{}"] unfolding u by auto
  have "r < length (page_array s)" using tables_okD(3) [OF rok paths_Nil] by simp
  then have "table_va s r \<noteq> 0" using table_va_0 tables_ok_pmm [OF rok] by blast
  then have "paging_destroy_pml4 s (table_va s r) = Some s'" using d(1,2) by (simp add: paging_destroy_pml4_def)
  moreover have "spaces_ok s' (R - {r})"
  proof -
    have m: "phys_mem s' a = phys_mem s a" for a using d(3) by (simp add: freed_def)
    have "tables_ok s' r'" if r': "r' \<in> R - {r}" for r'
    proof -
      have "tables s r' \<inter> pavail s' = {}" using d(3) spaces_okD(2) [OF ok r, of r'] tables_notin [OF spaces_okD(1) [OF ok, of r']] r'
        by (auto simp: freed_def)
      moreover have "pmm_ok s'" "hhdm_ok s'" "length (page_array s') = length (page_array s)"
        using d(3) freed_hhdm [OF d(3)] tables_ok_pmm(2) [OF rok] by (simp_all add: freed_def pmm_frame_def)
      moreover have "tables_ok s r'" using spaces_okD(1) [OF ok, of r'] r' by blast
      ultimately show ?thesis using tables_ok_mem [of s r' s'] m by blast
    qed
    then show ?thesis using ok tables_mem [OF m] by (simp add: spaces_ok_def)
  qed
  ultimately show ?thesis using d(3) by blast
qed

subsection \<open>Runs\<close>

text \<open>The operations on the user half of the address spaces \<open>R\<close>; a step is labelled with the one it acts on.\<close>

inductive space_step :: "paging_state \<times> nat set \<Rightarrow> nat \<Rightarrow> paging_state \<times> nat set \<Rightarrow> bool" where
  step_map: "r \<in> R \<Longrightarrow> user_va va \<Longrightarrow> paging_map (pm ps) (table_va (pm ps) r) va pa prot = Some (s', c) \<Longrightarrow>
    space_step (ps, R) r (ps\<lparr>pm := s'\<rparr>, R)"
| step_unmap: "r \<in> R \<Longrightarrow> user_va va \<Longrightarrow> paging_unmap (pm ps) (table_va (pm ps) r) va = Some (s', c) \<Longrightarrow>
    space_step (ps, R) r (ps\<lparr>pm := s'\<rparr>, R)"
| step_map_range: "r \<in> R \<Longrightarrow> unat va + unat sz \<le> 2 ^ 47 \<Longrightarrow> paging_map_range (pm ps) (table_va (pm ps) r) va pa sz prot = Some (s', c) \<Longrightarrow>
    space_step (ps, R) r (ps\<lparr>pm := s'\<rparr>, R)"
| step_unmap_range: "r \<in> R \<Longrightarrow> unat va + unat sz \<le> 2 ^ 47 \<Longrightarrow> paging_unmap_range (pm ps) (table_va (pm ps) r) va sz = Some (s', c) \<Longrightarrow>
    space_step (ps, R) r (ps\<lparr>pm := s'\<rparr>, R)"
| step_create: "paging_create_pml4 ps = Some (ps', table_va (pm ps) r) \<Longrightarrow> table_va (pm ps) r \<noteq> 0 \<Longrightarrow> r < length (page_array (pm ps)) \<Longrightarrow>
    space_step (ps, R) r (ps', insert r R)"
| step_create_fail: "paging_create_pml4 ps = Some (ps', 0) \<Longrightarrow> space_step (ps, R) r (ps', R)"
| step_destroy: "r \<in> R \<Longrightarrow> table_va (pm ps) r \<noteq> kernel_pml4 ps \<Longrightarrow> paging_destroy_pml4 (pm ps) (table_va (pm ps) r) = Some s' \<Longrightarrow>
    space_step (ps, R) r (ps\<lparr>pm := s'\<rparr>, R - {r})"

inductive space_run :: "paging_state \<times> nat set \<Rightarrow> nat list \<Rightarrow> paging_state \<times> nat set \<Rightarrow> bool" where
  run_done: "space_run c [] c"
| run_step: "space_step c r c1 \<Longrightarrow> space_run c1 rs c' \<Longrightarrow> space_run c (r # rs) c'"

inductive_cases space_stepE: "space_step (ps, R) r c"

definition spaces_inv :: "nat \<Rightarrow> paging_state \<times> nat set \<Rightarrow> bool" where
  "spaces_inv k c \<longleftrightarrow> spaces_ok (pm (fst c)) (snd c) \<and> k \<in> snd c \<and> kernel_pml4 (fst c) = table_va (pm (fst c)) k"

text \<open>The frames that paging and the allocator may write: the free ones and the tables of the user halves.\<close>

definition owned :: "paging_state \<times> nat set \<Rightarrow> nat set" where
  "owned c = pavail (pm (fst c)) \<union> (\<Union>r \<in> snd c. utables (pm (fst c)) r)"

definition isolated :: "paging_state \<times> nat set \<Rightarrow> nat set \<Rightarrow> paging_state \<times> nat set \<Rightarrow> bool" where
  "isolated c A c' \<longleftrightarrow> owned c' = owned c \<and>
     (\<forall>a. a div 4096 \<notin> owned c \<longrightarrow> phys_mem (pm (fst c')) a = phys_mem (pm (fst c)) a) \<and>
     (\<forall>r \<in> snd c - A. r \<in> snd c' \<and> (\<forall>va. lookup (pm (fst c')) r va = lookup (pm (fst c)) r va))"

lemma isolated_refl: "isolated c A c"
  by (simp add: isolated_def)

lemma isolated_trans: "isolated c A c1 \<Longrightarrow> isolated c1 B c2 \<Longrightarrow> isolated c (A \<union> B) c2"
  unfolding isolated_def by auto

lemma inv_tables: "spaces_inv k (ps, R) \<Longrightarrow> r \<in> R \<Longrightarrow> tables_ok (pm ps) r"
  using spaces_okD(1) [of "pm ps" R r] by (simp add: spaces_inv_def)

lemma within_step:
  assumes inv: "spaces_inv k (ps, R)" and r: "r \<in> R" and w: "within (pm ps) s' r"
  shows "spaces_inv k (ps\<lparr>pm := s'\<rparr>, R) \<and> isolated (ps, R) {r} (ps\<lparr>pm := s'\<rparr>, R)"
proof -
  have ok: "spaces_ok (pm ps) R" using inv by (simp add: spaces_inv_def)
  have m: "phys_mem s' a = phys_mem (pm ps) a" if "r' \<in> R" "r' \<noteq> r" "a div 4096 \<in> tables (pm ps) r'" for r' a
    using withinD(6) [OF w, of a] spaces_okD(2) [OF ok r that(1)] tables_notin [OF spaces_okD(1) [OF ok that(1)] that(3)] that by blast
  have u: "utables s' r' = utables (pm ps) r'" if "r' \<in> R - {r}" for r'
  proof -
    have "r' \<in> R" "r' \<noteq> r" using that by simp_all
    from tables_mem(2) [OF m [OF this]] show ?thesis .
  qed
  have "owned (ps\<lparr>pm := s'\<rparr>, R) = pavail s' \<union> utables s' r \<union> (\<Union>r' \<in> R - {r}. utables s' r')" using r by (auto simp: owned_def)
  also have "\<dots> = pavail (pm ps) \<union> utables (pm ps) r \<union> (\<Union>r' \<in> R - {r}. utables (pm ps) r')" using withinD(4) [OF w] u by simp
  also have "\<dots> = owned (ps, R)" using r by (auto simp: owned_def)
  finally have "owned (ps\<lparr>pm := s'\<rparr>, R) = owned (ps, R)" .
  moreover have "phys_mem s' a = phys_mem (pm ps) a" if "a div 4096 \<notin> owned (ps, R)" for a
    using withinD(6) [OF w, of a] that r by (auto simp: owned_def)
  ultimately have "isolated (ps, R) {r} (ps\<lparr>pm := s'\<rparr>, R)"
    using within_spaces(2) [OF ok r w] by (simp add: isolated_def)
  then show ?thesis using within_spaces(1) [OF ok r w] inv table_va_frame [OF withinD(2) [OF w]] by (simp add: spaces_inv_def)
qed

lemma unat_end: "unat va + unat sz \<le> 2 ^ 47 \<Longrightarrow> unat (va + sz :: u64) = unat va + unat sz"
  by (rule unat_add_u64) simp

lemma map_range_ok:
  assumes "tables_ok s r" "unat va + unat sz \<le> 2 ^ 47"
  shows "\<exists>s' c. paging_map_range s (table_va s r) va pa sz prot = Some (s', c) \<and> within s s' r \<and>
    (c = 0 \<and> mapped s s' r va pa (va + sz) prot \<or>
     c = -1 \<and> (\<exists>x \<in> addrs va (va + sz). \<forall>va'. lookup s' r va' = (if page_of va' \<in> page_of ` addrs va x then None else lookup s r va')))"
  unfolding paging_map_range_def using map_pages_ok [OF assms(1), of "va + sz" va va] unat_end [OF assms(2)] assms(2) by force

lemma unmap_range_ok:
  assumes "tables_ok s r" "unat va + unat sz \<le> 2 ^ 47"
  shows "\<exists>s'. paging_unmap_range s (table_va s r) va sz = Some (s', 0) \<and> within s s' r \<and>
    (\<forall>va'. lookup s' r va' = (if page_of va' \<in> page_of ` addrs va (va + sz) then None else lookup s r va'))"
  using unmap_pages_ok [OF assms(1), of "va + sz" va] unat_end [OF assms(2)] assms(2) by (auto simp: paging_unmap_range_def)

lemma table_va_inj:
  assumes "hhdm_ok s" "f < length (page_array s)" "g < length (page_array s)" "table_va s f = table_va s g"
  shows "f = g"
proof -
  have "f * 4096 = g * 4096" using entry_address(1) [OF assms(1,2), of 0] entry_address(1) [OF assms(1,3), of 0] assms(4) by simp
  then show ?thesis by simp
qed

lemma create_step:
  assumes c: "paging_create_pml4 ps = Some (ps', table_va (pm ps) r)" "table_va (pm ps) r \<noteq> 0" "r < length (page_array (pm ps))"
    and inv: "spaces_inv k (ps, R)"
  shows "spaces_inv k (ps', insert r R) \<and> isolated (ps, R) {r} (ps', insert r R)"
proof -
  have ok: "spaces_ok (pm ps) R" and k: "k \<in> R" "kernel_pml4 ps = table_va (pm ps) k" using inv by (simp_all add: spaces_inv_def)
  obtain q where q: "table_va (pm ps) r = table_va (pm ps) q" "q \<in> pavail (pm ps)" "q < length (page_array (pm ps))"
    "pavail (pm ps') = pavail (pm ps) - {q}" "\<forall>a. a div 4096 \<noteq> q \<longrightarrow> phys_mem (pm ps') a = phys_mem (pm ps) a"
    "spaces_ok (pm ps') (insert q R)" "utables (pm ps') q = {q}"
    "\<forall>r' \<in> R. utables (pm ps') r' = utables (pm ps) r' \<and> (\<forall>va. lookup (pm ps') r' va = lookup (pm ps) r' va)"
    and f: "kernel_pml4 ps' = kernel_pml4 ps" "pmm_frame (pm ps) (pm ps')" using create_pml4_ok [OF ok k] c(1,2) by auto
  have r: "q = r" using table_va_inj [OF tables_ok_pmm(2) [OF inv_tables [OF inv k(1)]] c(3) q(3,1)] by simp
  have "owned (ps', insert r R) = owned (ps, R)" using q r by (auto simp: owned_def)
  moreover have "phys_mem (pm ps') a = phys_mem (pm ps) a" if "a div 4096 \<notin> owned (ps, R)" for a
    using q(2,5) r that by (auto simp: owned_def)
  ultimately show ?thesis using q r f k table_va_frame [OF f(2)] by (simp add: isolated_def spaces_inv_def)
qed

lemma create_fail_step:
  assumes c: "paging_create_pml4 ps = Some (ps', 0)" and inv: "spaces_inv k (ps, R)"
  shows "spaces_inv k (ps', R) \<and> isolated (ps, R) {r} (ps', R)"
proof -
  have ok: "spaces_ok (pm ps) R" and k: "k \<in> R" "kernel_pml4 ps = table_va (pm ps) k" using inv by (simp_all add: spaces_inv_def)
  have p: "spaces_ok (pm ps') R" "pavail (pm ps') = pavail (pm ps)" "phys_mem (pm ps') = phys_mem (pm ps)"
    "kernel_pml4 ps' = kernel_pml4 ps" "pmm_frame (pm ps) (pm ps')" using create_pml4_ok [OF ok k] c by auto
  have "lookup (pm ps') r' va = lookup (pm ps) r' va" "utables (pm ps') r' = utables (pm ps) r'" for r' va
    using lookup_mem [of "pm ps" r' "pm ps'" va] tables_mem(2) [of "pm ps" r' "pm ps'"] p(3) by simp_all
  then show ?thesis using p k table_va_frame [OF p(5)] by (simp add: isolated_def spaces_inv_def owned_def)
qed

lemma destroy_step:
  assumes r: "r \<in> R" "table_va (pm ps) r \<noteq> kernel_pml4 ps" "paging_destroy_pml4 (pm ps) (table_va (pm ps) r) = Some s'"
    and inv: "spaces_inv k (ps, R)"
  shows "spaces_inv k (ps\<lparr>pm := s'\<rparr>, R - {r}) \<and> isolated (ps, R) {r} (ps\<lparr>pm := s'\<rparr>, R - {r})"
proof -
  have ok: "spaces_ok (pm ps) R" and k: "k \<in> R" "kernel_pml4 ps = table_va (pm ps) k" using inv by (simp_all add: spaces_inv_def)
  have d: "freed (pm ps) s' (utables (pm ps) r)" "spaces_ok s' (R - {r})" using destroy_pml4_ok [OF ok r(1)] r(3) by auto
  then have p: "phys_mem s' = phys_mem (pm ps)" "pavail s' = pavail (pm ps) \<union> utables (pm ps) r" "pmm_frame (pm ps) s'" by (simp_all add: freed_def)
  have u: "lookup s' r' va = lookup (pm ps) r' va" "utables s' r' = utables (pm ps) r'" for r' va
    using lookup_mem [of "pm ps" r' s' va] tables_mem(2) [of "pm ps" r' s'] p(1) by simp_all
  have "owned (ps\<lparr>pm := s'\<rparr>, R - {r}) = owned (ps, R)" using p(2) r(1) by (auto simp: owned_def u)
  moreover have "k \<noteq> r" using k(2) r(2) by auto
  ultimately show ?thesis using u p d(2) k table_va_frame [OF p(3)] by (simp add: isolated_def spaces_inv_def)
qed

lemma space_step_ok:
  assumes "space_step c r c'" "spaces_inv k c"
  shows "spaces_inv k c' \<and> isolated c {r} c'"
  using assms
proof (induction rule: space_step.induct)
  case (step_map r R va ps pa prot s' c)
  have "tables_ok (pm ps) r" by (rule inv_tables [OF step_map.prems step_map.hyps(1)])
  then have "within (pm ps) s' r" using map_ok [of "pm ps" r va pa prot] step_map.hyps by auto
  then show ?case by (rule within_step [OF step_map.prems step_map.hyps(1)])
next
  case (step_unmap r R va ps s' c)
  have "tables_ok (pm ps) r" by (rule inv_tables [OF step_unmap.prems step_unmap.hyps(1)])
  then have "within (pm ps) s' r" using unmap_ok [of "pm ps" r va] step_unmap.hyps by auto
  then show ?case by (rule within_step [OF step_unmap.prems step_unmap.hyps(1)])
next
  case (step_map_range r R va sz ps pa prot s' c)
  have "tables_ok (pm ps) r" by (rule inv_tables [OF step_map_range.prems step_map_range.hyps(1)])
  then have "within (pm ps) s' r" using map_range_ok [of "pm ps" r va sz pa prot] step_map_range.hyps by auto
  then show ?case by (rule within_step [OF step_map_range.prems step_map_range.hyps(1)])
next
  case (step_unmap_range r R va sz ps s' c)
  have "tables_ok (pm ps) r" by (rule inv_tables [OF step_unmap_range.prems step_unmap_range.hyps(1)])
  then have "within (pm ps) s' r" using unmap_range_ok [of "pm ps" r va sz] step_unmap_range.hyps by auto
  then show ?case by (rule within_step [OF step_unmap_range.prems step_unmap_range.hyps(1)])
next
  case (step_create ps ps' r R)
  then show ?case by (rule create_step)
next
  case (step_create_fail ps ps' R r)
  then show ?case by (rule create_fail_step)
next
  case (step_destroy r R ps s')
  then show ?case by (rule destroy_step)
qed

lemma space_run_ok:
  "space_run c rs c' \<Longrightarrow> spaces_inv k c \<Longrightarrow> spaces_inv k c' \<and> isolated c (set rs) c'"
proof (induction rule: space_run.induct)
  case (run_step c r c1 rs c')
  then show ?case using space_step_ok [OF run_step.hyps(1)] isolated_trans [of c "{r}" c1 "set rs" c'] by simp
qed (simp add: isolated_refl)

subsection \<open>Properties\<close>

lemma blank_space:
  assumes "pmm_ok s" "hhdm_ok s" "k < length (page_array s)" "k \<notin> pavail s" "\<forall>j < 512. entry s k j = 0"
  shows "spaces_ok s {k}" "tables s k = {k}" "lookup s k va = None"
proof -
  have top: "tbl s k [i] = None" if "i < 512" for i using assms(5) that by (simp add: child_def)
  have "q = []" if "q \<in> paths" "tbl s k q = Some f" for q f
  proof (cases q rule: rev_exhaust)
    case (snoc x i)
    then have "tbl s k q = None" using that(1) tbl_None_append [OF top, of i x] by (simp add: paths_def)
    then show ?thesis using that(2) by simp
  qed simp
  then have root: "q = [] \<and> f = k" if "q \<in> paths" "tbl s k q = Some f" for q f using that by fastforce
  have "tables_ok s k" unfolding tables_ok_def
  proof (intro conjI ballI allI impI assms(1,2))
    fix q f assume q: "q \<in> paths" "tbl s k q = Some f"
    then show "f < length (page_array s)" "f \<notin> pavail s" using root [OF q] assms(3,4) by simp_all
    show "q' = q" if "q' \<in> paths" "tbl s k q' = Some f" for q' using root [OF q] root [OF that] by simp
  qed
  then show "spaces_ok s {k}" by (simp add: spaces_ok_def)
  show "tables s k = {k}" using root tablesI [OF paths_Nil, of s k] by (auto simp: tables_def)
  have "tbl s k (wpath va) = None" using root [OF wpath_paths] by (cases "tbl s k (wpath va)") (auto simp: wpath_def)
  then show "lookup s k va = None" by (simp add: lookup_def)
qed

lemma within_lookup:
  assumes "spaces_ok s R" "r \<in> R" "within s s' r" "\<And>va. lookup s' r va = F va" "r' \<in> R"
  shows "lookup s' r' va = (if r' = r then F va else lookup s r' va)"
  using within_spaces(2) [OF assms(1-3,5)] assms(4) by simp

text \<open>A machine whose kernel has one empty top-level table.\<close>

lemma ex_space:
  obtains s0 s k where "pmm_init pmm_bss (Some ex_memmap) = Some s0" "alloc_pt_page s0 = Some (s, table_va s k)" "spaces_ok s {k}"
    "tables s k = {k}" "\<forall>va. lookup s k va = None" "k \<in> pavail s0" "pavail s = pavail s0 - {k}" "length (page_array s) = 1024"
proof -
  have z: "start_zone GFP_KERNEL = 2" by (simp add: start_zone_def zone_const)
  obtain s s1 p where s: "pmm_init pmm_bss (Some ex_memmap) = Some s" "pmm_ok s" "hhdm_offset s = 0xFFFF800000000000" "length (page_array s) = 1024"
    "alloc_pages s 0 GFP_KERNEL = Some (s1, Some p)" using ex_alloc [of pmm_bss GFP_KERNEL] z by metis
  have h: "hhdm_ok s" using s(3,4) by (simp add: hhdm_ok_def)
  from alloc_pages_ok [OF s(2), of 0 GFP_KERNEL] have g: "got s s1 0 (Suc (start_zone GFP_KERNEL)) (Some p)" using s(5) by auto
  then have pl: "p < length (page_array s)" "pmm_frame s s1" by (auto simp: got_def)
  have nz: "phys_to_virt s1 (PFN_TO_PHYS p) \<noteq> 0" using table_va_0 [OF h pl(1)] table_va_frame [OF pl(2)] by (simp add: table_va_def)
  show ?thesis
  proof (rule alloc_pt_page_ok [OF s(2) h])
    fix s' assume "alloc_pt_page s = Some (s', 0)"
    then show ?thesis using s(5) nz by (simp add: alloc_pt_page_def simple_get_free_page_def get_free_page_def get_free_pages_def)
  next
    fix s' k assume a: "alloc_pt_page s = Some (s', table_va s k)" "pmm_ok s'" "hhdm_ok s'" "pmm_frame s s'" "k \<in> pavail s" "k < length (page_array s)"
      "pavail s' = pavail s - {k}" "\<And>a. phys_mem s' a = (if a div 4096 = k then 0 else phys_mem s a)"
    have z: "\<forall>j < 512. entry s' k j = 0" using fresh_entry [OF a(8)] by simp
    have k: "k < length (page_array s')" "k \<notin> pavail s'" using a(4,6,7) by (simp_all add: pmm_frame_def)
    show ?thesis using that [OF s(1)] blank_space [OF a(2,3) k z] a(1,4,5,7) s(4) table_va_frame [OF a(4)] by (simp add: pmm_frame_def)
  qed
qed

text \<open>
  C6: The page tables implement a finite map from pages to entries, for any number of address spaces in the same
  physical memory. Mapping a user page either enters the new translation, or fails and changes no
  translation, and it fails only where there was none; unmapping removes the translation of the page and
  reports whether there was one; the physical address that is looked up is the one of the translation.
  None of them changes what another address space maps, and they keep the tables disjoint and allocated.
\<close>

theorem paging_refines_map:
  assumes "spaces_ok s R" "r \<in> R" "user_va va"
  shows "(\<exists>s' c. paging_map s (table_va s r) va pa prot = Some (s', c) \<and> (c = 0 \<or> c = -1 \<and> lookup s r va = None) \<and> spaces_ok s' R \<and>
      (\<forall>r' \<in> R. \<forall>va'. lookup s' r' va' =
        (if c = 0 \<and> r' = r \<and> page_of va' = page_of va then Some (make_pte pa prot) else lookup s r' va'))) \<and>
    (\<exists>s'. paging_unmap s (table_va s r) va = Some (s', if lookup s r va = None then -1 else 0) \<and> spaces_ok s' R \<and>
      (\<forall>r' \<in> R. \<forall>va'. lookup s' r' va' = (if r' = r \<and> page_of va' = page_of va then None else lookup s r' va'))) \<and>
    paging_get_phys s (table_va s r) va =
      Some (s, case lookup s r va of None \<Rightarrow> -1 | Some e \<Rightarrow> (e AND PTE_ADDR_MASK) OR (va AND 0xFFF))"
proof (intro conjI)
  note ok = spaces_okD(1) [OF assms(1,2)]
  obtain s' c where m: "paging_map s (table_va s r) va pa prot = Some (s', c)" "c = 0 \<or> c = -1 \<and> lookup s r va = None" "within s s' r"
    "\<And>va'. lookup s' r va' = (if c = 0 \<and> page_of va' = page_of va then Some (make_pte pa prot) else lookup s r va')"
    using map_ok [OF ok, of va pa prot] assms(3) by blast
  then show "\<exists>s' c. paging_map s (table_va s r) va pa prot = Some (s', c) \<and> (c = 0 \<or> c = -1 \<and> lookup s r va = None) \<and> spaces_ok s' R \<and>
      (\<forall>r' \<in> R. \<forall>va'. lookup s' r' va' =
        (if c = 0 \<and> r' = r \<and> page_of va' = page_of va then Some (make_pte pa prot) else lookup s r' va'))"
    using within_spaces(1) [OF assms(1,2) m(3)] within_lookup [OF assms(1,2) m(3,4)] by (intro exI [of _ s'] exI [of _ c]) simp
  obtain s'' where u: "paging_unmap s (table_va s r) va = Some (s'', if lookup s r va = None then -1 else 0)" "within s s'' r"
    "\<And>va'. lookup s'' r va' = (if page_of va' = page_of va then None else lookup s r va')" using unmap_ok [OF ok, of va] assms(3) by auto
  then show "\<exists>s'. paging_unmap s (table_va s r) va = Some (s', if lookup s r va = None then -1 else 0) \<and> spaces_ok s' R \<and>
      (\<forall>r' \<in> R. \<forall>va'. lookup s' r' va' = (if r' = r \<and> page_of va' = page_of va then None else lookup s r' va'))"
    using within_spaces(1) [OF assms(1,2) u(2)] within_lookup [OF assms(1,2) u(2,3)] by (intro exI [of _ s'']) simp
qed (rule get_phys_ok [OF spaces_okD(1) [OF assms(1,2)]])

theorem paging_refines_map_witness:
  "\<exists>s s' k c. spaces_ok s {k} \<and> user_va 0x400000 \<and> paging_map s (table_va s k) 0x400000 0x8000 7 = Some (s', c) \<and> spaces_ok s' {k} \<and>
     lookup s' k 0x400123 = (if c = 0 then Some 0x8007 else lookup s k 0x400123)"
proof -
  obtain s k where s: "spaces_ok s {k}" by (rule ex_space)
  have u: "user_va 0x400000" by (simp add: user_va_def PML4_INDEX_def)
  have p: "page_of 0x400123 = page_of 0x400000" by (simp add: page_of_def mask_eq_exp_minus_1)
  have m: "make_pte 0x8000 7 = 0x8007" by (simp add: make_pte_def PTE_ADDR_MASK_def PTE_PRESENT_def)
  from paging_refines_map [OF s singletonI u, of "0x8000" 7] obtain s' c where
    "paging_map s (table_va s k) 0x400000 0x8000 7 = Some (s', c)" "spaces_ok s' {k}"
    "lookup s' k 0x400123 = (if c = 0 \<and> k = k \<and> page_of 0x400123 = page_of 0x400000 then Some (make_pte 0x8000 7) else lookup s k 0x400123)" by blast
  then show ?thesis using s u p m by (intro exI [of _ s] exI [of _ s'] exI [of _ k] exI [of _ c]) simp
qed

text \<open>
  C25: Ranges below the end of the user half: the loops end. Mapping a range maps every page of it, in
  order, to the physical pages in order, and no other page; or it fails at some page of the range, and
  then all pages of the range before that one are left unmapped, also those that were mapped before the call.
  Unmapping a range removes the translations of its pages and of no other page. Other address spaces are not affected.
\<close>

theorem paging_range_exact:
  assumes "spaces_ok s R" "r \<in> R" "unat va + unat sz \<le> 2 ^ 47"
  shows "(\<exists>s' c. paging_map_range s (table_va s r) va pa sz prot = Some (s', c) \<and> spaces_ok s' R \<and>
      (\<forall>r' \<in> R - {r}. \<forall>va'. lookup s' r' va' = lookup s r' va') \<and>
      (c = 0 \<and> mapped s s' r va pa (va + sz) prot \<or>
       c = -1 \<and> (\<exists>x \<in> addrs va (va + sz). \<forall>va'. lookup s' r va' = (if page_of va' \<in> page_of ` addrs va x then None else lookup s r va')))) \<and>
    (\<exists>s'. paging_unmap_range s (table_va s r) va sz = Some (s', 0) \<and> spaces_ok s' R \<and>
      (\<forall>r' \<in> R - {r}. \<forall>va'. lookup s' r' va' = lookup s r' va') \<and>
      (\<forall>va'. lookup s' r va' = (if page_of va' \<in> page_of ` addrs va (va + sz) then None else lookup s r va')))"
proof
  note ok = spaces_okD(1) [OF assms(1,2)]
  obtain s' c where m: "paging_map_range s (table_va s r) va pa sz prot = Some (s', c)" "within s s' r"
    "c = 0 \<and> mapped s s' r va pa (va + sz) prot \<or>
     c = -1 \<and> (\<exists>x \<in> addrs va (va + sz). \<forall>va'. lookup s' r va' = (if page_of va' \<in> page_of ` addrs va x then None else lookup s r va'))"
    using map_range_ok [OF ok assms(3), of pa prot] by blast
  note w = within_spaces [OF assms(1,2) m(2)]
  show "\<exists>s' c. paging_map_range s (table_va s r) va pa sz prot = Some (s', c) \<and> spaces_ok s' R \<and>
      (\<forall>r' \<in> R - {r}. \<forall>va'. lookup s' r' va' = lookup s r' va') \<and>
      (c = 0 \<and> mapped s s' r va pa (va + sz) prot \<or>
       c = -1 \<and> (\<exists>x \<in> addrs va (va + sz). \<forall>va'. lookup s' r va' = (if page_of va' \<in> page_of ` addrs va x then None else lookup s r va')))"
    using m(1,3) w by (intro exI [of _ s'] exI [of _ c] conjI) simp_all
  obtain s'' where u: "paging_unmap_range s (table_va s r) va sz = Some (s'', 0)" "within s s'' r"
    "\<forall>va'. lookup s'' r va' = (if page_of va' \<in> page_of ` addrs va (va + sz) then None else lookup s r va')"
    using unmap_range_ok [OF ok assms(3)] by blast
  show "\<exists>s'. paging_unmap_range s (table_va s r) va sz = Some (s', 0) \<and> spaces_ok s' R \<and>
      (\<forall>r' \<in> R - {r}. \<forall>va'. lookup s' r' va' = lookup s r' va') \<and>
      (\<forall>va'. lookup s' r va' = (if page_of va' \<in> page_of ` addrs va (va + sz) then None else lookup s r va'))"
    using u(1,3) within_spaces [OF assms(1,2) u(2)] by (intro exI [of _ s''] conjI) simp_all
qed

theorem paging_range_exact_witness:
  "\<exists>s s' k. spaces_ok s {k} \<and> paging_unmap_range s (table_va s k) 0x400000 0x3000 = Some (s', 0) \<and> lookup s' k 0x401000 = None"
proof -
  obtain s k where s: "spaces_ok s {k}" by (rule ex_space)
  have "unat (0x400000 :: u64) + unat (0x3000 :: u64) \<le> 2 ^ 47" by simp
  from paging_range_exact [OF s singletonI this] obtain s' where
    u: "paging_unmap_range s (table_va s k) 0x400000 0x3000 = Some (s', 0)"
      "\<forall>va'. lookup s' k va' = (if page_of va' \<in> page_of ` addrs 0x400000 (0x400000 + 0x3000) then None else lookup s k va')" by blast
  have "0x401000 \<in> addrs 0x400000 (0x400000 + 0x3000)" unfolding addrs_def by (rule image_eqI [of _ _ 1]) simp_all
  then have "lookup s' k 0x401000 = None" using u(2) by simp
  then show ?thesis using s u(1) by blast
qed

text \<open>
  C24: \<^verbatim>\<open>paging_create_pml4\<close> gives a new address space with an empty user half and the mappings of the kernel
  half, in one frame that was free, or fails and changes nothing; \<^verbatim>\<open>paging_destroy_pml4\<close> gives back exactly
  the tables of the user half, each once, without a fault. All other address spaces keep their translations.
\<close>

theorem paging_create_destroy:
  assumes "spaces_ok (pm ps) R" "k \<in> R" "kernel_pml4 ps = table_va (pm ps) k"
  shows "(\<exists>ps' v. paging_create_pml4 ps = Some (ps', v) \<and>
      (v = 0 \<and> spaces_ok (pm ps') R \<and> pavail (pm ps') = pavail (pm ps) \<and> phys_mem (pm ps') = phys_mem (pm ps) \<or>
       (\<exists>r. v = table_va (pm ps) r \<and> r \<in> pavail (pm ps) \<and> pavail (pm ps') = pavail (pm ps) - {r} \<and> spaces_ok (pm ps') (insert r R) \<and>
          (\<forall>va. lookup (pm ps') r va = (if user_va va then None else lookup (pm ps) k va)) \<and>
          (\<forall>r' \<in> R. \<forall>va. lookup (pm ps') r' va = lookup (pm ps) r' va)))) \<and>
    (\<forall>r \<in> R. \<exists>s'. paging_destroy_pml4 (pm ps) (table_va (pm ps) r) = Some s' \<and> pavail s' = pavail (pm ps) \<union> utables (pm ps) r \<and>
       pavail (pm ps) \<inter> utables (pm ps) r = {} \<and> phys_mem s' = phys_mem (pm ps) \<and> spaces_ok s' (R - {r}) \<and>
       (\<forall>r' \<in> R - {r}. \<forall>va. lookup s' r' va = lookup (pm ps) r' va))"
proof (intro conjI ballI)
  show "\<exists>ps' v. paging_create_pml4 ps = Some (ps', v) \<and>
      (v = 0 \<and> spaces_ok (pm ps') R \<and> pavail (pm ps') = pavail (pm ps) \<and> phys_mem (pm ps') = phys_mem (pm ps) \<or>
       (\<exists>r. v = table_va (pm ps) r \<and> r \<in> pavail (pm ps) \<and> pavail (pm ps') = pavail (pm ps) - {r} \<and> spaces_ok (pm ps') (insert r R) \<and>
          (\<forall>va. lookup (pm ps') r va = (if user_va va then None else lookup (pm ps) k va)) \<and>
          (\<forall>r' \<in> R. \<forall>va. lookup (pm ps') r' va = lookup (pm ps) r' va)))"
  proof -
    obtain ps' v where c: "paging_create_pml4 ps = Some (ps', v)"
      "v = 0 \<and> spaces_ok (pm ps') R \<and> pavail (pm ps') = pavail (pm ps) \<and> phys_mem (pm ps') = phys_mem (pm ps) \<or>
       (\<exists>r. v = table_va (pm ps) r \<and> v \<noteq> 0 \<and> r \<in> pavail (pm ps) \<and> r < length (page_array (pm ps)) \<and>
          pavail (pm ps') = pavail (pm ps) - {r} \<and> (\<forall>a. a div 4096 \<noteq> r \<longrightarrow> phys_mem (pm ps') a = phys_mem (pm ps) a) \<and>
          spaces_ok (pm ps') (insert r R) \<and> utables (pm ps') r = {r} \<and> tables (pm ps') r \<subseteq> insert r (tables (pm ps) k) \<and>
          (\<forall>va. lookup (pm ps') r va = (if user_va va then None else lookup (pm ps) k va)) \<and>
          (\<forall>r' \<in> R. utables (pm ps') r' = utables (pm ps) r' \<and> (\<forall>va. lookup (pm ps') r' va = lookup (pm ps) r' va)))"
      using create_pml4_ok [OF assms] by (elim exE conjE)
    from c(2) show ?thesis
    proof (elim disjE exE conjE)
      fix r assume "v = table_va (pm ps) r" "r \<in> pavail (pm ps)" "pavail (pm ps') = pavail (pm ps) - {r}" "spaces_ok (pm ps') (insert r R)"
        "\<forall>va. lookup (pm ps') r va = (if user_va va then None else lookup (pm ps) k va)"
        "\<forall>r' \<in> R. utables (pm ps') r' = utables (pm ps) r' \<and> (\<forall>va. lookup (pm ps') r' va = lookup (pm ps) r' va)"
      then show ?thesis using c(1) by (intro exI [of _ ps'] exI [of _ v] conjI disjI2 exI [of _ r]) simp_all
    qed (use c(1) in blast)
  qed
  fix r assume r: "r \<in> R"
  obtain s' where d: "paging_destroy_pml4 (pm ps) (table_va (pm ps) r) = Some s'" "freed (pm ps) s' (utables (pm ps) r)" "spaces_ok s' (R - {r})"
    using destroy_pml4_ok [OF assms(1) r] by blast
  have "pavail (pm ps) \<inter> utables (pm ps) r = {}"
    using tables_notin [OF spaces_okD(1) [OF assms(1) r]] utables_sub [of "pm ps" r] by blast
  moreover have "\<forall>r' \<in> R - {r}. \<forall>va. lookup s' r' va = lookup (pm ps) r' va"
    using d(2) lookup_mem [of "pm ps" _ s'] by (simp add: freed_def)
  ultimately show "\<exists>s'. paging_destroy_pml4 (pm ps) (table_va (pm ps) r) = Some s' \<and> pavail s' = pavail (pm ps) \<union> utables (pm ps) r \<and>
       pavail (pm ps) \<inter> utables (pm ps) r = {} \<and> phys_mem s' = phys_mem (pm ps) \<and> spaces_ok s' (R - {r}) \<and>
       (\<forall>r' \<in> R - {r}. \<forall>va. lookup s' r' va = lookup (pm ps) r' va)"
    using d by (intro exI [of _ s']) (simp add: freed_def)
qed

theorem paging_create_destroy_witness:
  "\<exists>(ps :: paging_state) k s'. spaces_ok (pm ps) {k} \<and> kernel_pml4 ps = table_va (pm ps) k \<and>
     paging_destroy_pml4 (pm ps) (kernel_pml4 ps) = Some s' \<and> k \<in> pavail s' \<and> k \<notin> pavail (pm ps)"
proof -
  obtain s k where s: "spaces_ok s {k}" by (rule ex_space)
  let ?ps = "\<lparr>pm = s, kernel_pml4 = table_va s k, kernel_pml4_phys = PFN_TO_PHYS k\<rparr>"
  have ps: "spaces_ok (pm ?ps) {k}" "kernel_pml4 ?ps = table_va (pm ?ps) k" using s by simp_all
  have k: "k \<in> utables s k" by (rule utablesI [OF paths_Nil]) simp_all
  from paging_create_destroy [OF ps(1) singletonI ps(2)] obtain s' where
    "paging_destroy_pml4 s (table_va s k) = Some s'" "pavail s' = pavail s \<union> utables s k" "pavail s \<inter> utables s k = {}" by auto
  then show ?thesis using ps k by (intro exI [of _ ?ps] exI [of _ k] exI [of _ s']) auto
qed

text \<open>
  C7: Isolation: in any run of map, unmap, range, create and destroy operations on the user halves, an address
  space on which no step acts keeps all its translations; no step writes to a frame that is neither free nor a
  table of a user half, and frames are neither lost nor gained by these together.
\<close>

theorem paging_isolation:
  assumes "spaces_inv k (ps, R)" "space_run (ps, R) rs (ps', R')" "r \<in> R" "r \<notin> set rs"
  shows "spaces_ok (pm ps') R' \<and> r \<in> R' \<and> (\<forall>va. lookup (pm ps') r va = lookup (pm ps) r va) \<and>
    owned (ps', R') = owned (ps, R) \<and>
    (\<forall>a. phys_mem (pm ps') a \<noteq> phys_mem (pm ps) a \<longrightarrow> a div 4096 \<in> owned (ps, R))"
  using space_run_ok [OF assms(2,1)] assms(3,4) by (auto simp: spaces_inv_def isolated_def)

theorem paging_isolation_witness:
  "\<exists>ps k ps' R'. spaces_inv k (ps, {k}) \<and> (\<exists>r. space_run (ps, {k}) [r] (ps', R') \<and> r \<noteq> k) \<and> k \<in> R' \<and>
     owned (ps', R') = owned (ps, {k})"
proof -
  obtain s k where s: "spaces_ok s {k}" by (rule ex_space)
  let ?ps = "\<lparr>pm = s, kernel_pml4 = table_va s k, kernel_pml4_phys = PFN_TO_PHYS k\<rparr>"
  have inv: "spaces_inv k (?ps, {k})" using s by (simp add: spaces_inv_def)
  have "\<exists>r ps' R'. space_step (?ps, {k}) r (ps', R') \<and> r \<noteq> k"
  proof -
    have ok: "spaces_ok (pm ?ps) {k}" "kernel_pml4 ?ps = table_va (pm ?ps) k" using s by simp_all
    obtain ps' v where c: "paging_create_pml4 ?ps = Some (ps', v)"
      "v = 0 \<or> (\<exists>r. v = table_va (pm ?ps) r \<and> v \<noteq> 0 \<and> r \<in> pavail (pm ?ps) \<and> r < length (page_array (pm ?ps)))"
      using create_pml4_ok [OF ok(1) singletonI ok(2)] by blast
    have kn: "k \<notin> pavail s" using tables_notin [OF spaces_okD(1) [OF s singletonI] tablesI [OF paths_Nil]] by simp
    from c(2) show ?thesis
    proof
      assume "v = 0"
      then have "space_step (?ps, {k}) (Suc k) (ps', {k})" using c(1) by (intro step_create_fail) simp
      then show ?thesis by (intro exI [of _ "Suc k"]) auto
    next
      assume "\<exists>r. v = table_va (pm ?ps) r \<and> v \<noteq> 0 \<and> r \<in> pavail (pm ?ps) \<and> r < length (page_array (pm ?ps))"
      then obtain r where r: "v = table_va (pm ?ps) r" "v \<noteq> 0" "r \<in> pavail (pm ?ps)" "r < length (page_array (pm ?ps))" by blast
      have "space_step (?ps, {k}) r (ps', insert r {k})" using c(1) r by (intro step_create) simp_all
      then show ?thesis using kn r(3) by auto
    qed
  qed
  then obtain r ps' R' where st: "space_step (?ps, {k}) r (ps', R')" and rk: "r \<noteq> k" by blast
  have run: "space_run (?ps, {k}) [r] (ps', R')" by (rule run_step [OF st run_done])
  have "k \<notin> set [r]" using rk by simp
  from paging_isolation [OF inv run singletonI this] show ?thesis using inv run rk by blast
qed

end
