(* ===== verification/Vmm_Frames.thy ===== *)
theory Vmm_Frames
  imports Vmm Paging_Spaces
begin

text \<open>
  Who owns which page frame, and what user code sees through its page tables. Every frame is free, a page table,
  mapped into exactly one address space at one page, or held by the kernel for a structure; the primitive steps
  of the virtual memory manager move frames between these groups and lose none.
\<close>

subsection \<open>Ownership\<close>

definition uframe :: "pmm_state \<Rightarrow> nat \<Rightarrow> u64 \<Rightarrow> nat option" where
  "uframe s r va = (if user_va va then map_option frame_of (lookup s r va) else None)"

definition leaves :: "pmm_state \<Rightarrow> nat \<Rightarrow> nat set" where
  "leaves s r = {f. \<exists>va. uframe s r va = Some f}"

definition usable :: "pmm_state \<Rightarrow> nat set \<Rightarrow> nat \<Rightarrow> bool" where
  "usable s R f \<longleftrightarrow> f < length (page_array s) \<and> f \<notin> pavail s \<and> (\<forall>r \<in> R. f \<notin> tables s r)"

text \<open>\<open>R\<close>: the top-level tables, \<open>L\<close>: those of address spaces in use, \<open>X\<close>: the frames held by the kernel.\<close>

definition frames_ok :: "pmm_state \<Rightarrow> nat set \<Rightarrow> nat set \<Rightarrow> nat set \<Rightarrow> bool" where
  "frames_ok s R L X \<longleftrightarrow> pmm_ok s \<and> hhdm_ok s \<and> spaces_ok s R \<and> L \<subseteq> R \<and> (\<forall>f \<in> X. usable s R f) \<and>
     (\<forall>r \<in> L. \<forall>f \<in> leaves s r. usable s R f \<and> f \<notin> X) \<and>
     (\<forall>r \<in> L. \<forall>r' \<in> L. \<forall>va va' f. uframe s r va = Some f \<longrightarrow> uframe s r' va' = Some f \<longrightarrow> r = r' \<and> page_of va = page_of va')"

definition account :: "pmm_state \<Rightarrow> nat set \<Rightarrow> nat set \<Rightarrow> nat set \<Rightarrow> nat set" where
  "account s R L X = pavail s \<union> X \<union> (\<Union>r \<in> R. utables s r) \<union> (\<Union>r \<in> L. leaves s r)"

text \<open>What user code sees at an address: the permissions and the byte.\<close>

definition uview :: "pmm_state \<Rightarrow> nat \<Rightarrow> u64 \<Rightarrow> (u64 \<times> u8) option" where
  "uview s r va = (if user_va va
     then map_option (\<lambda>e. (e AND NOT PTE_ADDR_MASK, phys_mem s (frame_of e * 4096 + unat va mod 4096))) (lookup s r va)
     else None)"

lemma frames_okD:
  assumes "frames_ok s R L X"
  shows "pmm_ok s" "hhdm_ok s" "spaces_ok s R" "L \<subseteq> R" "f \<in> X \<Longrightarrow> usable s R f"
    "r \<in> L \<Longrightarrow> uframe s r va = Some f \<Longrightarrow> usable s R f" "r \<in> L \<Longrightarrow> uframe s r va = Some f \<Longrightarrow> f \<notin> X"
    "r \<in> L \<Longrightarrow> r' \<in> L \<Longrightarrow> uframe s r va = Some f \<Longrightarrow> uframe s r' va' = Some f \<Longrightarrow> r = r' \<and> page_of va = page_of va'"
  using assms unfolding frames_ok_def leaves_def by blast+

lemma frames_okI:
  assumes "pmm_ok s" "hhdm_ok s" "spaces_ok s R" "L \<subseteq> R" "\<And>f. f \<in> X \<Longrightarrow> usable s R f"
    "\<And>r va f. r \<in> L \<Longrightarrow> uframe s r va = Some f \<Longrightarrow> usable s R f \<and> f \<notin> X"
    "\<And>r r' va va' f. r \<in> L \<Longrightarrow> r' \<in> L \<Longrightarrow> uframe s r va = Some f \<Longrightarrow> uframe s r' va' = Some f \<Longrightarrow> r = r' \<and> page_of va = page_of va'"
  shows "frames_ok s R L X"
  using assms unfolding frames_ok_def leaves_def by blast

lemma leavesI: "uframe s r va = Some f \<Longrightarrow> f \<in> leaves s r"
  unfolding leaves_def by blast

lemma page_of_user: "page_of va = page_of va' \<Longrightarrow> user_va va = user_va va'"
  by (simp add: page_of_eq user_va_def wpath_def)

lemma uframe_None: "uframe s r va = None \<longleftrightarrow> (user_va va \<longrightarrow> lookup s r va = None)"
  by (simp add: uframe_def)

lemma uframe_page: "page_of va' = page_of va \<Longrightarrow> uframe s r va' = uframe s r va"
  using lookup_page [of va' va s r] page_of_user [of va' va] by (simp add: uframe_def)

lemma pavail_less: "pmm_ok s \<Longrightarrow> f \<in> pavail s \<Longrightarrow> f < length (page_array s)"
proof -
  assume ok: "pmm_ok s" and "f \<in> pavail s"
  then obtain i where "i < 3" "f \<in> free_frames (zones s ! i)" by (auto simp: pavail_def)
  then show ?thesis using free_zone [OF zones_okD(3) [of s i]] ok by (auto simp: pmm_ok_def)
qed

lemma usable_frame: "usable s R f \<Longrightarrow> hhdm_ok s \<Longrightarrow> f < 2 ^ 40"
  by (auto simp: usable_def hhdm_ok_def)

text \<open>Steps that do not touch the tables.\<close>

lemma spaces_keep:
  assumes ok: "spaces_ok s R" and m: "\<And>r a. r \<in> R \<Longrightarrow> a div 4096 \<in> tables s r \<Longrightarrow> phys_mem s' a = phys_mem s a"
    and s': "pmm_ok s'" "hhdm_ok s'" "pmm_frame s s'" and d: "\<And>r. r \<in> R \<Longrightarrow> tables s r \<inter> pavail s' = {}"
  shows "spaces_ok s' R"
proof -
  have "tables_ok s' r" if "r \<in> R" for r
    by (rule tables_ok_mem [OF spaces_okD(1) [OF ok that] m [OF that] s'(1,2) _ d [OF that]]) (use s'(3) in \<open>simp_all add: pmm_frame_def\<close>)
  moreover have "tables s' r = tables s r" "utables s' r = utables s r" if "r \<in> R" for r
    using tables_mem [OF m [OF that]] by blast+
  ultimately show ?thesis using ok by (simp add: spaces_ok_def)
qed

lemma frames_keep:
  assumes ok: "frames_ok s R L X" and m0: "\<forall>r \<in> R. \<forall>a. a div 4096 \<in> tables s r \<longrightarrow> phys_mem s' a = phys_mem s a"
    and s': "pmm_ok s'" "pmm_frame s s'" and X: "pavail s' \<union> X' = pavail s \<union> X" "pavail s' \<inter> X' = {}"
  shows "frames_ok s' R L X'" "account s' R L X' = account s R L X" "\<And>r va. r \<in> R \<Longrightarrow> lookup s' r va = lookup s r va"
proof -
  note o = frames_okD [OF ok]
  have m: "phys_mem s' a = phys_mem s a" if "r \<in> R" "a div 4096 \<in> tables s r" for r a using m0 that by blast
  have h: "hhdm_ok s'" using o(2) s'(2) by (simp add: hhdm_ok_def pmm_frame_def)
  have tf: "f \<notin> pavail s \<union> X" if "r \<in> R" "f \<in> tables s r" for r f
    using tables_notin [OF spaces_okD(1) [OF o(3) that(1)] that(2)] o(5) [of f] that by (auto simp: usable_def)
  show look: "lookup s' r va = lookup s r va" if "r \<in> R" for r va by (rule lookup_mem [OF m [OF that]])
  have tm: "tables s' r = tables s r" "utables s' r = utables s r" if "r \<in> R" for r using tables_mem [OF m [OF that]] by blast+
  have uf: "uframe s' r va = uframe s r va" if "r \<in> R" for r va using look [OF that] by (simp add: uframe_def)
  have sp: "spaces_ok s' R"
  proof (rule spaces_keep [OF o(3) m s'(1) h s'(2)])
    show "tables s r \<inter> pavail s' = {}" if "r \<in> R" for r using tf [OF that] X(1) by blast
  qed
  have len: "length (page_array s') = length (page_array s)" using s'(2) by (simp add: pmm_frame_def)
  show "frames_ok s' R L X'"
  proof (rule frames_okI [OF s'(1) h sp o(4)])
    fix f assume f: "f \<in> X'"
    then have "f \<in> pavail s \<union> X" using X(1) by blast
    then have "f < length (page_array s)" using pavail_less [OF o(1)] o(5) by (auto simp: usable_def)
    then show "usable s' R f" using f X(2) tf tm(1) \<open>f \<in> pavail s \<union> X\<close> len by (auto simp: usable_def)
  next
    fix r va f assume "r \<in> L" "uframe s' r va = Some f"
    then have "uframe s r va = Some f" using uf o(4) by auto
    from o(6,7) [OF \<open>r \<in> L\<close> this] show "usable s' R f \<and> f \<notin> X'" using X(1) tm(1) len by (auto simp: usable_def)
  next
    fix r r' va va' f assume "r \<in> L" "r' \<in> L" "uframe s' r va = Some f" "uframe s' r' va' = Some f"
    moreover have "r \<in> R" "r' \<in> R" using calculation(1,2) o(4) by blast+
    ultimately show "r = r' \<and> page_of va = page_of va'" using o(8) [of r r' va f va'] uf by simp
  qed
  have "leaves s' r = leaves s r" if "r \<in> L" for r
  proof -
    have "r \<in> R" using that o(4) by blast
    then show ?thesis using uf by (simp add: leaves_def)
  qed
  then show "account s' R L X' = account s R L X" using X(1) tm(2) by (simp add: account_def)
qed

lemma uview_keep:
  assumes "lookup s' r va = lookup s r va" "\<And>f a. uframe s r va = Some f \<Longrightarrow> a div 4096 = f \<Longrightarrow> phys_mem s' a = phys_mem s a"
  shows "uview s' r va = uview s r va"
proof (cases "user_va va \<and> lookup s r va \<noteq> None")
  case True
  then obtain e where e: "lookup s r va = Some e" by blast
  have "(frame_of e * 4096 + unat va mod 4096) div 4096 = frame_of e" by simp
  then have "phys_mem s' (frame_of e * 4096 + unat va mod 4096) = phys_mem s (frame_of e * 4096 + unat va mod 4096)"
    using assms(2) [of "frame_of e"] True e by (simp add: uframe_def)
  then show ?thesis using assms(1) e by (simp add: uview_def)
qed (use assms(1) in \<open>auto simp: uview_def\<close>)

text \<open>A step of the kernel: ownership is kept, no frame is lost, and address spaces outside \<open>A\<close> see no change.\<close>

definition moves :: "pmm_state \<Rightarrow> nat set \<Rightarrow> nat set \<Rightarrow> nat set \<Rightarrow> nat set \<Rightarrow> pmm_state \<Rightarrow> nat set \<Rightarrow> nat set \<Rightarrow> nat set \<Rightarrow> bool" where
  "moves s R L X A s' R' L' X' \<longleftrightarrow> frames_ok s' R' L' X' \<and> account s' R' L' X' = account s R L X \<and> pmm_frame s s' \<and>
     L - A \<subseteq> L' \<and> (\<forall>r \<in> L - A. \<forall>va. uview s' r va = uview s r va)"

lemma moves_trans:
  "moves s R L X A s1 R1 L1 X1 \<Longrightarrow> moves s1 R1 L1 X1 B s2 R2 L2 X2 \<Longrightarrow> moves s R L X (A \<union> B) s2 R2 L2 X2"
  unfolding moves_def pmm_frame_def by auto

lemma moves_mono: "moves s R L X A s' R' L' X' \<Longrightarrow> A \<subseteq> B \<Longrightarrow> moves s R L X B s' R' L' X'"
  unfolding moves_def by auto

lemma moves_refl: "frames_ok s R L X \<Longrightarrow> moves s R L X {} s R L X"
  by (simp add: moves_def pmm_frame_def)

lemma movesD:
  assumes "moves s R L X A s' R' L' X'"
  shows "frames_ok s' R' L' X'" "account s' R' L' X' = account s R L X" "pmm_frame s s'" "L - A \<subseteq> L'"
    "r \<in> L \<Longrightarrow> r \<notin> A \<Longrightarrow> uview s' r va = uview s r va" "table_va s' f = table_va s f"
  using assms table_va_frame [of s s' f] unfolding moves_def by auto

lemma frames_moves:
  assumes ok: "frames_ok s R L X" and m: "\<And>a. a div 4096 \<notin> W \<Longrightarrow> phys_mem s' a = phys_mem s a" and W: "W \<subseteq> pavail s \<union> X"
    and s': "pmm_ok s'" "pmm_frame s s'" and X: "pavail s' \<union> X' = pavail s \<union> X" "pavail s' \<inter> X' = {}"
  shows "moves s R L X {} s' R L X'" "r \<in> L \<Longrightarrow> lookup s' r va = lookup s r va"
proof -
  note o = frames_okD [OF ok]
  have "phys_mem s' a = phys_mem s a" if "r \<in> R" "a div 4096 \<in> tables s r" for r a
    using m [of a] W tables_notin [OF spaces_okD(1) [OF o(3) that(1)] that(2)] o(5) [of "a div 4096"] that by (auto simp: usable_def)
  then have "\<forall>r \<in> R. \<forall>a. a div 4096 \<in> tables s r \<longrightarrow> phys_mem s' a = phys_mem s a" by blast
  note k = frames_keep [OF ok this s' X]
  show "r \<in> L \<Longrightarrow> lookup s' r va = lookup s r va" using k(3) o(4) by blast
  have "uview s' r va = uview s r va" if "r \<in> L" for r va
  proof (rule uview_keep)
    show "lookup s' r va = lookup s r va" using k(3) o(4) that by blast
    show "phys_mem s' a = phys_mem s a" if "uframe s r va = Some f" "a div 4096 = f" for f a
      using m [of a] W o(6,7) [OF \<open>r \<in> L\<close> that(1)] that(2) by (auto simp: usable_def)
  qed
  then show "moves s R L X {} s' R L X'" using k(1,2) s'(2) by (simp add: moves_def)
qed

lemma get_page_ok:
  assumes ok: "frames_ok s R L X"
  obtains s' where "simple_get_free_page s = Some (s', 0)" "moves s R L X {} s' R L X" "phys_mem s' = phys_mem s"
    "\<And>r va. r \<in> L \<Longrightarrow> lookup s' r va = lookup s r va"
  | s' g where "simple_get_free_page s = Some (s', table_va s g)" "table_va s g \<noteq> 0" "g \<in> pavail s" "g \<notin> X"
    "moves s R L X {} s' R L (insert g X)" "phys_mem s' = phys_mem s" "\<And>r va. r \<in> L \<Longrightarrow> lookup s' r va = lookup s r va"
proof -
  note o = frames_okD [OF ok]
  obtain s1 p where a: "alloc_pages s 0 GFP_KERNEL = Some (s1, p)" "got s s1 0 (Suc (start_zone GFP_KERNEL)) p" "phys_mem s1 = phys_mem s"
    using alloc_pages_ok [OF o(1), of 0 GFP_KERNEL] by (auto simp: GFP_KERNEL_def split: option.splits)
  have fr: "pmm_ok s1" "pmm_frame s s1" using a(2) by (simp_all add: got_def)
  have Xp: "pavail s \<inter> X = {}" using o(5) by (auto simp: usable_def)
  show ?thesis
  proof (cases p)
    case None
    then have "simple_get_free_page s = Some (s1, 0)" using a(1) by (simp add: simple_get_free_page_def get_free_page_def get_free_pages_def)
    moreover have "pavail s1 = pavail s" using a(2) None by (simp add: got_def)
    ultimately show ?thesis using that(1) frames_moves [OF ok _ _ fr, of "{}" X] Xp a(3) by simp
  next
    case (Some g)
    then have g: "g \<in> pavail s" "g < length (page_array s)" "pavail s1 = pavail s - {g}" using a(2) by (auto simp: got_def)
    have "simple_get_free_page s = Some (s1, table_va s g)"
      using a(1) Some table_va_frame [OF fr(2)] by (simp add: simple_get_free_page_def get_free_page_def get_free_pages_def table_va_def)
    moreover have "g \<notin> X" using g(1) Xp by blast
    moreover have "pavail s1 \<union> insert g X = pavail s \<union> X" "pavail s1 \<inter> insert g X = {}" using g Xp by auto
    ultimately show ?thesis using that(2) frames_moves [OF ok _ _ fr, of "{}" "insert g X"] g(1) a(3) table_va_0 [OF o(2) g(2)] by simp
  qed
qed

lemma free_page_ok:
  assumes ok: "frames_ok s R L X" and g: "g \<in> X"
  shows "\<exists>s'. simple_free_page s (table_va s g) = Some s' \<and> moves s R L X {} s' R L (X - {g}) \<and> phys_mem s' = phys_mem s \<and>
    (\<forall>r \<in> L. \<forall>va. lookup s' r va = lookup s r va) \<and> pavail s' = insert g (pavail s)"
proof -
  note o = frames_okD [OF ok]
  have u: "g < length (page_array s)" "g \<notin> pavail s" using o(5) [OF g] by (auto simp: usable_def)
  obtain s' where s': "simple_free_page s (table_va s g) = Some s'" "freed s s' {g}"
    using free_pt_ok [OF o(1,2) u] by (auto simp: free_pt_page_def)
  then have f: "pmm_ok s'" "pmm_frame s s'" "phys_mem s' = phys_mem s" "pavail s' = insert g (pavail s)" by (auto simp: freed_def)
  have "pavail s' \<union> (X - {g}) = pavail s \<union> X" "pavail s' \<inter> (X - {g}) = {}" using f(4) g o(5) by (auto simp: usable_def)
  from frames_moves [OF ok _ _ f(1,2) this, of "{}"] show ?thesis using s'(1) f(3,4) by simp
qed

subsection \<open>Changing the tables\<close>

lemma usable_within:
  assumes ok: "frames_ok s R L X" and r: "r \<in> R" and w: "within s s' r"
  shows "usable s R f \<Longrightarrow> usable s' R f" "usable s R f \<Longrightarrow> a div 4096 = f \<Longrightarrow> phys_mem s' a = phys_mem s a"
    "(\<Union>q \<in> R. utables s' q) \<union> pavail s' = (\<Union>q \<in> R. utables s q) \<union> pavail s" "r' \<in> R \<Longrightarrow> r' \<noteq> r \<Longrightarrow> lookup s' r' va = lookup s r' va"
proof -
  note o = frames_okD [OF ok]
  show look: "lookup s' r' va = lookup s r' va" if "r' \<in> R" "r' \<noteq> r" for r' va using within_spaces(2) [OF o(3) r w that] .
  have m: "phys_mem s' a = phys_mem s a" if "r' \<in> R" "r' \<noteq> r" "a div 4096 \<in> tables s r'" for r' a
    using withinD(6) [OF w, of a] spaces_okD(2) [OF o(3) r that(1)] tables_notin [OF spaces_okD(1) [OF o(3) that(1)] that(3)] that by blast
  have t: "tables s' r' = tables s r'" "utables s' r' = utables s r'" if "r' \<in> R" "r' \<noteq> r" for r' using tables_mem [OF m [OF that]] by blast+
  have tr: "tables s' r \<subseteq> tables s r \<union> pavail s" using withinD(5) [OF w] by (auto simp: tables_def)
  show "usable s' R f" if "usable s R f"
  proof -
    have "f \<notin> tables s' r'" if r': "r' \<in> R" for r'
      using t(1) [OF r'] tr \<open>usable s R f\<close> r' by (cases "r' = r") (auto simp: usable_def)
    then show ?thesis using that withinD(2,3) [OF w] by (auto simp: usable_def pmm_frame_def)
  qed
  show "phys_mem s' a = phys_mem s a" if "usable s R f" "a div 4096 = f" for a
    using withinD(6) [OF w, of a] that r utables_sub [of s r] by (auto simp: usable_def)
  define A where "A = (\<Union>q \<in> R - {r}. utables s q)"
  have "(\<Union>q \<in> R. utables s' q) = utables s' r \<union> A" using t(2) r by (auto simp: A_def)
  moreover have "(\<Union>q \<in> R. utables s q) = utables s r \<union> A" using r by (auto simp: A_def)
  moreover have "utables s' r \<union> A \<union> pavail s' = utables s r \<union> A \<union> pavail s" using withinD(4) [OF w] by (metis Un_assoc Un_commute)
  ultimately show "(\<Union>q \<in> R. utables s' q) \<union> pavail s' = (\<Union>q \<in> R. utables s q) \<union> pavail s" by simp
qed

text \<open>A change within one address space that enters the frame \<open>g\<close> at one page, or empties it, or does neither.\<close>

lemma frames_within:
  assumes ok: "frames_ok s R L X" and r: "r \<in> L" and w: "within s s' r" and va: "user_va va"
    and look: "\<And>va'. uframe s' r va' = (if page_of va' = page_of va then fo else uframe s r va')"
    and X: "case fo of None \<Rightarrow> X' = X \<union> set_option (uframe s r va) | Some g \<Rightarrow> (uframe s r va = None \<and> g \<in> X \<and> X' = X - {g}) \<or> (uframe s r va = Some g \<and> X' = X)"
  shows "moves s R L X {r} s' R L X'" "\<And>va'. page_of va' \<noteq> page_of va \<Longrightarrow> lookup s' r va' = lookup s r va' \<Longrightarrow> uview s' r va' = uview s r va'"
proof -
  note o = frames_okD [OF ok]
  have rR: "r \<in> R" using r o(4) by blast
  note u = usable_within [OF ok rR w]
  have uf: "uframe s' r' va' = uframe s r' va'" if "r' \<in> L" "r' \<noteq> r" for r' va' using u(4) o(4) that by (auto simp: uframe_def)
  have cases': "uframe s' r' va' = uframe s r' va' \<and> (r' = r \<longrightarrow> page_of va' \<noteq> page_of va) \<or> r' = r \<and> page_of va' = page_of va \<and> uframe s' r' va' = fo"
    if "r' \<in> L" for r' va' using uf [OF that] look by (cases "r' = r") auto
  have old: "uframe s r va' = uframe s r va" if "page_of va' = page_of va" for va' by (rule uframe_page [OF that])
  have ux: "usable s' R f" if "f \<in> X'" for f
  proof -
    have "f \<in> X \<or> uframe s r va = Some f" using that X by (auto split: option.splits)
    then show ?thesis using u(1) o(5) o(6) [OF r] by blast
  qed
  have fr: "frames_ok s' R L X'"
  proof (rule frames_okI)
    show "pmm_ok s'" "hhdm_ok s'" using tables_ok_pmm [OF withinD(1) [OF w]] by blast+
    show "spaces_ok s' R" by (rule within_spaces(1) [OF o(3) rR w])
    show "L \<subseteq> R" by (rule o(4))
    show "usable s' R f" if "f \<in> X'" for f by (rule ux [OF that])
  next
    fix q va' f assume q: "q \<in> L" "uframe s' q va' = Some f"
    show "usable s' R f \<and> f \<notin> X'"
    proof (cases "q = r \<and> page_of va' = page_of va")
      case True
      then have fo: "fo = Some f" using q(2) look by simp
      then show ?thesis using X u(1) o(5) [of f] o(6,7) [OF r, of va f] by auto
    next
      case False
      then have f: "uframe s q va' = Some f" using cases' [OF q(1), of va'] q(2) by metis
      have "uframe s r va \<noteq> Some f" using o(8) [OF q(1) r f, of va] False by blast
      then show ?thesis using X u(1) [OF o(6) [OF q(1) f]] o(7) [OF q(1) f] by (auto split: option.splits)
    qed
  next
    fix q q' va1 va2 f assume q: "q \<in> L" "q' \<in> L" "uframe s' q va1 = Some f" "uframe s' q' va2 = Some f"
    have new: False if "fo = Some f" "p \<in> L" "uframe s p va' = Some f" "p = r \<longrightarrow> page_of va' \<noteq> page_of va" for p va'
      using X that o(7) [OF that(2,3)] o(8) [OF that(2) r that(3), of va] by auto
    have keep: "uframe s p va' = Some f" if "p \<in> L" "uframe s' p va' = Some f" "\<not> (p = r \<and> page_of va' = page_of va)" for p va'
      using cases' [OF that(1), of va'] that(2,3) by metis
    have hit: "fo = Some f" if "uframe s' r va' = Some f" "page_of va' = page_of va" for va' using that look by simp
    consider "q = r" "page_of va1 = page_of va" "q' = r" "page_of va2 = page_of va"
      | "q = r" "page_of va1 = page_of va" "\<not> (q' = r \<and> page_of va2 = page_of va)"
      | "q' = r" "page_of va2 = page_of va" "\<not> (q = r \<and> page_of va1 = page_of va)"
      | "\<not> (q = r \<and> page_of va1 = page_of va)" "\<not> (q' = r \<and> page_of va2 = page_of va)" by blast
    then show "q = q' \<and> page_of va1 = page_of va2"
    proof cases
      case 2
      then show ?thesis using new [OF hit q(2) keep [OF q(2,4)]] q(3) by blast
    next
      case 3
      then show ?thesis using new [OF hit q(1) keep [OF q(1,3)]] q(4) by blast
    next
      case 4
      then show ?thesis using o(8) [OF q(1,2) keep [OF q(1,3)] keep [OF q(2,4)]] by blast
    qed simp
  qed
  have lv: "leaves s' r \<union> X' = leaves s r \<union> X"
  proof (intro set_eqI iffI)
    fix f assume "f \<in> leaves s' r \<union> X'"
    then show "f \<in> leaves s r \<union> X" using X look by (fastforce simp: leaves_def split: option.splits if_splits)
  next
    fix f assume f: "f \<in> leaves s r \<union> X"
    show "f \<in> leaves s' r \<union> X'"
    proof (cases "f \<in> leaves s r")
      case True
      then obtain va' where va': "uframe s r va' = Some f" by (auto simp: leaves_def)
      show ?thesis
      proof (cases "page_of va' = page_of va")
        case True
        then have v: "uframe s r va = Some f" using va' old [OF True] by metis
        then show ?thesis using X look [of va] by (auto simp: leaves_def split: option.splits)
      next
        case False
        then show ?thesis using va' look [of va'] by (auto simp: leaves_def)
      qed
    next
      case False
      then have fX: "f \<in> X" using f by blast
      then show ?thesis using X look [of va] by (auto simp: leaves_def split: option.splits)
    qed
  qed
  have "leaves s' q = leaves s q" if "q \<in> L - {r}" for q using uf that by (simp add: leaves_def)
  moreover define B where "B = (\<Union>q \<in> L - {r}. leaves s q)"
  ultimately have lq: "(\<Union>q \<in> L. leaves s' q) = leaves s' r \<union> B" "(\<Union>q \<in> L. leaves s q) = leaves s r \<union> B" using r by auto
  have "account s' R L X' = ((\<Union>q \<in> R. utables s' q) \<union> pavail s') \<union> (leaves s' r \<union> X') \<union> B" unfolding account_def lq by (simp add: Un_ac)
  also have "\<dots> = account s R L X" unfolding account_def lq lv u(3) by (simp add: Un_ac)
  finally have acc: "account s' R L X' = account s R L X" .
  have "uview s' q va' = uview s q va'" if "q \<in> L" "q \<noteq> r" for q va'
    using u(4) [of q va'] o(4) that u(2) [OF o(6) [OF that(1)]] by (intro uview_keep) auto
  then show "moves s R L X {r} s' R L X'" using fr acc withinD(2) [OF w] by (simp add: moves_def)
  show "uview s' r va' = uview s r va'" if "page_of va' \<noteq> page_of va" "lookup s' r va' = lookup s r va'" for va'
    using that(2) u(2) [OF o(6) [OF r]] by (intro uview_keep) auto
qed

text \<open>Taking an address space out of use, and back.\<close>

lemma kill_ok:
  assumes ok: "frames_ok s R L X" and r: "r \<in> L"
  shows "frames_ok s R (L - {r}) (X \<union> leaves s r)" "account s R (L - {r}) (X \<union> leaves s r) = account s R L X"
proof -
  note o = frames_okD [OF ok]
  show "frames_ok s R (L - {r}) (X \<union> leaves s r)"
  proof (rule frames_okI [OF o(1-3)])
    show "L - {r} \<subseteq> R" using o(4) by blast
    show "usable s R f" if "f \<in> X \<union> leaves s r" for f using that o(5) o(6) [OF r] by (auto simp: leaves_def)
    show "usable s R f \<and> f \<notin> X \<union> leaves s r" if "q \<in> L - {r}" "uframe s q va = Some f" for q va f
      using that o(6,7) [of q va f] o(8) [of q r va f] r by (auto simp: leaves_def)
    show "q = q' \<and> page_of va = page_of va'" if "q \<in> L - {r}" "q' \<in> L - {r}" "uframe s q va = Some f" "uframe s q' va' = Some f" for q q' va va' f
      using that o(8) by blast
  qed
  show "account s R (L - {r}) (X \<union> leaves s r) = account s R L X" using r by (auto simp: account_def)
qed

lemma revive_ok:
  assumes ok: "frames_ok s R L X" and r: "r \<in> R" "r \<notin> L" "leaves s r \<subseteq> X"
    and inj: "\<forall>va va' f. uframe s r va = Some f \<longrightarrow> uframe s r va' = Some f \<longrightarrow> page_of va = page_of va'"
  shows "frames_ok s R (insert r L) (X - leaves s r)" "account s R (insert r L) (X - leaves s r) = account s R L X"
proof -
  note o = frames_okD [OF ok]
  show "frames_ok s R (insert r L) (X - leaves s r)"
  proof (rule frames_okI [OF o(1-3)])
    show "insert r L \<subseteq> R" using o(4) r(1) by blast
    show "usable s R f" if "f \<in> X - leaves s r" for f using that o(5) by blast
    show "usable s R f \<and> f \<notin> X - leaves s r" if "q \<in> insert r L" "uframe s q va = Some f" for q va f
      using that o(5,6,7) r(3) leavesI [of s q va f] by blast
    show "q = q' \<and> page_of va = page_of va'" if a: "q \<in> insert r L" "q' \<in> insert r L" "uframe s q va = Some f" "uframe s q' va' = Some f" for q q' va va' f
    proof (cases "q = r \<or> q' = r")
      case True
      then have "f \<in> X" using a(3,4) leavesI r(3) by blast
      then have "q = r" "q' = r" using a o(7) by blast+
      then show ?thesis using inj a(3,4) by blast
    next
      case False
      then show ?thesis using a o(8) by blast
    qed
  qed
  show "account s R (insert r L) (X - leaves s r) = account s R L X" using r by (auto simp: account_def)
qed

lemma within_dead:
  assumes ok: "frames_ok s R L X" and r: "r \<in> R" "r \<notin> L" and w: "within s s' r"
  shows "moves s R L X {} s' R L X"
proof -
  note o = frames_okD [OF ok] and u = usable_within [OF ok r(1) w]
  have uf: "uframe s' q va = uframe s q va" if "q \<in> L" for q va
  proof -
    have "q \<in> R" "q \<noteq> r" using that o(4) r(2) by blast+
    then show ?thesis using u(4) by (simp add: uframe_def)
  qed
  have "frames_ok s' R L X"
  proof (rule frames_okI)
    show "pmm_ok s'" "hhdm_ok s'" using tables_ok_pmm [OF withinD(1) [OF w]] by blast+
    show "spaces_ok s' R" by (rule within_spaces(1) [OF o(3) r(1) w])
    show "L \<subseteq> R" by (rule o(4))
    show "usable s' R f" if "f \<in> X" for f using that o(5) u(1) by blast
    show "usable s' R f \<and> f \<notin> X" if "q \<in> L" "uframe s' q va = Some f" for q va f using that uf o(6,7) u(1) by metis
    show "q = q' \<and> page_of va = page_of va'" if "q \<in> L" "q' \<in> L" "uframe s' q va = Some f" "uframe s' q' va' = Some f" for q q' va va' f
      using that uf o(8) by metis
  qed
  moreover have "leaves s' q = leaves s q" if "q \<in> L" for q using uf [OF that] by (simp add: leaves_def)
  then have "account s' R L X = account s R L X" unfolding account_def using u(3) by (simp add: Un_ac)
  moreover have "uview s' q va = uview s q va" if "q \<in> L" for q va
    using u(4) [of q va] o(4) r(2) that u(2) [OF o(6) [OF that]] by (intro uview_keep) auto
  ultimately show ?thesis using withinD(2) [OF w] by (simp add: moves_def)
qed

lemma frame_make_pte:
  assumes "g < 2 ^ 40" "prot AND PTE_ADDR_MASK = 0"
  shows "frame_of (make_pte (PFN_TO_PHYS g) prot) = g" "make_pte (PFN_TO_PHYS g) prot AND NOT PTE_ADDR_MASK = prot OR PTE_PRESENT"
proof -
  have p: "PFN_TO_PHYS g AND PTE_ADDR_MASK = PFN_TO_PHYS g"
  proof (rule bit_word_eqI)
    have "bit g k \<Longrightarrow> k < 40" for k using assms(1) by (metis bit_take_bit_iff take_bit_nat_eq_self)
    then show "bit (PFN_TO_PHYS g AND PTE_ADDR_MASK) n = bit (PFN_TO_PHYS g) n" for n
      by (auto simp: PFN_TO_PHYS_def PAGE_SHIFT_def bit_simps mask_bits) fastforce
  qed
  have b: "\<not> (bit prot n \<and> bit PTE_ADDR_MASK n)" for n using assms(2) by (metis bit_and_iff bit_0_eq bot_apply bot_bool_def)
  have pr: "bit PTE_PRESENT n \<longleftrightarrow> n = 0" for n unfolding PTE_PRESENT_def by (rule bit_1_iff [THEN trans]) simp
  have "make_pte (PFN_TO_PHYS g) prot AND PTE_ADDR_MASK = PFN_TO_PHYS g AND PTE_ADDR_MASK"
    by (rule bit_word_eqI) (use b in \<open>auto simp: make_pte_def bit_simps pr mask_bits\<close>)
  then have "make_pte (PFN_TO_PHYS g) prot AND PTE_ADDR_MASK = PFN_TO_PHYS g" using p by simp
  then show "frame_of (make_pte (PFN_TO_PHYS g) prot) = g" using assms(1) by (simp add: frame_of_def unat_PFN_TO_PHYS)
  show "make_pte (PFN_TO_PHYS g) prot AND NOT PTE_ADDR_MASK = prot OR PTE_PRESENT"
    by (rule bit_word_eqI) (use b in \<open>auto simp: make_pte_def bit_simps pr mask_bits\<close>)
qed

subsection \<open>The steps of the manager\<close>

lemma map_frame:
  assumes ok: "frames_ok s R L X" and r: "r \<in> L" and va: "user_va va" "uframe s r va = None" and g: "g \<in> X" and prot: "prot AND PTE_ADDR_MASK = 0"
  obtains s' where "paging_map s (table_va s r) va (PFN_TO_PHYS g) prot = Some (s', -1)" "moves s R L X {} s' R L X"
    "\<And>va'. lookup s' r va' = lookup s r va'"
  | s' where "paging_map s (table_va s r) va (PFN_TO_PHYS g) prot = Some (s', 0)" "moves s R L X {r} s' R L (X - {g})"
    "\<And>va'. lookup s' r va' = (if page_of va' = page_of va then Some (make_pte (PFN_TO_PHYS g) prot) else lookup s r va')"
    "\<And>va'. page_of va' \<noteq> page_of va \<Longrightarrow> uview s' r va' = uview s r va'" "\<And>a. a div 4096 = g \<Longrightarrow> phys_mem s' a = phys_mem s a"
    "pavail s' \<subseteq> pavail s"
proof -
  note o = frames_okD [OF ok]
  have rR: "r \<in> R" using r o(4) by blast
  obtain s' c where m: "paging_map s (table_va s r) va (PFN_TO_PHYS g) prot = Some (s', c)" "c = 0 \<or> c = -1" "within s s' r"
    "\<And>va'. lookup s' r va' = (if c = 0 \<and> page_of va' = page_of va then Some (make_pte (PFN_TO_PHYS g) prot) else lookup s r va')"
    using map_ok [OF spaces_okD(1) [OF o(3) rR], of va "PFN_TO_PHYS g" prot] va(1) by blast
  note u = usable_within [OF ok rR m(3)]
  have gf: "frame_of (make_pte (PFN_TO_PHYS g) prot) = g" using frame_make_pte [OF usable_frame [OF o(5) [OF g] o(2)] prot] by simp
  show ?thesis
  proof (cases "c = 0")
    case True
    then have uf: "uframe s' r va' = (if page_of va' = page_of va then Some g else uframe s r va')" for va'
      using m(4) [of va'] page_of_user [of va' va] va(1) gf by (auto simp: uframe_def)
    note w = frames_within [OF ok r m(3) va(1) uf, of "X - {g}"]
    show ?thesis using that(2) [of s'] m True w va(2) g u(2) [OF o(5) [OF g]] withinD(3) [OF m(3)] by simp
  next
    case False
    then have c: "c = -1" "\<And>va'. lookup s' r va' = lookup s r va'" using m(2,4) by auto
    then have uf: "uframe s' r va' = (if page_of va' = page_of va then None else uframe s r va')" for va'
      using va(2) uframe_page [of va' va s r] by (auto simp: uframe_def)
    have mv: "moves s R L X {r} s' R L X" using frames_within(1) [OF ok r m(3) va(1) uf, of X] va(2) by simp
    have "uview s' r va' = uview s r va'" for va' using c(2) u(2) [OF o(6) [OF r]] by (intro uview_keep) auto
    then have "moves s R L X {} s' R L X" using mv by (auto simp: moves_def)
    then show ?thesis using that(1) m(1) c by simp
  qed
qed

lemma lookup_mem_eq: "phys_mem s' = phys_mem s \<Longrightarrow> lookup s' r va = lookup s r va"
  using lookup_mem [of s r s' va] by simp

lemma free_mapped_eq:
  assumes ok: "tables_ok s r"
  shows "free_mapped s (table_va s r) va =
    (case lookup s r va of None \<Rightarrow> Some (s, False)
     | Some e \<Rightarrow> do { s2 \<leftarrow> simple_free_page s (table_va s (frame_of e)); Some (s2, True) })"
proof (rule get_pte_ok [OF ok, of va])
  fix f assume "paging_get_pte s (table_va s r) va = Some (s, table_va s f + 8 * word_of_nat (leaf va))" "tbl s r (wpath va) = Some f"
    "table_va s f + 8 * word_of_nat (leaf va) \<noteq> 0" "load64 s (table_va s f + 8 * word_of_nat (leaf va)) = entry s f (leaf va)"
  then show ?thesis by (auto simp: free_mapped_def lookup_def table_va_def frame_addr)
qed (simp add: free_mapped_def)

lemma unmap_frame:
  assumes ok: "frames_ok s R L X" and r: "r \<in> L" and va: "user_va va"
  shows "\<exists>s1 s2 c. free_mapped s (table_va s r) va = Some (s1, uframe s r va \<noteq> None) \<and> paging_unmap s1 (table_va s r) va = Some (s2, c) \<and>
    moves s R L X {r} s2 R L X \<and> (\<forall>va'. lookup s2 r va' = (if page_of va' = page_of va then None else lookup s r va')) \<and>
    (\<forall>va'. page_of va' \<noteq> page_of va \<longrightarrow> uview s2 r va' = uview s r va') \<and> pavail s2 = pavail s \<union> set_option (uframe s r va)"
proof (cases "lookup s r va")
  case None
  note o = frames_okD [OF ok]
  have rR: "r \<in> R" using r o(4) by blast
  note tok = spaces_okD(1) [OF o(3) rR]
  have n: "uframe s r va = None" using None by (simp add: uframe_def)
  obtain s2 where s2: "paging_unmap s (table_va s r) va = Some (s2, -1)" "within s s2 r" "pavail s2 = pavail s"
    "\<And>va'. lookup s2 r va' = (if page_of va' = page_of va then None else lookup s r va')" using unmap_ok [OF tok, of va] va None by auto
  have uf: "uframe s2 r va' = (if page_of va' = page_of va then None else uframe s r va')" for va' using s2(4) by (simp add: uframe_def)
  note w = frames_within [OF ok r s2(2) va uf, of X]
  show ?thesis using s2 w n None free_mapped_eq [OF tok] by (intro exI [of _ s] exI [of _ s2] exI [of _ "-1"]) simp
next
  case (Some e)
  note o = frames_okD [OF ok]
  have rR: "r \<in> R" using r o(4) by blast
  note tok = spaces_okD(1) [OF o(3) rR] and k = kill_ok [OF ok r]
  define g where "g = frame_of e"
  have ug: "uframe s r va = Some g" using Some va by (simp add: uframe_def g_def)
  have gl: "g \<in> X \<union> leaves s r" using leavesI [OF ug] by blast
  obtain s1 where s1: "simple_free_page s (table_va s g) = Some s1" "moves s R (L - {r}) (X \<union> leaves s r) {} s1 R (L - {r}) (X \<union> leaves s r - {g})"
    "phys_mem s1 = phys_mem s" "pavail s1 = insert g (pavail s)" using free_page_ok [OF k(1) gl] by blast
  note o1 = frames_okD [OF movesD(1) [OF s1(2)]]
  have l1: "lookup s1 r va' = lookup s r va'" for va' using lookup_mem_eq [OF s1(3)] .
  obtain s2 where s2: "paging_unmap s1 (table_va s1 r) va = Some (s2, 0)" "within s1 s2 r" "pavail s2 = pavail s1"
    "\<And>va'. lookup s2 r va' = (if page_of va' = page_of va then None else lookup s r va')"
    using unmap_ok [OF spaces_okD(1) [OF o1(3) rR], of va] va Some l1 by auto
  have uf: "uframe s2 r va' = (if page_of va' = page_of va then None else uframe s r va')" for va' using s2(4) by (simp add: uframe_def)
  note u = usable_within [OF movesD(1) [OF s1(2)] rR s2(2)]
  have m2: "moves s1 R (L - {r}) (X \<union> leaves s r - {g}) {} s2 R (L - {r}) (X \<union> leaves s r - {g})"
    by (rule within_dead [OF movesD(1) [OF s1(2)] rR _ s2(2)]) simp
  have lv: "leaves s2 r = leaves s r - {g}"
  proof (intro set_eqI iffI)
    fix f assume "f \<in> leaves s2 r"
    then obtain va' where v: "uframe s r va' = Some f" "page_of va' \<noteq> page_of va" using uf by (auto simp: leaves_def split: if_splits)
    then show "f \<in> leaves s r - {g}" using o(8) [OF r r v(1), of va] ug leavesI [OF v(1)] by auto
  next
    fix f assume "f \<in> leaves s r - {g}"
    then obtain va' where v: "uframe s r va' = Some f" "f \<noteq> g" by (auto simp: leaves_def)
    then have "page_of va' \<noteq> page_of va" using uframe_page [of va' va s r] ug by auto
    then show "f \<in> leaves s2 r" using uf [of va'] v(1) by (auto simp: leaves_def)
  qed
  have gX: "g \<notin> X" "X \<inter> leaves s r = {}" using o(7) [OF r ug] o(7) [OF r] by (auto simp: leaves_def)
  have rv: "frames_ok s2 R L X" "account s2 R L X = account s2 R (L - {r}) (X \<union> leaves s r - {g})"
  proof -
    have "page_of va1 = page_of va2" if "uframe s2 r va1 = Some f" "uframe s2 r va2 = Some f" for va1 va2 f
      using that uf o(8) [OF r r, of va1 f va2] by (auto split: if_splits)
    then have inj: "\<forall>va va' f. uframe s2 r va = Some f \<longrightarrow> uframe s2 r va' = Some f \<longrightarrow> page_of va = page_of va'" by blast
    have sub: "leaves s2 r \<subseteq> X \<union> leaves s r - {g}" "r \<notin> L - {r}" by (auto simp: lv)
    have e: "insert r (L - {r}) = L" "X \<union> leaves s r - {g} - leaves s2 r = X" using r gX by (auto simp: lv)
    note rk = revive_ok [OF movesD(1) [OF m2] rR sub(2,1) inj, unfolded e]
    show "frames_ok s2 R L X" "account s2 R L X = account s2 R (L - {r}) (X \<union> leaves s r - {g})" using rk by blast+
  qed
  have mem: "phys_mem s2 a = phys_mem s a" if "uframe s r va' = Some f" "page_of va' \<noteq> page_of va" "a div 4096 = f" for va' f a
  proof -
    have "f \<in> X \<union> leaves s r - {g}" using that o(8) [OF r r that(1), of va] ug leavesI [OF that(1)] by auto
    then show ?thesis using u(2) [OF o1(5) that(3)] s1(3) by simp
  qed
  have uv: "uview s2 r va' = uview s r va'" if "page_of va' \<noteq> page_of va" for va'
    using s2(4) [of va'] that mem [OF _ that] by (intro uview_keep) auto
  have "moves s R L X {r} s2 R L X"
    using moves_trans [OF s1(2) m2] rv k(2) by (auto simp: moves_def)
  moreover have "free_mapped s (table_va s r) va = Some (s1, True)" using free_mapped_eq [OF tok, of va] Some s1(1) by (simp add: g_def)
  ultimately show ?thesis using s2 uv ug s1(4) movesD(6) [OF s1(2)] by (intro exI [of _ s1] exI [of _ s2] exI [of _ 0]) simp
qed

text \<open>Writing to the page that is mapped at an address.\<close>

lemma write_frame:
  assumes ok: "frames_ok s R L X" and r: "r \<in> L" and g: "uframe s r va = Some g"
    and s': "s' = s\<lparr>phys_mem := m\<rparr>" "\<And>a. a div 4096 \<noteq> g \<Longrightarrow> m a = phys_mem s a"
  shows "moves s R L X {r} s' R L X" "lookup s' r va' = lookup s r va'" "page_of va' \<noteq> page_of va \<Longrightarrow> uview s' r va' = uview s r va'"
proof -
  note o = frames_okD [OF ok]
  have u: "usable s R g" by (rule o(6) [OF r g])
  have p: "pmm_ok s'" "pmm_frame s s'" "pavail s' = pavail s" using o(1) by (simp_all add: s'(1) pmm_ok_def zones_ok_def zone_hi_def pmm_frame_def pavail_def)
  have "phys_mem s' a = phys_mem s a" if "q \<in> R" "a div 4096 \<in> tables s q" for q a
  proof -
    have "a div 4096 \<noteq> g" using u that by (auto simp: usable_def)
    then show ?thesis using s' by simp
  qed
  then have "\<forall>q \<in> R. \<forall>a. a div 4096 \<in> tables s q \<longrightarrow> phys_mem s' a = phys_mem s a" by blast
  note k = frames_keep [OF ok this p(1,2), of X]
  have pX: "pavail s' \<union> X = pavail s \<union> X" "pavail s' \<inter> X = {}" using p(3) o(5) by (auto simp: usable_def)
  have look: "lookup s' q va' = lookup s q va'" if "q \<in> L" for q va' using k(3) [OF pX] that o(4) by blast
  have uv: "uview s' q va' = uview s q va'" if "q \<in> L" "q \<noteq> r \<or> page_of va' \<noteq> page_of va" for q va'
  proof (rule uview_keep [OF look [OF that(1)]])
    fix f a assume "uframe s q va' = Some f" "a div 4096 = f"
    moreover from this have "f \<noteq> g" using o(8) [OF that(1) r, of va' f va] g that(2) by auto
    ultimately show "phys_mem s' a = phys_mem s a" using s' by simp
  qed
  show "moves s R L X {r} s' R L X" using k(1,2) [OF pX] p(2) uv by (simp add: moves_def)
  show "lookup s' r va' = lookup s r va'" by (rule look [OF r])
  show "uview s' r va' = uview s r va'" if "page_of va' \<noteq> page_of va" using uv r that by blast
qed

lemma zero_page_mem:
  assumes "hhdm_ok s" "g < length (page_array s)"
  shows "zero_page s (table_va s g) = s\<lparr>phys_mem := \<lambda>a. if a div 4096 = g then 0 else phys_mem s a\<rparr>"
  using zero_range [of s s g] assms by (simp add: zero_page_def table_va_def hhdm_ok_def)

lemma frame_div: "(f * 4096 + unat va mod 4096) div 4096 = f"
  by simp

subsection \<open>The loops over pages\<close>

lemma unmap_area_ok:
  assumes "frames_ok s R L X" "r \<in> L" "unat e \<le> 2 ^ 47"
  shows "\<exists>s' n'. unmap_area s (table_va s r) a e n = Some (s', n') \<and> moves s R L X {r} s' R L X \<and> pavail s \<subseteq> pavail s' \<and>
    (\<forall>va. lookup s' r va = (if page_of va \<in> page_of ` addrs a e then None else lookup s r va)) \<and>
    (\<forall>va. uview s' r va = (if page_of va \<in> page_of ` addrs a e then None else uview s r va))"
  using assms(1)
proof (induction "unat e - unat a" arbitrary: s a n rule: less_induct)
  case less
  show ?case
  proof (cases "a < e")
    case False
    then show ?thesis using moves_mono [OF moves_refl [OF less.prems], of "{r}"] by (subst unmap_area.simps) (auto simp: addrs_empty)
  next
    case True
    obtain s1 s2 c where u: "free_mapped s (table_va s r) a = Some (s1, uframe s r a \<noteq> None)" "paging_unmap s1 (table_va s r) a = Some (s2, c)"
      "moves s R L X {r} s2 R L X" "\<And>va. lookup s2 r va = (if page_of va = page_of a then None else lookup s r va)"
      "\<And>va. page_of va \<noteq> page_of a \<Longrightarrow> uview s2 r va = uview s r va" "pavail s \<subseteq> pavail s2"
      using unmap_frame [OF less.prems assms(2) user_less [OF True assms(3)]] by auto
    define n1 where "n1 = (if uframe s r a \<noteq> None then n + 1 else n)"
    have "unat e - unat (a + PAGE_SIZE) < unat e - unat a" using True unat_next [OF True assms(3)] by (simp add: word_less_nat_alt)
    from less.hyps [OF this movesD(1) [OF u(3)], of n1] obtain s' n' where
      IH: "unmap_area s2 (table_va s2 r) (a + PAGE_SIZE) e n1 = Some (s', n')" "moves s2 R L X {r} s' R L X" "pavail s2 \<subseteq> pavail s'"
      "\<And>va. lookup s' r va = (if page_of va \<in> page_of ` addrs (a + PAGE_SIZE) e then None else lookup s2 r va)"
      "\<And>va. uview s' r va = (if page_of va \<in> page_of ` addrs (a + PAGE_SIZE) e then None else uview s2 r va)" by blast
    have "unmap_area s (table_va s r) a e n = Some (s', n')"
      using True u(1,2) IH(1) movesD(6) [OF u(3)] by (subst unmap_area.simps) (simp add: n1_def)
    moreover have "moves s R L X {r} s' R L X" using moves_trans [OF u(3) IH(2)] by simp
    moreover have "uview s2 r va = (if page_of va = page_of a then None else uview s r va)" for va
      using u(4) [of va] u(5) [of va] by (simp add: uview_def)
    ultimately show ?thesis using IH(3-5) u(4,6) by (simp add: addrs_step [OF True assms(3)])
  qed
qed

text \<open>One page of a new region: taken from the free frames, mapped, and zeroed.\<close>

lemma map_new_page:
  assumes ok: "frames_ok s R L X" and r: "r \<in> L" and va: "user_va va" "uframe s r va = None" and prot: "prot AND PTE_ADDR_MASK = 0"
    and p4: "pml4 as = table_va s r"
  obtains s' where "moves s R L X {} s' R L X" "\<And>va'. lookup s' r va' = lookup s r va'"
    "va < e \<Longrightarrow> map_area s as start va e prot = Option.bind (vmm_unmap_region s' as start (va - start)) (\<lambda>(s2, as2, c). Some (s2, as2, -1))"
  | s' where "moves s R L X {r} s' R L X"
    "va < e \<Longrightarrow> map_area s as start va e prot = map_area s' as start (va + PAGE_SIZE) e prot"
    "\<And>va'. page_of va' \<noteq> page_of va \<Longrightarrow> lookup s' r va' = lookup s r va' \<and> uview s' r va' = uview s r va'"
    "\<And>va'. page_of va' = page_of va \<Longrightarrow> uview s' r va' = Some (prot OR PTE_PRESENT, 0)"
proof (rule get_page_ok [OF ok])
  fix s1 assume a: "simple_get_free_page s = Some (s1, 0)" "moves s R L X {} s1 R L X" "phys_mem s1 = phys_mem s"
  have "va < e \<Longrightarrow> map_area s as start va e prot = Option.bind (vmm_unmap_region s1 as start (va - start)) (\<lambda>(s2, as2, c). Some (s2, as2, -1))"
    using a(1) by (subst map_area.simps) simp
  then show ?thesis using that(1) [OF a(2) lookup_mem_eq [OF a(3)]] by blast
next
  fix s1 g assume a: "simple_get_free_page s = Some (s1, table_va s g)" "table_va s g \<noteq> 0" "g \<in> pavail s" "g \<notin> X"
    "moves s R L X {} s1 R L (insert g X)" "phys_mem s1 = phys_mem s"
  note tv = movesD(6) [OF a(5)] and l1 = lookup_mem_eq [OF a(6)]
  have phys: "table_va s g - hhdm_offset s1 = PFN_TO_PHYS g"
    using movesD(3) [OF a(5)] by (simp add: table_va_def phys_to_virt_def pmm_frame_def)
  have n1: "uframe s1 r va = None" unfolding uframe_def l1 using va(2) [unfolded uframe_def] .
  show ?thesis
  proof (rule map_frame [OF movesD(1) [OF a(5)] r va(1) n1 insertI1 prot])
    fix s2 assume m: "paging_map s1 (table_va s1 r) va (PFN_TO_PHYS g) prot = Some (s2, -1)" "moves s1 R L (insert g X) {} s2 R L (insert g X)"
      "\<And>va'. lookup s2 r va' = lookup s1 r va'"
    obtain s3 where f: "simple_free_page s2 (table_va s2 g) = Some s3" "moves s2 R L (insert g X) {} s3 R L (insert g X - {g})" "phys_mem s3 = phys_mem s2"
      using free_page_ok [OF movesD(1) [OF m(2)] insertI1] by blast
    have mv: "moves s R L X {} s3 R L X" using moves_trans [OF a(5) moves_trans [OF m(2) f(2)]] a(4) by simp
    have t2: "table_va s2 g = table_va s g" using movesD(6) [OF m(2)] tv by simp
    have "va < e \<Longrightarrow> map_area s as start va e prot = Option.bind (vmm_unmap_region s3 as start (va - start)) (\<lambda>(s2, as2, c). Some (s2, as2, -1))"
      using a(1,2) m(1) f(1) t2 phys p4 tv by (subst map_area.simps) simp
    then show ?thesis using that(1) [OF mv] m(3) l1 lookup_mem_eq [OF f(3)] by simp
  next
    fix s2 assume m: "paging_map s1 (table_va s1 r) va (PFN_TO_PHYS g) prot = Some (s2, 0)" "moves s1 R L (insert g X) {r} s2 R L (insert g X - {g})"
      "\<And>va'. lookup s2 r va' = (if page_of va' = page_of va then Some (make_pte (PFN_TO_PHYS g) prot) else lookup s1 r va')"
      "\<And>va'. page_of va' \<noteq> page_of va \<Longrightarrow> uview s2 r va' = uview s1 r va'"
    have X: "insert g X - {g} = X" using a(4) by blast
    note o2 = frames_okD [OF movesD(1) [OF m(2)]]
    have g: "g < length (page_array s)" using pavail_less [OF frames_okD(1) [OF ok] a(3)] .
    then have g2: "g < length (page_array s2)" "g < 2 ^ 40"
      using movesD(3) [OF a(5)] movesD(3) [OF m(2)] frames_okD(2) [OF ok] by (simp_all add: pmm_frame_def hhdm_ok_def)
    note fp = frame_make_pte [OF g2(2) prot]
    have u2: "uframe s2 r va = Some g" using m(3) va(1) fp(1) by (simp add: uframe_def)
    define s3 where "s3 = s2\<lparr>phys_mem := \<lambda>a. if a div 4096 = g then 0 else phys_mem s2 a\<rparr>"
    have z: "zero_page s2 (table_va s g) = s3"
      using zero_page_mem [OF o2(2) g2(1)] movesD(6) [OF m(2)] tv by (simp add: s3_def)
    note w = write_frame [OF movesD(1) [OF m(2)] r u2 s3_def]
    have mv: "moves s R L X {r} s3 R L X" using moves_trans [OF a(5) moves_trans [OF m(2) w(1)]] by (simp add: X)
    have step: "va < e \<Longrightarrow> map_area s as start va e prot = map_area s3 as start (va + PAGE_SIZE) e prot"
      using a(1,2) m(1) phys p4 tv z by (subst map_area.simps) simp
    have other: "lookup s3 r va' = lookup s r va' \<and> uview s3 r va' = uview s r va'" if "page_of va' \<noteq> page_of va" for va'
      using w(2,3) m(3,4) [of va'] l1 that movesD(5) [OF a(5) r] by simp
    have new: "uview s3 r va' = Some (prot OR PTE_PRESENT, 0)" if "page_of va' = page_of va" for va'
      using that w(2) [of va'] m(3) [of va'] page_of_user [OF that] va(1) fp by (simp add: uview_def s3_def)
    show ?thesis using that(2) [OF mv step other new] by blast
  qed
qed

lemma addrs_less: "x \<in> addrs (a + PAGE_SIZE) e \<Longrightarrow> a < e \<Longrightarrow> unat e \<le> 2 ^ 47 \<Longrightarrow> a < x \<and> unat x \<le> 2 ^ 47"
proof -
  assume x: "x \<in> addrs (a + PAGE_SIZE) e" and lt: "a < e" "unat e \<le> 2 ^ 47"
  then obtain j where j: "x = a + PAGE_SIZE + 4096 * of_nat j" "unat (a + PAGE_SIZE) + 4096 * j < unat e" by (auto simp: addrs_def)
  then have "unat x = unat a + 4096 + 4096 * j" using unat_addr [of "a + PAGE_SIZE" j] unat_next [OF lt] lt(2) by simp
  then show ?thesis using j(2) unat_next [OF lt] lt(2) by (simp add: word_less_nat_alt)
qed

lemma map_area_ok:
  assumes "frames_ok s R L X" "r \<in> L" "unat e \<le> 2 ^ 47" "prot AND PTE_ADDR_MASK = 0" "pml4 as = table_va s r"
    "\<forall>x \<in> addrs a e. uframe s r x = None"
  shows "(\<exists>s'. map_area s as start a e prot = Some (s', as, 0) \<and> moves s R L X {r} s' R L X \<and>
      (\<forall>va. uview s' r va = (if page_of va \<in> page_of ` addrs a e then Some (prot OR PTE_PRESENT, 0) else uview s r va)) \<and>
      (\<forall>va. page_of va \<notin> page_of ` addrs a e \<longrightarrow> lookup s' r va = lookup s r va)) \<or>
    (\<exists>s'. \<exists>x \<in> addrs a e. map_area s as start a e prot = Option.bind (vmm_unmap_region s' as start (x - start)) (\<lambda>(s2, as2, c). Some (s2, as2, -1)) \<and>
      moves s R L X {r} s' R L X \<and>
      (\<forall>va. page_of va \<notin> page_of ` addrs a x \<longrightarrow> lookup s' r va = lookup s r va \<and> uview s' r va = uview s r va))"
  using assms(1,5,6)
proof (induction "unat e - unat a" arbitrary: s a rule: less_induct)
  case less
  show ?case
  proof (cases "a < e")
    case False
    then show ?thesis using moves_mono [OF moves_refl [OF less.prems(1)], of "{r}"] by (subst map_area.simps) (simp add: addrs_empty)
  next
    case True
    have step: "addrs a e = insert a (addrs (a + PAGE_SIZE) e)" by (rule addrs_step [OF True assms(3)])
    have n: "uframe s r a = None" using less.prems(3) step by simp
    show ?thesis
    proof (rule map_new_page [OF less.prems(1) assms(2) user_less [OF True assms(3)] n assms(4) less.prems(2), of e start])
      fix s' assume s': "moves s R L X {} s' R L X" "\<And>va'. lookup s' r va' = lookup s r va'"
        "a < e \<Longrightarrow> map_area s as start a e prot = Option.bind (vmm_unmap_region s' as start (a - start)) (\<lambda>(s2, as2, c). Some (s2, as2, -1))"
      have "\<forall>va. page_of va \<notin> page_of ` addrs a a \<longrightarrow> lookup s' r va = lookup s r va \<and> uview s' r va = uview s r va"
        using s'(2) movesD(5) [OF s'(1) assms(2)] by simp
      then show ?thesis using s'(3) [OF True] moves_mono [OF s'(1), of "{r}"] step by (intro disjI2 exI [of _ s'] bexI [of _ a]) simp_all
    next
      fix s1 assume s1: "moves s R L X {r} s1 R L X" "a < e \<Longrightarrow> map_area s as start a e prot = map_area s1 as start (a + PAGE_SIZE) e prot"
        "\<And>va'. page_of va' \<noteq> page_of a \<Longrightarrow> lookup s1 r va' = lookup s r va' \<and> uview s1 r va' = uview s r va'"
        "\<And>va'. page_of va' = page_of a \<Longrightarrow> uview s1 r va' = Some (prot OR PTE_PRESENT, 0)"
      have dec: "unat e - unat (a + PAGE_SIZE) < unat e - unat a" using True unat_next [OF True assms(3)] by (simp add: word_less_nat_alt)
      have p4: "pml4 as = table_va s1 r" using less.prems(2) movesD(6) [OF s1(1)] by simp
      have nl: "page_of a \<notin> page_of ` addrs (a + PAGE_SIZE) e" by (rule addr_not_later [OF True assms(3)])
      have "uframe s1 r x = None" if "x \<in> addrs (a + PAGE_SIZE) e" for x
      proof -
        have "page_of x \<noteq> page_of a" using nl imageI [OF that, of page_of] by metis
        moreover have "uframe s r x = None" using less.prems(3) step that by simp
        ultimately show ?thesis using s1(3) [of x] by (simp add: uframe_None)
      qed
      then have "\<forall>x \<in> addrs (a + PAGE_SIZE) e. uframe s1 r x = None" by blast
      from less.hyps [OF dec movesD(1) [OF s1(1)] p4 this] show ?thesis
      proof (elim disjE exE bexE conjE)
        fix s' assume IH: "map_area s1 as start (a + PAGE_SIZE) e prot = Some (s', as, 0)" "moves s1 R L X {r} s' R L X"
          "\<forall>va. uview s' r va = (if page_of va \<in> page_of ` addrs (a + PAGE_SIZE) e then Some (prot OR PTE_PRESENT, 0) else uview s1 r va)"
          "\<forall>va. page_of va \<notin> page_of ` addrs (a + PAGE_SIZE) e \<longrightarrow> lookup s' r va = lookup s1 r va"
        have "moves s R L X {r} s' R L X" using moves_trans [OF s1(1) IH(2)] by simp
        then show ?thesis using IH(1,3,4) s1(2) [OF True] s1(3,4) unfolding step by (intro disjI1 exI [of _ s']) auto
      next
        fix s' x assume IH: "x \<in> addrs (a + PAGE_SIZE) e"
          "map_area s1 as start (a + PAGE_SIZE) e prot = Option.bind (vmm_unmap_region s' as start (x - start)) (\<lambda>(s2, as2, c). Some (s2, as2, -1))"
          "moves s1 R L X {r} s' R L X"
          "\<forall>va. page_of va \<notin> page_of ` addrs (a + PAGE_SIZE) x \<longrightarrow> lookup s' r va = lookup s1 r va \<and> uview s' r va = uview s1 r va"
        have ax: "addrs a x = insert a (addrs (a + PAGE_SIZE) x)" using addrs_step addrs_less [OF IH(1) True assms(3)] by blast
        have "moves s R L X {r} s' R L X" using moves_trans [OF s1(1) IH(3)] by simp
        moreover have "lookup s' r va = lookup s r va \<and> uview s' r va = uview s r va" if "page_of va \<notin> page_of ` addrs a x" for va
          using that IH(4) s1(3) [of va] by (auto simp: ax)
        ultimately show ?thesis using IH(1,2) s1(2) [OF True] step by (intro disjI2 exI [of _ s'] bexI [of _ x]) simp_all
      qed
    qed
  qed
qed

end
