(* ===== verification/Vmm_Regions.thy ===== *)
theory Vmm_Regions
  imports Vmm_Areas Vmm_Frames
begin

text \<open>
  The operations of the virtual memory manager on regions: mapping and unmapping keep the areas and the page
  tables of an address space in step, give fresh zeroed pages, and give back exactly the pages of the region.
\<close>

subsection \<open>Aligned user regions\<close>

definition aligned :: "u64 \<Rightarrow> bool" where "aligned a \<longleftrightarrow> 4096 dvd unat a"

definition bound_ok :: "u64 \<Rightarrow> bool" where "bound_ok a \<longleftrightarrow> aligned a \<and> unat a \<le> 2 ^ 47"

definition low :: "u64 \<Rightarrow> bool" where "low va \<longleftrightarrow> unat va < 2 ^ 47"

lemma page_in:
  assumes a: "aligned a" and e: "bound_ok e" and va: "low va"
  shows "page_of va \<in> page_of ` addrs a e \<longleftrightarrow> va \<in> {a..<e}"
proof -
  obtain A E where A: "unat a = 4096 * A" and E: "unat e = 4096 * E" "unat e \<le> 2 ^ 47" using a e by (auto simp: aligned_def bound_ok_def elim!: dvdE)
  have k: "page_of va = page_of (a + 4096 * of_nat k) \<longleftrightarrow> unat va div 4096 = A + k" if "unat a + 4096 * k < unat e" for k
  proof -
    have u: "unat (a + 4096 * of_nat k) = 4096 * (A + k)" using unat_addr [of a k] that E(2) A by simp
    then have "unat (page_of (a + 4096 * of_nat k)) = A + k" using page_of_low [of "a + 4096 * of_nat k"] that E(2) A by simp
    moreover have "unat (page_of va) = unat va div 4096" using page_of_low va by (simp add: low_def)
    ultimately show ?thesis using unat_eq_iff by metis
  qed
  have "page_of va \<in> page_of ` addrs a e \<longleftrightarrow> (\<exists>k. unat a + 4096 * k < unat e \<and> unat va div 4096 = A + k)"
    unfolding addrs_def using k by (auto simp: image_iff)
  also have "\<dots> \<longleftrightarrow> A \<le> unat va div 4096 \<and> unat va div 4096 < E"
  proof
    assume d: "A \<le> unat va div 4096 \<and> unat va div 4096 < E"
    then obtain k where k: "unat va div 4096 = A + k" using le_Suc_ex by blast
    then have "4096 * A + 4096 * k < 4096 * E" using d by simp
    then show "\<exists>k. unat a + 4096 * k < unat e \<and> unat va div 4096 = A + k" using A E k by auto
  qed (use A E in auto)
  also have "\<dots> \<longleftrightarrow> va \<in> {a..<e}" using A E by (auto simp: word_le_nat_alt word_less_nat_alt)
  finally show ?thesis .
qed

subsection \<open>The structures of the areas\<close>

definition holders :: "pmm_state \<Rightarrow> vm_area list \<Rightarrow> nat set" where
  "holders s vs = {f. f < length (page_array s) \<and> table_va s f \<in> va_page ` set vs}"

definition hold :: "pmm_state \<Rightarrow> nat set \<Rightarrow> vm_area list \<Rightarrow> bool" where
  "hold s X vs \<longleftrightarrow> distinct (map va_page vs) \<and> (\<forall>v \<in> set vs. \<exists>f \<in> X. f < length (page_array s) \<and> va_page v = table_va s f)"

lemma hold_Nil [simp]: "hold s X []" "holders s [] = {}"
  by (simp_all add: hold_def holders_def)

lemma hold_Cons:
  shows "hold s X (v # vs) \<longleftrightarrow> (\<exists>f \<in> X. f < length (page_array s) \<and> va_page v = table_va s f \<and> f \<notin> holders s vs) \<and> hold s X vs"
proof -
  have "va_page v \<notin> va_page ` set vs \<longleftrightarrow> f \<notin> holders s vs" if "f < length (page_array s)" "va_page v = table_va s f" for f
    using that by (simp add: holders_def)
  then show ?thesis unfolding hold_def list.map distinct.simps set_map list.set(2) by blast
qed

lemma holders_Cons:
  assumes "hhdm_ok s" "f < length (page_array s)" "va_page v = table_va s f"
  shows "holders s (v # vs) = insert f (holders s vs)"
  using assms table_va_inj [OF assms(1)] by (auto simp: holders_def)

lemma holders_frame: "pmm_frame s s' \<Longrightarrow> holders s' vs = holders s vs"
  using table_va_frame [of s s'] by (simp add: holders_def pmm_frame_def)

lemma hold_frame: "pmm_frame s s' \<Longrightarrow> hold s' X vs = hold s X vs"
  using table_va_frame [of s s'] by (simp add: hold_def pmm_frame_def)

lemma hold_mono: "hold s X vs \<Longrightarrow> X \<inter> holders s vs \<subseteq> X' \<Longrightarrow> hold s X' vs"
proof -
  assume h: "hold s X vs" and sub: "X \<inter> holders s vs \<subseteq> X'"
  have "\<exists>f \<in> X'. f < length (page_array s) \<and> va_page v = table_va s f" if v: "v \<in> set vs" for v
  proof -
    obtain f where f: "f \<in> X" "f < length (page_array s)" "va_page v = table_va s f" using h v by (auto simp: hold_def)
    then have "f \<in> holders s vs" using imageI [OF v, of va_page] by (simp add: holders_def)
    then show ?thesis using f sub by blast
  qed
  then show ?thesis using h by (simp add: hold_def)
qed

lemma hold_sub: "hold s X vs \<Longrightarrow> hhdm_ok s \<Longrightarrow> holders s vs \<subseteq> X"
  using table_va_inj [of s] by (fastforce simp: hold_def holders_def)

lemma vma_free_ok:
  assumes "frames_ok s R L X" "f \<in> X" "va_page v = table_va s f"
  shows "\<exists>s'. vma_free s v = Some s' \<and> moves s R L X {} s' R L (X - {f}) \<and> phys_mem s' = phys_mem s"
  using free_page_ok [OF assms(1,2)] assms(3) by (auto simp: vma_free_def)

lemma vma_alloc_ok:
  assumes ok: "frames_ok s R L X"
  obtains s' where "vma_alloc s = Some (s', None)" "moves s R L X {} s' R L X" "phys_mem s' = phys_mem s"
  | s' g where "vma_alloc s = Some (s', Some \<lparr>va_page = table_va s g, va_start = 0, va_end = 0, va_flags = 0, page_prot = 0, va_file = 0, file_offset = 0\<rparr>)"
    "moves s R L X {} s' R L (insert g X)" "g \<notin> X" "g < length (page_array s)" "phys_mem s' = phys_mem s"
proof (rule get_page_ok [OF ok])
  fix s' assume "simple_get_free_page s = Some (s', 0)" "moves s R L X {} s' R L X" "phys_mem s' = phys_mem s"
  then show ?thesis using that(1) by (simp add: vma_alloc_def)
next
  fix s' g assume a: "simple_get_free_page s = Some (s', table_va s g)" "table_va s g \<noteq> 0" "g \<in> pavail s" "g \<notin> X"
    "moves s R L X {} s' R L (insert g X)" "phys_mem s' = phys_mem s"
  then show ?thesis using that(2) pavail_less [OF frames_okD(1) [OF ok] a(3)] by (simp add: vma_alloc_def)
qed

subsection \<open>Unmapping\<close>

definition cover :: "vm_area list \<Rightarrow> u64 set" where "cover vs = (\<Union>v \<in> set vs. span v)"

definition cleared :: "pmm_state \<Rightarrow> pmm_state \<Rightarrow> nat \<Rightarrow> u64 set \<Rightarrow> bool" where
  "cleared s s' r S \<longleftrightarrow> (\<forall>va. low va \<longrightarrow> uview s' r va = (if va \<in> S then None else uview s r va) \<and>
     lookup s' r va = (if va \<in> S then None else lookup s r va))"

lemma cleared_trans: "cleared s s1 r S \<Longrightarrow> cleared s1 s2 r S' \<Longrightarrow> cleared s s2 r (S \<union> S')"
  by (auto simp: cleared_def)

lemma cleared_empty: "moves s R L X {} s' R L X' \<Longrightarrow> r \<in> L \<Longrightarrow> phys_mem s' = phys_mem s \<Longrightarrow> cleared s s' r {}"
  using lookup_mem_eq [of s' s r] movesD(5) [of s R L X "{}" s' R L X' r] by (simp add: cleared_def)

lemma cover_simps [simp]: "cover [] = {}" "cover (v # vs) = span v \<union> cover vs"
  by (simp_all add: cover_def)

lemma cover_above: "vmas_ok (v # vs) \<Longrightarrow> hi \<le> va_end v \<Longrightarrow> cover vs \<inter> {lo..<hi} = {}"
  by (fastforce simp: cover_def span_def)

lemma unmap_head:
  assumes ok: "frames_ok s R L X" "r \<in> L" and b: "bound_ok lo" "bound_ok hi" "bound_ok (va_start v)" "bound_ok (va_end v)"
  defines "us \<equiv> (if va_start v > lo then va_start v else lo)" and "ue \<equiv> (if va_end v < hi then va_end v else hi)"
  shows "\<exists>s1 n1. unmap_area s (table_va s r) us ue n = Some (s1, n1) \<and> moves s R L X {r} s1 R L X \<and> cleared s s1 r (span v \<inter> {lo..<hi})"
proof -
  have bs: "bound_ok us" "bound_ok ue" using b by (auto simp: us_def ue_def)
  have S: "{us..<ue} = span v \<inter> {lo..<hi}" by (auto simp: us_def ue_def span_def)
  obtain s1 n1 where u: "unmap_area s (table_va s r) us ue n = Some (s1, n1)" "moves s R L X {r} s1 R L X"
    "\<And>va. lookup s1 r va = (if page_of va \<in> page_of ` addrs us ue then None else lookup s r va)"
    "\<And>va. uview s1 r va = (if page_of va \<in> page_of ` addrs us ue then None else uview s r va)"
    using unmap_area_ok [OF ok, of ue us n] bs(2) by (auto simp: bound_ok_def)
  have "cleared s s1 r {us..<ue}" using u(3,4) page_in [OF _ bs(2)] bs(1) by (simp add: cleared_def bound_ok_def)
  then show ?thesis using u(1,2) S by auto
qed

definition unmapped :: "pmm_state \<Rightarrow> nat set \<Rightarrow> nat set \<Rightarrow> nat set \<Rightarrow> nat \<Rightarrow> vm_area list \<Rightarrow> u64 \<Rightarrow> u64 \<Rightarrow> u64 \<Rightarrow>
    (pmm_state \<times> vm_area list \<times> u64 \<times> u64) option \<Rightarrow> bool" where
  "unmapped s R L X r vs lo hi cnt res \<longleftrightarrow> (\<exists>s' vs' c n' wo X'. res = Some (s', vs', c, n') \<and> vs' = cut_vmas vs lo hi wo \<and>
     moves s R L X {r} s' R L X' \<and> hold s X' vs' \<and> X' - holders s vs' = X - holders s vs \<and>
     c + of_nat (length vs) = cnt + of_nat (length vs') \<and> cleared s s' r (cover vs \<inter> {lo..<hi}))"

lemma unmappedI:
  "res = Some (s', cut_vmas vs lo hi wo, c, n') \<Longrightarrow> moves s R L X {r} s' R L X' \<Longrightarrow> hold s X' (cut_vmas vs lo hi wo) \<Longrightarrow>
   X' - holders s (cut_vmas vs lo hi wo) = X - holders s vs \<Longrightarrow> c + of_nat (length vs) = cnt + of_nat (length (cut_vmas vs lo hi wo)) \<Longrightarrow>
   cleared s s' r (cover vs \<inter> {lo..<hi}) \<Longrightarrow> unmapped s R L X r vs lo hi cnt res"
  unfolding unmapped_def by blast

text \<open>An area stays, possibly with new bounds, and the others are done after it.\<close>

lemma unmapped_keep:
  assumes ok: "frames_ok s R L X" and m: "moves s R L X {r} s1 R L X" "cleared s s1 r (span v \<inter> {lo..<hi})"
    and h: "hold s X (v # vs)" and v': "va_page v' = va_page v"
    and c: "\<And>wo. cut_vmas (v # vs) lo hi wo = v' # cut_vmas vs lo hi wo"
    and IH: "unmapped s1 R L X r vs lo hi cnt res"
  shows "unmapped s R L X r (v # vs) lo hi cnt (do { (s2, vs1, c, k) \<leftarrow> res; Some (s2, v' # vs1, c, k) })"
proof -
  note hh = frames_okD(2) [OF ok] and fr = movesD(3) [OF m(1)]
  obtain s2 vs1 c1 k wo X' where r: "res = Some (s2, vs1, c1, k)" "vs1 = cut_vmas vs lo hi wo" "moves s1 R L X {r} s2 R L X'"
    "hold s X' vs1" "X' - holders s vs1 = X - holders s vs" "c1 + of_nat (length vs) = cnt + of_nat (length vs1)"
    "cleared s1 s2 r (cover vs \<inter> {lo..<hi})"
    using IH hold_frame [OF fr] holders_frame [OF fr] unfolding unmapped_def by auto
  obtain f where f: "f \<in> X" "f < length (page_array s)" "va_page v = table_va s f" "f \<notin> holders s vs" using h by (auto simp: hold_Cons)
  have f': "f \<in> X'" "f \<notin> holders s vs1" using f(1,4) r(5) by blast+
  have H: "hold s X' (v' # vs1)" using r(4) f' f(2,3) v' by (auto simp: hold_Cons)
  have hs: "holders s (v' # vs1) = insert f (holders s vs1)" "holders s (v # vs) = insert f (holders s vs)"
    using holders_Cons [OF hh f(2)] f(3) v' by simp_all
  have mv: "moves s R L X {r} s2 R L X'" using moves_trans [OF m(1) r(3)] by simp
  have cl: "cleared s s2 r (cover (v # vs) \<inter> {lo..<hi})" using cleared_trans [OF m(2) r(7)] by (simp add: Int_Un_distrib2)
  have "X' - holders s (v' # vs1) = X - holders s (v # vs)" unfolding hs using r(5) by blast
  then show ?thesis using H mv cl r(1,6) unfolding r(2) by (intro unmappedI [where wo = wo and X' = X']) (simp_all add: c del: cut_vmas.simps)
qed

lemma unmapped_drop:
  assumes ok: "frames_ok s R L X" "r \<in> L" and m: "moves s R L X {r} s1 R L X" "cleared s s1 r (span v \<inter> {lo..<hi})"
    and h: "hold s X (v # vs)" and c: "\<And>wo. cut_vmas (v # vs) lo hi wo = cut_vmas vs lo hi wo"
    and IH: "\<And>s2 f. frames_ok s2 R L (X - {f}) \<Longrightarrow> hold s2 (X - {f}) vs \<Longrightarrow> pmm_frame s s2 \<Longrightarrow> unmapped s2 R L (X - {f}) r vs lo hi (cnt - 1) (res s2)"
  shows "unmapped s R L X r (v # vs) lo hi cnt (Option.bind (vma_free s1 v) res)"
proof -
  note hh = frames_okD(2) [OF ok(1)]
  obtain f where f: "f \<in> X" "f < length (page_array s)" "va_page v = table_va s f" "f \<notin> holders s vs" "hold s X vs" using h by (auto simp: hold_Cons)
  obtain s2 where s2: "vma_free s1 v = Some s2" "moves s1 R L X {} s2 R L (X - {f})" "phys_mem s2 = phys_mem s1"
    using vma_free_ok [OF movesD(1) [OF m(1)] f(1), of v] f(3) movesD(6) [OF m(1)] by auto
  have m2: "moves s R L X {r} s2 R L (X - {f})" using moves_trans [OF m(1) s2(2)] by simp
  note fr = movesD(3) [OF m2]
  have "hold s (X - {f}) vs" using hold_mono [OF f(5), of "X - {f}"] f(4) by blast
  then have "unmapped s2 R L (X - {f}) r vs lo hi (cnt - 1) (res s2)" using IH movesD(1) [OF m2] hold_frame [OF fr] fr by blast
  then obtain s3 vs1 c1 k wo X' where r: "res s2 = Some (s3, vs1, c1, k)" "vs1 = cut_vmas vs lo hi wo" "moves s2 R L (X - {f}) {r} s3 R L X'"
    "hold s X' vs1" "X' - holders s vs1 = X - {f} - holders s vs" "c1 + of_nat (length vs) = cnt - 1 + of_nat (length vs1)"
    "cleared s2 s3 r (cover vs \<inter> {lo..<hi})"
    using hold_frame [OF fr] holders_frame [OF fr] unfolding unmapped_def by auto
  have hs: "holders s (v # vs) = insert f (holders s vs)" using holders_Cons [OF hh f(2,3)] .
  have mv: "moves s R L X {r} s3 R L X'" using moves_trans [OF m2 r(3)] by simp
  have "cleared s s3 r (span v \<inter> {lo..<hi} \<union> {} \<union> cover vs \<inter> {lo..<hi})"
    using cleared_trans [OF cleared_trans [OF m(2) cleared_empty [OF s2(2) ok(2) s2(3)]] r(7)] .
  then have cl: "cleared s s3 r (cover (v # vs) \<inter> {lo..<hi})" by (simp add: Int_Un_distrib2)
  have e: "X' - holders s vs1 = X - holders s (v # vs)" unfolding hs using r(5) by blast
  have n: "c1 + of_nat (length (v # vs)) = cnt + of_nat (length vs1)" using r(6) by (simp add: algebra_simps)
  show ?thesis
    by (rule unmappedI [where wo = wo and X' = X' and s' = s3 and c = c1 and n' = k])
      (use s2(1) r(1,2,4) mv cl e n in \<open>simp_all add: c del: cut_vmas.simps\<close>)
qed

lemma unmap_beyond: "\<forall>v \<in> set vs. hi \<le> va_start v \<Longrightarrow> unmap_vmas s p4 vs lo hi cnt n = Some (s, vs, cnt, n)"
  by (cases vs) auto

lemma unmapped_split:
  assumes ok: "frames_ok s R L X" "r \<in> L" and m: "moves s R L X {r} s1 R L X" "cleared s s1 r (span v \<inter> {lo..<hi})"
    and h: "hold s X (v # vs)" and v: "vmas_ok (v # vs)" "va_start v < lo" "hi < va_end v" "lo \<le> hi"
  shows "unmapped s R L X r (v # vs) lo hi cnt (do {
    (s2, wo) \<leftarrow> vma_alloc s1;
    case wo of
      None \<Rightarrow> do { (s3, vs1, c, m) \<leftarrow> unmap_vmas s2 p4 vs lo hi cnt n1; Some (s3, v # vs1, c, m) }
    | Some w \<Rightarrow> do {
        (s3, vs1, c, m) \<leftarrow> unmap_vmas s2 p4 vs lo hi (cnt + 1) n1;
        Some (s3, v\<lparr>va_end := lo\<rparr> # w\<lparr>va_start := hi, va_end := va_end v, va_flags := va_flags v, page_prot := page_prot v\<rparr> # vs1, c, m)
      }
    })"
proof -
  have up: "\<forall>u \<in> set vs. hi \<le> va_start u" using v by auto
  note be = unmap_beyond [OF up] and cb = cut_beyond [OF up] and hh = frames_okD(2) [OF ok(1)]
  have cv: "cover (v # vs) \<inter> {lo..<hi} = span v \<inter> {lo..<hi}" using cover_above [OF v(1) less_imp_le [OF v(3)], of lo] by (simp add: Int_Un_distrib2)
  have conds: "\<not> hi \<le> va_start v" "\<not> va_end v \<le> lo" "\<not> lo \<le> va_start v" "\<not> va_end v \<le> hi" using v by auto
  show ?thesis
  proof (rule vma_alloc_ok [OF movesD(1) [OF m(1)]])
    fix s2 assume a: "vma_alloc s1 = Some (s2, None)" "moves s1 R L X {} s2 R L X" "phys_mem s2 = phys_mem s1"
    have mv: "moves s R L X {r} s2 R L X" using moves_trans [OF m(1) a(2)] by simp
    have "cleared s s2 r (cover (v # vs) \<inter> {lo..<hi})" unfolding cv using cleared_trans [OF m(2) cleared_empty [OF a(2) ok(2) a(3)]] by simp
    then show ?thesis using a(1) be cb h mv conds by (intro unmappedI [where wo = None and X' = X and s' = s2 and c = cnt and n' = n1]) simp_all
  next
    fix s2 g let ?w = "\<lparr>va_page = table_va s1 g, va_start = 0, va_end = 0, va_flags = 0, page_prot = 0, va_file = 0, file_offset = 0\<rparr>"
    assume a: "vma_alloc s1 = Some (s2, Some ?w)" "moves s1 R L X {} s2 R L (insert g X)" "g \<notin> X" "g < length (page_array s1)" "phys_mem s2 = phys_mem s1"
    have g: "g < length (page_array s)" "table_va s1 g = table_va s g" using a(4) movesD(3,6) [OF m(1)] by (simp_all add: pmm_frame_def)
    obtain f where f: "f \<in> X" "f < length (page_array s)" "va_page v = table_va s f" "f \<notin> holders s vs" "hold s X vs" using h by (auto simp: hold_Cons)
    let ?v = "v\<lparr>va_end := lo\<rparr>" and ?w' = "?w\<lparr>va_start := hi, va_end := va_end v, va_flags := va_flags v, page_prot := page_prot v\<rparr>"
    have gn: "g \<notin> holders s vs" using hold_sub [OF f(5) hh] a(3) by blast
    have hs: "holders s (?w' # vs) = insert g (holders s vs)" "holders s (?v # ?w' # vs) = insert f (insert g (holders s vs))" "holders s (v # vs) = insert f (holders s vs)"
      using holders_Cons [OF hh g(1)] holders_Cons [OF hh f(2)] f(3) g(2) by simp_all
    have "hold s (insert g X) vs" using hold_mono [OF f(5), of "insert g X"] by blast
    then have "hold s (insert g X) (?w' # vs)" using gn g by (auto simp: hold_Cons)
    moreover have "f \<noteq> g" using f(1) a(3) by blast
    ultimately have H: "hold s (insert g X) (?v # ?w' # vs)" using f(1-4) unfolding hold_Cons [of _ _ ?v] hs(1) by auto
    have E: "insert g X - holders s (?v # ?w' # vs) = X - holders s (v # vs)" unfolding hs using a(3) by auto
    have mv: "moves s R L X {r} s2 R L (insert g X)" using moves_trans [OF m(1) a(2)] by simp
    have "cleared s s2 r (cover (v # vs) \<inter> {lo..<hi})" unfolding cv using cleared_trans [OF m(2) cleared_empty [OF a(2) ok(2) a(5)]] by simp
    then show ?thesis using a(1) be cb H E mv conds by (intro unmappedI [where wo = "Some ?w" and X' = "insert g X" and s' = s2 and c = "cnt + 1" and n' = n1]) simp_all
  qed
qed

lemma unmap_vmas_overlap:
  assumes b: "bound_ok lo" "bound_ok hi" "lo \<le> hi" and r: "r \<in> L" and ok: "frames_ok s R L X" and h: "hold s X (v # vs)"
    and v: "vmas_ok (v # vs)" and vb: "bound_ok (va_start v)" "bound_ok (va_end v)" and st: "\<not> va_start v \<ge> hi" and en: "\<not> va_end v \<le> lo"
    and step: "\<And>s1 X' cnt n. frames_ok s1 R L X' \<Longrightarrow> hold s1 X' vs \<Longrightarrow> pmm_frame s s1 \<Longrightarrow>
      unmapped s1 R L X' r vs lo hi cnt (unmap_vmas s1 (table_va s r) vs lo hi cnt n)"
  shows "unmapped s R L X r (v # vs) lo hi cnt (unmap_vmas s (table_va s r) (v # vs) lo hi cnt n)"
proof -
  define us where "us = (if va_start v > lo then va_start v else lo)"
  define ue where "ue = (if va_end v < hi then va_end v else hi)"
  obtain s1 n1 where u: "unmap_area s (table_va s r) us ue n = Some (s1, n1)" "moves s R L X {r} s1 R L X" "cleared s s1 r (span v \<inter> {lo..<hi})"
    using unmap_head [OF ok r b(1,2) vb, of n] unfolding us_def ue_def by blast
  note tv = movesD(6) [OF u(2)] and ok1 = movesD(1) [OF u(2)] and fr = movesD(3) [OF u(2)]
  have h1: "hold s1 X vs" using h hold_frame [OF fr] by (simp add: hold_Cons)
  have us: "us = va_start v \<longleftrightarrow> lo \<le> va_start v" "lo < va_start v \<or> us = lo" by (auto simp: us_def)
  have ue: "ue = va_end v \<longleftrightarrow> va_end v \<le> hi" "va_end v < hi \<or> ue = hi" by (auto simp: ue_def)
  have IH: "unmapped s1 R L X r vs lo hi cnt (unmap_vmas s1 (table_va s r) vs lo hi cnt n1)"
    using step [OF ok1 h1 fr, of cnt n1] by simp
  have eq: "unmap_vmas s (table_va s r) (v # vs) lo hi cnt n =
    (if lo \<le> va_start v \<and> va_end v \<le> hi then Option.bind (vma_free s1 v) (\<lambda>s2. unmap_vmas s2 (table_va s r) vs lo hi (cnt - 1) n1)
     else if lo \<le> va_start v then do { (s2, vs1, c, m) \<leftarrow> unmap_vmas s1 (table_va s r) vs lo hi cnt n1; Some (s2, v\<lparr>va_start := ue\<rparr> # vs1, c, m) }
     else if va_end v \<le> hi then do { (s2, vs1, c, m) \<leftarrow> unmap_vmas s1 (table_va s r) vs lo hi cnt n1; Some (s2, v\<lparr>va_end := us\<rparr> # vs1, c, m) }
     else do {
        (s2, wo) \<leftarrow> vma_alloc s1;
        case wo of
          None \<Rightarrow> do { (s3, vs1, c, m) \<leftarrow> unmap_vmas s2 (table_va s r) vs lo hi cnt n1; Some (s3, v # vs1, c, m) }
        | Some w \<Rightarrow> do {
            (s3, vs1, c, m) \<leftarrow> unmap_vmas s2 (table_va s r) vs lo hi (cnt + 1) n1;
            Some (s3, v\<lparr>va_end := us\<rparr> # w\<lparr>va_start := ue, va_end := va_end v, va_flags := va_flags v, page_prot := page_prot v\<rparr> # vs1, c, m)
          }
      })"
    unfolding unmap_vmas.simps Let_def us_def [symmetric] ue_def [symmetric] us(1) ue(1) using st en u(1) by simp
  consider "lo \<le> va_start v" "va_end v \<le> hi" | "lo \<le> va_start v" "\<not> va_end v \<le> hi" | "\<not> lo \<le> va_start v" "va_end v \<le> hi" | "\<not> lo \<le> va_start v" "\<not> va_end v \<le> hi"
    by blast
  then show ?thesis
  proof cases
    case 1
    have "unmapped s R L X r (v # vs) lo hi cnt (Option.bind (vma_free s1 v) (\<lambda>s2. unmap_vmas s2 (table_va s r) vs lo hi (cnt - 1) n1))"
    proof (rule unmapped_drop [OF ok r u(2,3) h])
      show "cut_vmas (v # vs) lo hi wo = cut_vmas vs lo hi wo" for wo using 1 st en by simp
      fix s2 f assume f: "frames_ok s2 R L (X - {f})" "hold s2 (X - {f}) vs" "pmm_frame s s2"
      show "unmapped s2 R L (X - {f}) r vs lo hi (cnt - 1) (unmap_vmas s2 (table_va s r) vs lo hi (cnt - 1) n1)"
        using step [OF f] .
    qed
    then show ?thesis unfolding eq using 1 by simp
  next
    case 2
    have "ue = hi" using 2 ue(2) by auto
    moreover have "cut_vmas (v # vs) lo hi wo = v\<lparr>va_start := hi\<rparr> # cut_vmas vs lo hi wo" for wo using 2 st en by auto
    ultimately show ?thesis unfolding eq using 2 unmapped_keep [OF ok u(2,3) h _ _ IH, of "v\<lparr>va_start := hi\<rparr>"]
      by (simp del: cut_vmas.simps)
  next
    case 3
    have "us = lo" using 3 us(2) by auto
    moreover have "cut_vmas (v # vs) lo hi wo = v\<lparr>va_end := lo\<rparr> # cut_vmas vs lo hi wo" for wo using 3 st en by auto
    ultimately show ?thesis unfolding eq using 3 unmapped_keep [OF ok u(2,3) h _ _ IH, of "v\<lparr>va_end := lo\<rparr>"]
      by (simp del: cut_vmas.simps)
  next
    case 4
    then have "us = lo" "ue = hi" using us(2) ue(2) by auto
    then show ?thesis unfolding eq using 4 unmapped_split [OF ok r u(2,3) h v _ _ b(3), of cnt "table_va s r" n1] by simp
  qed
qed

lemma unmap_vmas_ok:
  assumes b: "bound_ok lo" "bound_ok hi" "lo \<le> hi" and r: "r \<in> L"
  shows "frames_ok s R L X \<Longrightarrow> vmas_ok vs \<Longrightarrow> \<forall>v \<in> set vs. bound_ok (va_start v) \<and> bound_ok (va_end v) \<Longrightarrow> hold s X vs \<Longrightarrow>
    unmapped s R L X r vs lo hi cnt (unmap_vmas s (table_va s r) vs lo hi cnt n)"
proof (induction vs arbitrary: s X cnt n)
  case Nil
  then show ?case using moves_mono [OF moves_refl [OF Nil.prems(1)], of "{r}"]
    by (intro unmappedI [where X' = X and s' = s and c = cnt and n' = n and wo = None]) (simp_all add: cleared_def)
next
  case (Cons v vs)
  have vb: "bound_ok (va_start v)" "bound_ok (va_end v)" and vs: "vmas_ok vs" "\<forall>v \<in> set vs. bound_ok (va_start v) \<and> bound_ok (va_end v)" "hold s X vs"
    and ne: "va_start v < va_end v" using Cons.prems by (auto simp: hold_Cons)
  have refl: "moves s R L X {r} s R L X" using moves_mono [OF moves_refl [OF Cons.prems(1)], of "{r}"] by simp
  show ?case
  proof (cases "va_start v \<ge> hi")
    case True
    then have "cover (v # vs) \<inter> {lo..<hi} = {}"
      using later_start [OF Cons.prems(2)] by (fastforce simp: cover_def span_def)
    then show ?thesis using True refl Cons.prems(4)
      by (intro unmappedI [where X' = X and s' = s and c = cnt and n' = n and wo = None]) (simp_all add: cleared_def)
  next
    case st: False
    show ?thesis
    proof (cases "va_end v \<le> lo")
      case True
      then have e: "span v \<inter> {lo..<hi} = {}" by (auto simp: span_def)
      have "cleared s s r (span v \<inter> {lo..<hi})" by (simp add: e cleared_def)
      from unmapped_keep [OF Cons.prems(1) refl this Cons.prems(4), of v, OF HOL.refl _ Cons.IH [OF Cons.prems(1) vs]]
      show ?thesis using st True by simp
    next
      case en: False
      show ?thesis
      proof (rule unmap_vmas_overlap [OF b r Cons.prems(1,4,2) vb st en])
        fix s1 X' cnt n assume "frames_ok s1 R L X'" "hold s1 X' vs" "pmm_frame s s1"
        then show "unmapped s1 R L X' r vs lo hi cnt (unmap_vmas s1 (table_va s r) vs lo hi cnt n)"
          using Cons.IH [OF _ vs(1,2), of s1 X' cnt n] table_va_frame [of s s1] by simp
      qed
    qed
  qed
qed

subsection \<open>Address spaces\<close>

text \<open>
  The invariant of an address space with top-level table \<open>r\<close>: its areas are sorted, disjoint and aligned, their structures
  and its own are pages of the kernel, the counter is right, and only addresses of areas are mapped.
\<close>

definition as_ok :: "pmm_state \<Rightarrow> nat set \<Rightarrow> nat set \<Rightarrow> nat \<Rightarrow> address_space \<Rightarrow> bool" where
  "as_ok s L X r as \<longleftrightarrow> r \<in> L \<and> pml4 as = table_va s r \<and> vmas_ok (vma_list as) \<and>
     (\<forall>v \<in> set (vma_list as). bound_ok (va_start v) \<and> bound_ok (va_end v)) \<and> hold s X (vma_list as) \<and>
     (\<exists>f \<in> X - holders s (vma_list as). as_page as = table_va s f) \<and> vma_count as = of_nat (length (vma_list as)) \<and>
     (\<forall>va. low va \<longrightarrow> lookup s r va \<noteq> None \<longrightarrow> va \<in> cover (vma_list as))"

lemma as_okD:
  assumes "as_ok s L X r as"
  shows "r \<in> L" "pml4 as = table_va s r" "vmas_ok (vma_list as)" "\<forall>v \<in> set (vma_list as). bound_ok (va_start v) \<and> bound_ok (va_end v)"
    "hold s X (vma_list as)" "\<exists>f \<in> X - holders s (vma_list as). as_page as = table_va s f" "vma_count as = of_nat (length (vma_list as))"
    "low va \<Longrightarrow> lookup s r va \<noteq> None \<Longrightarrow> va \<in> cover (vma_list as)"
  using assms unfolding as_ok_def by blast+

text \<open>The part that does not speak of the page tables, with the frame of the structure itself.\<close>

definition as_shape :: "pmm_state \<Rightarrow> nat set \<Rightarrow> nat set \<Rightarrow> nat \<Rightarrow> address_space \<Rightarrow> nat \<Rightarrow> bool" where
  "as_shape s L X r as f \<longleftrightarrow> r \<in> L \<and> pml4 as = table_va s r \<and> vmas_ok (vma_list as) \<and>
     (\<forall>v \<in> set (vma_list as). bound_ok (va_start v) \<and> bound_ok (va_end v)) \<and> hold s X (vma_list as) \<and>
     f \<in> X - holders s (vma_list as) \<and> as_page as = table_va s f \<and> vma_count as = of_nat (length (vma_list as))"

lemma as_shapeD:
  assumes "as_shape s L X r as f"
  shows "r \<in> L" "pml4 as = table_va s r" "vmas_ok (vma_list as)" "\<forall>v \<in> set (vma_list as). bound_ok (va_start v) \<and> bound_ok (va_end v)"
    "hold s X (vma_list as)" "f \<in> X" "f \<notin> holders s (vma_list as)" "as_page as = table_va s f" "vma_count as = of_nat (length (vma_list as))"
  using assms unfolding as_shape_def by blast+

lemma as_ok_shape:
  "as_ok s L X r as \<longleftrightarrow> (\<exists>f. as_shape s L X r as f) \<and> (\<forall>va. low va \<longrightarrow> lookup s r va \<noteq> None \<longrightarrow> va \<in> cover (vma_list as))"
  unfolding as_ok_def as_shape_def by auto

lemma as_shape_frame: "as_shape s L X r as f \<Longrightarrow> pmm_frame s s' \<Longrightarrow> X \<subseteq> X' \<Longrightarrow> L \<subseteq> L' \<Longrightarrow> as_shape s' L' X' r as f"
  using hold_mono [of s X "vma_list as" X'] table_va_frame [of s s'] hold_frame [of s s'] holders_frame [of s s'] unfolding as_shape_def by auto

lemma cover_prot: "va \<in> cover vs \<longleftrightarrow> prot_at vs va \<noteq> None"
  unfolding prot_at_None cover_def by blast

lemma uview_None: "lookup s r va = None \<Longrightarrow> uview s r va = None"
  by (simp add: uview_def)

text \<open>Unmapping a region: only its pages go, and its areas unless one would have to be split without memory for it.\<close>

lemma unmap_region_ok:
  assumes ok: "frames_ok s R L X" and as: "as_ok s L X r as" and b: "bound_ok lo" "bound_ok (lo + sz)" "lo \<le> lo + sz"
  shows "\<exists>s' as' X'. vmm_unmap_region s as lo sz = Some (s', as', 0) \<and> moves s R L X {r} s' R L X' \<and> as_ok s' L X' r as' \<and>
    cleared s s' r {lo..<lo + sz} \<and> (\<forall>x. x \<notin> {lo..<lo + sz} \<longrightarrow> prot_at (vma_list as') x = prot_at (vma_list as) x) \<and>
    ((\<forall>x \<in> {lo..<lo + sz}. prot_at (vma_list as') x = None) \<or> inside (vma_list as) lo (lo + sz) \<and> vma_list as' = vma_list as)"
proof -
  note a = as_okD [OF as]
  let ?vs = "vma_list as"
  obtain s' c n wo X' where u: "unmap_vmas s (pml4 as) ?vs lo (lo + sz) (vma_count as) 0 = Some (s', cut_vmas ?vs lo (lo + sz) wo, c, n)"
    "moves s R L X {r} s' R L X'" "hold s X' (cut_vmas ?vs lo (lo + sz) wo)" "X' - holders s (cut_vmas ?vs lo (lo + sz) wo) = X - holders s ?vs"
    "c + of_nat (length ?vs) = vma_count as + of_nat (length (cut_vmas ?vs lo (lo + sz) wo))" "cleared s s' r (cover ?vs \<inter> {lo..<lo + sz})"
    using unmap_vmas_ok [OF b a(1) ok a(3,4,5), of "vma_count as" 0] a(2) unfolding unmapped_def by auto
  let ?vs' = "cut_vmas ?vs lo (lo + sz) wo"
  define as' where "as' = as\<lparr>vma_list := ?vs', vma_count := c, total_vm := if total_vm as \<ge> n then total_vm as - n else 0\<rparr>"
  have eq: "vmm_unmap_region s as lo sz = Some (s', as', 0)" using u(1) by (simp add: vmm_unmap_region_def as'_def)
  have cl: "cleared s s' r {lo..<lo + sz}" using u(6) a(8) uview_None [of s r] unfolding cleared_def by (auto; metis)
  have out: "prot_at ?vs' x = prot_at ?vs x" if "x \<notin> {lo..<lo + sz}" for x using cut_outside [OF a(3) b(3) that] .
  note fr = movesD(3) [OF u(2)]
  have cov: "va \<in> cover ?vs'" if "low va" "lookup s' r va \<noteq> None" for va
  proof -
    have "va \<notin> {lo..<lo + sz}" "lookup s r va \<noteq> None" using cl that unfolding cleared_def by (auto split: if_splits)
    then show ?thesis using out a(8) [OF that(1)] by (simp add: cover_prot)
  qed
  have "as_ok s' L X' r as'"
    using a(1,2,6,7) vmas_cut [OF a(3) b(3)] cut_bounds [of ?vs bound_ok lo "lo + sz" wo, OF a(4) b(1,2)] u(3,4,5) cov hold_frame [OF fr] holders_frame [OF fr]
      movesD(6) [OF u(2)] by (simp add: as_ok_def as'_def)
  moreover have "(\<forall>x \<in> {lo..<lo + sz}. prot_at ?vs' x = None) \<or> inside ?vs lo (lo + sz) \<and> ?vs' = ?vs"
    using cut_inside [OF a(3) b(3)] cut_kept [OF a(3) b(3)] by (cases "wo = None \<and> inside ?vs lo (lo + sz)") blast+
  ultimately show ?thesis using eq u(2) cl out by (intro exI [of _ s'] exI [of _ as'] exI [of _ X']) (simp add: as'_def)
qed

subsection \<open>Mapping\<close>

lemma distinct_insert_vma: "distinct (map va_page (insert_vma w vs)) \<longleftrightarrow> distinct (map va_page (w # vs))"
  by (induction vs) auto

lemma hold_insert: "hold s X (insert_vma w vs) \<longleftrightarrow> hold s X (w # vs)" "holders s (insert_vma w vs) = holders s (w # vs)"
  by (simp_all only: hold_def holders_def distinct_insert_vma set_insert_vma list.set(2))

lemma prot_at_insert:
  assumes "vmas_ok vs" "va_start w < va_end w" "\<forall>v \<in> set vs. va_end w \<le> va_start v \<or> va_end v \<le> va_start w"
  shows "prot_at (insert_vma w vs) x = (if x \<in> span w then Some (va_flags w, page_prot w) else prot_at vs x)"
  using area_at_insert [OF assms] by (simp add: prot_at_def)

lemma cover_insert: "cover (insert_vma w vs) = span w \<union> cover vs"
  by (simp add: cover_def)

lemma pte_flags_mask: "vma_to_pte_flags fl AND PTE_ADDR_MASK = 0" "vma_to_pte_flags fl OR PTE_PRESENT = vma_to_pte_flags fl"
  by (simp_all add: vma_to_pte_flags_def Let_def PTE_ADDR_MASK_def PTE_PRESENT_def PTE_WRITABLE_def PTE_NX_def PTE_USER_def)

text \<open>A new area between the others.\<close>

lemma insert_shape:
  assumes h: "hhdm_ok s" and as: "as_shape s L X r as f" and g: "g \<notin> X" "g < length (page_array s)"
    and w: "va_page w = table_va s g" "bound_ok (va_start w)" "bound_ok (va_end w)" "va_start w < va_end w"
    and free: "\<forall>v \<in> set (vma_list as). va_end w \<le> va_start v \<or> va_end v \<le> va_start w"
  shows "as_shape s L (insert g X) r (vma_insert as w) f"
proof -
  note a = as_shapeD [OF as]
  let ?vs = "vma_list as"
  have hs: "holders s (w # ?vs) = insert g (holders s ?vs)" using holders_Cons [OF h g(2) w(1)] .
  have "g \<notin> holders s ?vs" using hold_sub [OF a(5) h] g(1) by blast
  then have H: "hold s (insert g X) (w # ?vs)" using hold_mono [OF a(5), of "insert g X"] w(1) g(2) by (auto simp: hold_Cons)
  have F: "f \<in> insert g X - holders s (w # ?vs)" using a(6,7) g(1) unfolding hs by blast
  show ?thesis using a(1,2,4,8,9) H F vmas_insert [OF a(3) w(4) free] w(2,3)
    by (simp add: as_shape_def vma_insert_def hold_insert)
qed

lemma insert_area_ok:
  assumes ok: "frames_ok s R L X" and as: "as_ok s L X r as" and m: "moves s R L X {} s1 R L (insert g X)" "phys_mem s1 = phys_mem s"
    and g: "g \<notin> X" "g < length (page_array s)" and w: "va_page w = table_va s g" "bound_ok (va_start w)" "bound_ok (va_end w)" "va_start w < va_end w"
    and free: "\<forall>v \<in> set (vma_list as). va_end w \<le> va_start v \<or> va_end v \<le> va_start w"
  shows "as_ok s1 L (insert g X) r (vma_insert as w)"
proof -
  obtain f where "as_shape s L X r as f" using as by (auto simp: as_ok_shape)
  from as_shape_frame [OF insert_shape [OF frames_okD(2) [OF ok] this g w free] movesD(3) [OF m(1)] order_refl order_refl]
  have "as_shape s1 L (insert g X) r (vma_insert as w) f" .
  moreover have "va \<in> span w \<union> cover (vma_list as)" if "low va" "lookup s1 r va \<noteq> None" for va
    using as_okD(8) [OF as that(1)] that(2) lookup_mem_eq [OF m(2)] by simp
  ultimately show ?thesis by (auto simp: as_ok_shape vma_insert_def cover_insert)
qed

lemma addrs_low:
  assumes "x \<in> addrs a e" "bound_ok a" "bound_ok e"
  shows "low x" "x \<in> {a..<e}" "bound_ok x"
proof -
  obtain k where k: "x = a + 4096 * of_nat k" "unat a + 4096 * k < unat e" using assms(1) by (auto simp: addrs_def)
  then have u: "unat x = unat a + 4096 * k" using unat_addr [of a k] assms(3) by (simp add: bound_ok_def)
  show "low x" "x \<in> {a..<e}" "bound_ok x" using u k(2) assms(2,3)
    by (auto simp: low_def bound_ok_def aligned_def word_less_nat_alt word_le_nat_alt)
qed

lemma as_ok_keep:
  assumes as: "as_ok s L X r as" and m: "moves s R L X A s' R L X"
    and cov: "\<forall>va. low va \<longrightarrow> lookup s' r va \<noteq> None \<longrightarrow> va \<in> cover (vma_list as)"
  shows "as_ok s' L X r as"
  using as cov hold_frame [OF movesD(3) [OF m]] holders_frame [OF movesD(3) [OF m]] movesD(6) [OF m] by (simp add: as_ok_def)

text \<open>The outcomes of mapping a region that does not meet an area: a new area of zeroed pages, or no new page at all.\<close>

definition fresh_region :: "pmm_state \<Rightarrow> pmm_state \<Rightarrow> nat \<Rightarrow> address_space \<Rightarrow> address_space \<Rightarrow> u64 \<Rightarrow> u64 \<Rightarrow> u32 \<Rightarrow> bool" where
  "fresh_region s s' r as as' lo hi fl \<longleftrightarrow>
     (\<forall>va. low va \<longrightarrow> uview s' r va = (if va \<in> {lo..<hi} then Some (vma_to_pte_flags fl, 0) else uview s r va)) \<and>
     (\<forall>x. prot_at (vma_list as') x = (if x \<in> {lo..<hi} then Some (fl, vma_to_pte_flags fl) else prot_at (vma_list as) x))"

definition failed_region :: "pmm_state \<Rightarrow> pmm_state \<Rightarrow> nat \<Rightarrow> address_space \<Rightarrow> address_space \<Rightarrow> u64 \<Rightarrow> u64 \<Rightarrow> u32 \<Rightarrow> bool" where
  "failed_region s s' r as as' lo hi fl \<longleftrightarrow> (\<forall>va. low va \<longrightarrow> uview s' r va = uview s r va) \<and>
     (as' = as \<or> (\<exists>x \<in> {lo..<hi}. \<forall>y. prot_at (vma_list as') y =
        (if y \<in> {x..<hi} then Some (fl, vma_to_pte_flags fl) else prot_at (vma_list as) y)))"

lemma map_fill_ok:
  assumes ok: "frames_ok s R L X" and as: "as_ok s L X r as" and b: "bound_ok lo" "bound_ok hi" "{lo..<hi} \<subseteq> cover (vma_list as)"
    and free: "\<forall>va. low va \<longrightarrow> va \<in> {lo..<hi} \<longrightarrow> lookup s r va = None"
    and out: "\<forall>x \<in> {lo..<hi}. \<not> inside (vma_list as) lo x"
  shows "(\<exists>s'. map_area s as lo lo hi (vma_to_pte_flags fl) = Some (s', as, 0) \<and> moves s R L X {r} s' R L X \<and> as_ok s' L X r as \<and>
      (\<forall>va. low va \<longrightarrow> uview s' r va = (if va \<in> {lo..<hi} then Some (vma_to_pte_flags fl, 0) else uview s r va))) \<or>
    (\<exists>s' as' X'. \<exists>x \<in> {lo..<hi}. map_area s as lo lo hi (vma_to_pte_flags fl) = Some (s', as', -1) \<and> moves s R L X {r} s' R L X' \<and> as_ok s' L X' r as' \<and>
      (\<forall>va. low va \<longrightarrow> uview s' r va = uview s r va) \<and>
      (\<forall>y. prot_at (vma_list as') y = (if y \<in> {lo..<x} then None else prot_at (vma_list as) y)))"
proof -
  note a = as_okD [OF as]
  have hi: "unat hi \<le> 2 ^ 47" "aligned lo" using b by (simp_all add: bound_ok_def)
  have "\<forall>x \<in> addrs lo hi. uframe s r x = None" using addrs_low [OF _ b(1,2)] free by (simp add: uframe_None)
  from map_area_ok [OF ok a(1) hi(1) pte_flags_mask(1) a(2) this, of lo fl] show ?thesis
  proof (elim disjE exE bexE conjE)
    fix s' assume m: "map_area s as lo lo hi (vma_to_pte_flags fl) = Some (s', as, 0)" "moves s R L X {r} s' R L X"
      "\<forall>va. uview s' r va = (if page_of va \<in> page_of ` addrs lo hi then Some (vma_to_pte_flags fl OR PTE_PRESENT, 0) else uview s r va)"
      "\<forall>va. page_of va \<notin> page_of ` addrs lo hi \<longrightarrow> lookup s' r va = lookup s r va"
    have cov: "va \<in> cover (vma_list as)" if "low va" "lookup s' r va \<noteq> None" for va
      using that m(4) page_in [OF hi(2) b(2) that(1)] a(8) [OF that(1)] b(3) by (cases "va \<in> {lo..<hi}") auto
    show ?thesis using m(1-3) page_in [OF hi(2) b(2)] as_ok_keep [OF as m(2)] cov by (intro disjI1 exI [of _ s']) (simp add: pte_flags_mask(2))
  next
    fix s' x assume x: "x \<in> addrs lo hi" and m: "map_area s as lo lo hi (vma_to_pte_flags fl) = Option.bind (vmm_unmap_region s' as lo (x - lo)) (\<lambda>(s2, as2, c). Some (s2, as2, -1))"
      "moves s R L X {r} s' R L X"
      "\<forall>va. page_of va \<notin> page_of ` addrs lo x \<longrightarrow> lookup s' r va = lookup s r va \<and> uview s' r va = uview s r va"
    note xl = addrs_low [OF x b(1,2)]
    have cov: "va \<in> cover (vma_list as)" if "low va" "lookup s' r va \<noteq> None" for va
      using that m(3) page_in [OF hi(2) xl(3) that(1)] a(8) [OF that(1)] b(3) xl(2) by (cases "va \<in> {lo..<x}") fastforce+
    have "lo + (x - lo) = x" by simp
    with unmap_region_ok [OF movesD(1) [OF m(2)] as_ok_keep [OF as m(2)] b(1), of "x - lo"] cov xl obtain s2 as2 X2 where
      u: "vmm_unmap_region s' as lo (x - lo) = Some (s2, as2, 0)" "moves s' R L X {r} s2 R L X2" "as_ok s2 L X2 r as2" "cleared s' s2 r {lo..<x}"
      "\<forall>y. y \<notin> {lo..<x} \<longrightarrow> prot_at (vma_list as2) y = prot_at (vma_list as) y" "\<forall>y \<in> {lo..<x}. prot_at (vma_list as2) y = None"
      using out by auto
    have "uview s2 r va = uview s r va" if "low va" for va
      using u(4) m(3) page_in [OF hi(2) xl(3) that] free xl(2) that uview_None [of s r va] unfolding cleared_def by (cases "va \<in> {lo..<x}") fastforce+
    then show ?thesis using m(1) u(1,3,5,6) xl(2) moves_trans [OF m(2) u(2)]
      by (intro disjI2 exI [of _ s2] exI [of _ as2] exI [of _ X2] bexI [of _ x]) simp_all
  qed
qed

lemma map_region_ok:
  assumes ok: "frames_ok s R L X" and as: "as_ok s L X r as" and b: "bound_ok lo" "bound_ok (lo + sz)" "lo < lo + sz"
    and free: "vma_find_intersect (vma_list as) lo (lo + sz) = None"
  shows "\<exists>s' as' X' c. vmm_map_region s as lo sz fl = Some (s', as', c) \<and> moves s R L X {r} s' R L X' \<and> as_ok s' L X' r as' \<and>
    (c = 0 \<and> fresh_region s s' r as as' lo (lo + sz) fl \<or> c = -1 \<and> failed_region s s' r as as' lo (lo + sz) fl)"
proof (rule vma_alloc_ok [OF ok])
  note a = as_okD [OF as]
  fix s1 assume v: "vma_alloc s = Some (s1, None)" "moves s R L X {} s1 R L X" "phys_mem s1 = phys_mem s"
  have "as_ok s1 L X r as" using as_ok_keep [OF as v(2)] a(8) lookup_mem_eq [OF v(3)] by simp
  then show ?thesis using v(1) free moves_mono [OF v(2), of "{r}"] movesD(5) [OF v(2) a(1)]
    by (intro exI [of _ s1] exI [of _ as] exI [of _ X] exI [of _ "-1"]) (simp add: vmm_map_region_def failed_region_def)
next
  note a = as_okD [OF as]
  fix s1 g let ?w = "\<lparr>va_page = table_va s g, va_start = 0, va_end = 0, va_flags = 0, page_prot = 0, va_file = 0, file_offset = 0\<rparr>"
  assume v: "vma_alloc s = Some (s1, Some ?w)" "moves s R L X {} s1 R L (insert g X)" "g \<notin> X" "g < length (page_array s)" "phys_mem s1 = phys_mem s"
  define w where "w = ?w\<lparr>va_start := lo, va_end := lo + sz, va_flags := fl, page_prot := vma_to_pte_flags fl\<rparr>"
  have w: "va_page w = table_va s g" "bound_ok (va_start w)" "bound_ok (va_end w)" "va_start w < va_end w" "span w = {lo..<lo + sz}"
    "va_flags w = fl" "page_prot w = vma_to_pte_flags fl" "va_start w = lo" using b by (simp_all add: w_def span_def)
  have dis: "\<forall>v \<in> set (vma_list as). va_end w \<le> va_start v \<or> va_end v \<le> va_start w" using find_intersect [OF a(3), of lo "lo + sz"] free by (auto simp: w_def)
  define as1 where "as1 = vma_insert as w"
  have l1: "vma_list as1 = insert_vma w (vma_list as)" by (simp add: as1_def vma_insert_def)
  have as1: "as_ok s1 L (insert g X) r as1" unfolding as1_def by (rule insert_area_ok [OF ok as v(2,5,3,4) w(1-4) dis])
  have nc: "va \<notin> cover (vma_list as)" if "va \<in> {lo..<lo + sz}" for va using dis that w by (fastforce simp: cover_def span_def)
  have nl: "lookup s r va = None" if "low va" "va \<in> {lo..<lo + sz}" for va using a(8) nc that by blast
  have ins: "\<forall>x \<in> {lo..<lo + sz}. \<not> inside (vma_list as1) lo x" using dis w by (fastforce simp: l1 inside_def)
  have p1: "prot_at (vma_list as1) x = (if x \<in> {lo..<lo + sz} then Some (fl, vma_to_pte_flags fl) else prot_at (vma_list as) x)" for x
    using prot_at_insert [OF a(3) w(4) dis] w by (simp add: l1)
  have eq: "vmm_map_region s as lo sz fl = do { (s2, as2, c) \<leftarrow> map_area s1 as1 lo lo (lo + sz) (vma_to_pte_flags fl);
      if c = 0 then Some (s2, as2\<lparr>total_vm := total_vm as2 + sz div PAGE_SIZE\<rparr>, 0) else Some (s2, as2, c) }"
    using free v(1) by (simp add: vmm_map_region_def as1_def w_def)
  have uv: "uview s1 r va = uview s r va" for va by (rule movesD(5) [OF v(2) a(1)]) simp
  have cv: "{lo..<lo + sz} \<subseteq> cover (vma_list as1)" by (simp add: l1 cover_insert w(5))
  have fr: "\<forall>va. low va \<longrightarrow> va \<in> {lo..<lo + sz} \<longrightarrow> lookup s1 r va = None" using nl lookup_mem_eq [OF v(5)] by simp
  from map_fill_ok [OF movesD(1) [OF v(2)] as1 b(1,2) cv fr ins, of fl] show ?thesis
  proof (elim disjE exE bexE conjE)
    fix s' assume m: "map_area s1 as1 lo lo (lo + sz) (vma_to_pte_flags fl) = Some (s', as1, 0)" "moves s1 R L (insert g X) {r} s' R L (insert g X)"
      "as_ok s' L (insert g X) r as1" "\<forall>va. low va \<longrightarrow> uview s' r va = (if va \<in> {lo..<lo + sz} then Some (vma_to_pte_flags fl, 0) else uview s1 r va)"
    show ?thesis using m moves_trans [OF v(2) m(2)] p1 uv
      by (intro exI [of _ s'] exI [of _ "as1\<lparr>total_vm := total_vm as1 + sz div PAGE_SIZE\<rparr>"] exI [of _ "insert g X"] exI [of _ 0])
        (simp add: eq as_ok_def fresh_region_def)
  next
    fix s' as' X' x assume x: "x \<in> {lo..<lo + sz}" and m: "map_area s1 as1 lo lo (lo + sz) (vma_to_pte_flags fl) = Some (s', as', -1)"
      "moves s1 R L (insert g X) {r} s' R L X'" "as_ok s' L X' r as'" "\<forall>va. low va \<longrightarrow> uview s' r va = uview s1 r va"
      "\<forall>y. prot_at (vma_list as') y = (if y \<in> {lo..<x} then None else prot_at (vma_list as1) y)"
    have "prot_at (vma_list as') y = (if y \<in> {x..<lo + sz} then Some (fl, vma_to_pte_flags fl) else prot_at (vma_list as) y)" for y
    proof (cases "y \<in> {lo..<x}")
      case True
      then have "y \<notin> cover (vma_list as)" using x nc by force
      then have "prot_at (vma_list as) y = None" using cover_prot by blast
      then show ?thesis using True m(5) by auto
    next
      case False
      then show ?thesis using m(5) p1 x by auto
    qed
    then have "failed_region s s' r as as' lo (lo + sz) fl" using x m(4) uv by (auto simp: failed_region_def)
    then show ?thesis using m moves_trans [OF v(2) m(2)]
      by (intro exI [of _ s'] exI [of _ as'] exI [of _ X'] exI [of _ "-1"]) (simp add: eq)
  qed
qed

end
