(* ===== verification/Vmm_Spaces.thy ===== *)
theory Vmm_Spaces
  imports Vmm_Regions
begin

text \<open>
  Whole address spaces: creation, and destruction, which gives back every page of the address space.
\<close>

subsection \<open>Giving frames back\<close>

definition released :: "pmm_state \<Rightarrow> nat set \<Rightarrow> nat set \<Rightarrow> nat set \<Rightarrow> pmm_state \<Rightarrow> nat set \<Rightarrow> bool" where
  "released s R L X s' F \<longleftrightarrow> moves s R L X {} s' R L (X - F) \<and> phys_mem s' = phys_mem s \<and> pavail s' = pavail s \<union> F"

lemma released_trans: "released s R L X s1 F \<Longrightarrow> released s1 R L (X - F) s2 G \<Longrightarrow> released s R L X s2 (F \<union> G)"
  using moves_trans [of s R L X "{}" s1 R L "X - F" "{}" s2 R L "X - F - G"] by (simp add: released_def Diff_eq Un_assoc Int_assoc)

lemma released_refl: "frames_ok s R L X \<Longrightarrow> released s R L X s {}"
  using moves_refl [of s R L X] by (simp add: released_def)

lemma releasedD:
  assumes "released s R L X s' F"
  shows "frames_ok s' R L (X - F)" "pmm_frame s s'" "table_va s' f = table_va s f" "lookup s' r va = lookup s r va" "uframe s' r va = uframe s r va"
  using assms movesD [of s R L X "{}" s' R L "X - F"] lookup_mem_eq [of s' s] by (auto simp: released_def uframe_def)

lemma release_page:
  assumes "frames_ok s R L X" "f \<in> X"
  shows "\<exists>s'. simple_free_page s (table_va s f) = Some s' \<and> released s R L X s' {f}"
  using free_page_ok [OF assms] by (auto simp: released_def)

text \<open>The frames mapped at the addresses \<open>A\<close>.\<close>

definition frames_at :: "pmm_state \<Rightarrow> nat \<Rightarrow> u64 set \<Rightarrow> nat set" where
  "frames_at s r A = {f. \<exists>va \<in> A. uframe s r va = Some f}"

definition injective :: "pmm_state \<Rightarrow> nat \<Rightarrow> bool" where
  "injective s r \<longleftrightarrow> (\<forall>va va' f. uframe s r va = Some f \<longrightarrow> uframe s r va' = Some f \<longrightarrow> page_of va = page_of va')"

lemma free_area_ok:
  assumes "frames_ok s R L X" "r \<in> R" "injective s r" "unat e \<le> 2 ^ 47" "frames_at s r (addrs a e) \<subseteq> X"
  shows "\<exists>s'. free_area_pages s (table_va s r) a e = Some s' \<and> released s R L X s' (frames_at s r (addrs a e))"
  using assms(1,3,5)
proof (induction "unat e - unat a" arbitrary: s X a rule: less_induct)
  case less
  show ?case
  proof (cases "a < e")
    case False
    then show ?thesis using released_refl [OF less.prems(1)] by (subst free_area_pages.simps) (simp add: addrs_empty frames_at_def)
  next
    case True
    note step = addrs_step [OF True assms(4)] and nl = addr_not_later [OF True assms(4)]
    have dec: "unat e - unat (a + PAGE_SIZE) < unat e - unat a" using True unat_next [OF True assms(4)] by (simp add: word_less_nat_alt)
    define F where "F = frames_at s r {a}"
    have F: "F = set_option (uframe s r a)" "F \<subseteq> X" using less.prems(3) step by (auto simp: F_def frames_at_def)
    obtain s1 b where s1: "free_mapped s (table_va s r) a = Some (s1, b)" "released s R L X s1 F"
    proof (cases "lookup s r a")
      case None
      then show ?thesis using that [of s False] free_mapped_eq [OF spaces_okD(1) [OF frames_okD(3) [OF less.prems(1)] assms(2)], of a]
        released_refl [OF less.prems(1)] F(1) by (simp add: uframe_def)
    next
      case (Some e')
      then have "F = {frame_of e'}" using F(1) user_less [OF True assms(4)] by (simp add: uframe_def)
      then show ?thesis using that [of _ True] free_mapped_eq [OF spaces_okD(1) [OF frames_okD(3) [OF less.prems(1)] assms(2)], of a] Some
        release_page [OF less.prems(1), of "frame_of e'"] F(2) by fastforce
    qed
    note d = releasedD [OF s1(2)]
    have at: "frames_at s1 r A = frames_at s r A" for A by (simp add: frames_at_def d(5))
    have "frames_at s r (addrs (a + PAGE_SIZE) e) \<subseteq> X - F"
    proof
      fix f assume "f \<in> frames_at s r (addrs (a + PAGE_SIZE) e)"
      then obtain x where x: "x \<in> addrs (a + PAGE_SIZE) e" "uframe s r x = Some f" by (auto simp: frames_at_def)
      have "page_of x \<noteq> page_of a" using nl imageI [OF x(1), of page_of] by metis
      then have "uframe s r a \<noteq> Some f" using x(2) less.prems(2) unfolding injective_def by metis
      then have "f \<notin> F" by (simp add: F(1))
      then show "f \<in> X - F" using x less.prems(3) step by (auto simp: frames_at_def)
    qed
    moreover have "injective s1 r" using less.prems(2) unfolding injective_def d(5) .
    ultimately obtain s' where IH: "free_area_pages s1 (table_va s r) (a + PAGE_SIZE) e = Some s'" "released s1 R L (X - F) s' (frames_at s r (addrs (a + PAGE_SIZE) e))"
      using less.hyps [OF dec d(1)] by (auto simp: at d(3))
    have "free_area_pages s (table_va s r) a e = Some s'" using True s1(1) IH(1) by (subst free_area_pages.simps) simp
    moreover have "frames_at s r (addrs a e) = F \<union> frames_at s r (addrs (a + PAGE_SIZE) e)" by (auto simp: step F_def frames_at_def)
    ultimately show ?thesis using released_trans [OF s1(2) IH(2)] by simp
  qed
qed

lemma frames_at_span:
  assumes "bound_ok (va_start v)" "bound_ok (va_end v)"
  shows "frames_at s r (addrs (va_start v) (va_end v)) = frames_at s r (span v)"
proof -
  have "\<exists>x \<in> addrs (va_start v) (va_end v). uframe s r x = uframe s r va" if "va \<in> span v" for va
  proof -
    have "low va" using that assms(2) by (auto simp: low_def span_def bound_ok_def word_less_nat_alt)
    then have "page_of va \<in> page_of ` addrs (va_start v) (va_end v)" using page_in assms that by (simp add: span_def bound_ok_def)
    then obtain x where "x \<in> addrs (va_start v) (va_end v)" "page_of x = page_of va" by auto
    then show ?thesis using uframe_page [of x va s r] by blast
  qed
  moreover have "addrs (va_start v) (va_end v) \<subseteq> span v" using addrs_low(2) [OF _ assms] by (auto simp: span_def)
  ultimately show ?thesis unfolding frames_at_def by (intro Collect_cong) (metis subsetD)
qed

lemma destroy_vmas_ok:
  assumes "r \<in> R" "r \<notin> L"
  shows "frames_ok s R L X \<Longrightarrow> injective s r \<Longrightarrow> vmas_ok vs \<Longrightarrow> \<forall>v \<in> set vs. bound_ok (va_start v) \<and> bound_ok (va_end v) \<Longrightarrow>
    hold s X vs \<Longrightarrow> frames_at s r (cover vs) \<subseteq> X - holders s vs \<Longrightarrow>
    \<exists>s'. destroy_vmas s (table_va s r) vs = Some s' \<and> released s R L X s' (frames_at s r (cover vs) \<union> holders s vs)"
proof (induction vs arbitrary: s X)
  case Nil
  then show ?case using released_refl [of s R L X] by (simp add: frames_at_def)
next
  case (Cons v vs)
  have vb: "bound_ok (va_start v)" "bound_ok (va_end v)" using Cons.prems(4) by simp_all
  note hh = frames_okD(2) [OF Cons.prems(1)]
  obtain f where f: "f \<in> X" "f < length (page_array s)" "va_page v = table_va s f" "f \<notin> holders s vs" "hold s X vs" using Cons.prems(5) by (auto simp: hold_Cons)
  note hs = holders_Cons [OF hh f(2,3), of vs]
  have at: "frames_at s r (cover (v # vs)) = frames_at s r (span v) \<union> frames_at s r (cover vs)" by (auto simp: frames_at_def)
  have disj: "frames_at s r (span v) \<inter> frames_at s r (cover vs) = {}"
  proof -
    have "page_of x \<noteq> page_of y" if xy: "x \<in> span v" "y \<in> cover vs" for x y
    proof
      assume eq: "page_of x = page_of y"
      obtain u where u: "u \<in> set vs" "y \<in> span u" using xy(2) by (auto simp: cover_def)
      have "low x" "low y" using xy(1) u vb(2) Cons.prems(4) by (auto simp: low_def span_def bound_ok_def word_less_nat_alt)
      then have "y \<in> span v" using eq page_in [of "va_start v" "va_end v" x] page_in [of "va_start v" "va_end v" y] vb xy(1) by (simp add: bound_ok_def span_def)
      then show False using u Cons.prems(3) by (auto simp: span_def)
    qed
    then show ?thesis using Cons.prems(2) unfolding frames_at_def injective_def by blast
  qed
  have sub: "frames_at s r (span v) \<subseteq> X" "f \<notin> frames_at s r (span v)" "f \<notin> frames_at s r (cover vs)"
    "frames_at s r (span v) \<inter> holders s vs = {}" using Cons.prems(6) at hs by auto
  let ?F = "frames_at s r (span v)"
  obtain s1 where s1: "free_area_pages s (table_va s r) (va_start v) (va_end v) = Some s1" "released s R L X s1 ?F"
    using free_area_ok [OF Cons.prems(1) assms(1) Cons.prems(2), of "va_end v" "va_start v"] frames_at_span [OF vb] sub(1) vb(2) by (auto simp: bound_ok_def)
  note d1 = releasedD [OF s1(2)]
  obtain s2 where s2: "vma_free s1 v = Some s2" "released s1 R L (X - ?F) s2 {f}"
    using release_page [OF d1(1), of f] f(1,3) sub(2) d1(3) by (auto simp: vma_free_def)
  note t = released_trans [OF s1(2) s2(2)]
  note d2 = releasedD [OF t]
  have at2: "frames_at s2 r A = frames_at s r A" for A by (simp add: frames_at_def d2(5))
  have "hold s2 (X - (?F \<union> {f})) vs" using hold_mono [OF f(5), of "X - (?F \<union> {f})"] f(4) sub(4) hold_frame [OF d2(2)] by blast
  moreover have "injective s2 r" using Cons.prems(2) unfolding injective_def d2(5) .
  moreover have "frames_at s2 r (cover vs) \<subseteq> X - (?F \<union> {f}) - holders s2 vs"
    unfolding at2 holders_frame [OF d2(2)] using Cons.prems(6) disj sub(3) unfolding at hs by blast
  ultimately obtain s' where "destroy_vmas s2 (table_va s r) vs = Some s'" "released s2 R L (X - (?F \<union> {f})) s' (frames_at s r (cover vs) \<union> holders s vs)"
    using Cons.IH [OF d2(1)] Cons.prems(3,4) unfolding at2 holders_frame [OF d2(2)] d2(3) by auto
  then show ?case using s1(1) s2(1) released_trans [OF t] unfolding at hs by (fastforce simp: Un_ac)
qed

subsection \<open>Destroying\<close>

lemma drop_space:
  assumes ok: "frames_ok s R L X" and r: "r \<in> R" "r \<notin> L"
  shows "\<exists>s'. paging_destroy_pml4 s (table_va s r) = Some s' \<and> moves s R L X {} s' (R - {r}) L X \<and> phys_mem s' = phys_mem s \<and>
    pavail s' = pavail s \<union> utables s r"
proof -
  note o = frames_okD [OF ok]
  obtain s' where s': "paging_destroy_pml4 s (table_va s r) = Some s'" "freed s s' (utables s r)" "spaces_ok s' (R - {r})"
    using destroy_pml4_ok [OF o(3) r(1)] by blast
  then have f: "pmm_ok s'" "pmm_frame s s'" "phys_mem s' = phys_mem s" "pavail s' = pavail s \<union> utables s r" by (simp_all add: freed_def)
  have h: "hhdm_ok s'" using freed_hhdm [OF s'(2)] o(2) by simp
  have t: "tables s' q = tables s q" "utables s' q = utables s q" "lookup s' q va = lookup s q va" for q va
    using tables_mem [of s q s'] lookup_mem [of s q s' va] f(3) by simp_all
  have uf: "uframe s' q va = uframe s q va" for q va by (simp add: uframe_def t(3))
  have us: "usable s' (R - {r}) f" if "usable s R f" for f
    using that r(1) f(2,4) utables_sub [of s r] by (auto simp: usable_def t(1) pmm_frame_def)
  have "frames_ok s' (R - {r}) L X"
  proof (rule frames_okI [OF f(1) h s'(3)])
    show "L \<subseteq> R - {r}" using o(4) r(2) by blast
    show "usable s' (R - {r}) f" if "f \<in> X" for f using us o(5) that by blast
    show "usable s' (R - {r}) f \<and> f \<notin> X" if "q \<in> L" "uframe s' q va = Some f" for q va f using us o(6,7) that unfolding uf by blast
    show "q = q' \<and> page_of va = page_of va'" if "q \<in> L" "q' \<in> L" "uframe s' q va = Some f" "uframe s' q' va' = Some f" for q q' va va' f
      using o(8) that unfolding uf by blast
  qed
  moreover have "account s' (R - {r}) L X = account s R L X" using r(1) by (auto simp: account_def f(4) t(2) leaves_def uf)
  moreover have "uview s' q va = uview s q va" for q va by (simp add: uview_def t(3) f(3))
  ultimately show ?thesis using s'(1) f by (simp add: moves_def)
qed

lemma kill_moves:
  assumes "frames_ok s R L X" "r \<in> L"
  shows "moves s R L X {r} s R (L - {r}) (X \<union> leaves s r)"
  using kill_ok [OF assms] by (simp add: moves_def pmm_frame_def)

lemma destroy_space_ok:
  assumes ok: "frames_ok s R L X" and sh: "as_shape s L X r as f" and rc: "as_refs as = 1"
  shows "\<exists>s'. vmm_destroy_address_space s (Some as) = Some (s', None) \<and>
    moves s R L X {r} s' (R - {r}) (L - {r}) (X \<union> leaves s r - (frames_at s r (cover (vma_list as)) \<union> holders s (vma_list as) \<union> {f})) \<and>
    pavail s' = pavail s \<union> utables s r \<union> (frames_at s r (cover (vma_list as)) \<union> holders s (vma_list as) \<union> {f})"
proof -
  note a = as_shapeD [OF sh] and o = frames_okD [OF ok] and k = kill_moves [OF ok as_shapeD(1) [OF sh]]
  let ?vs = "vma_list as" and ?X = "X \<union> leaves s r" and ?L = "L - {r}"
  let ?F = "frames_at s r (cover ?vs) \<union> holders s ?vs"
  have r: "r \<in> R" "r \<notin> ?L" using a(1) o(4) by blast+
  have inj: "injective s r" using o(8) [OF a(1) a(1)] unfolding injective_def by blast
  have sub: "frames_at s r (cover ?vs) \<subseteq> leaves s r" by (auto simp: frames_at_def leaves_def)
  have dis: "leaves s r \<inter> X = {}" using o(7) [OF a(1)] by (auto simp: leaves_def)
  have hs: "holders s ?vs \<subseteq> X" by (rule hold_sub [OF a(5) o(2)])
  have h: "hold s ?X ?vs" using hold_mono [OF a(5), of ?X] by blast
  have "frames_at s r (cover ?vs) \<subseteq> ?X - holders s ?vs" using sub dis hs by blast
  from destroy_vmas_ok [OF r movesD(1) [OF k] inj a(3,4) h this] obtain s1 where
    s1: "destroy_vmas s (table_va s r) ?vs = Some s1" "released s R ?L ?X s1 ?F" by blast
  note d1 = releasedD [OF s1(2)]
  obtain s2 where s2: "paging_destroy_pml4 s1 (table_va s1 r) = Some s2" "moves s1 R ?L (?X - ?F) {} s2 (R - {r}) ?L (?X - ?F)"
    "phys_mem s2 = phys_mem s1" "pavail s2 = pavail s1 \<union> utables s1 r" using drop_space [OF d1(1) r] by blast
  have fX: "f \<in> ?X - ?F" using a(6,7) sub dis by blast
  obtain s3 where s3: "simple_free_page s2 (table_va s2 f) = Some s3" "released s2 (R - {r}) ?L (?X - ?F) s3 {f}"
    using release_page [OF movesD(1) [OF s2(2)] fX] by blast
  have "vmm_destroy_address_space s (Some as) = Some (s3, None)"
    using s1(1) s2(1) s3(1) d1(3) movesD(6) [OF s2(2)] a(2,8) rc by (simp add: vmm_destroy_address_space_def)
  moreover have "moves s R L X {r} s3 (R - {r}) ?L (?X - (?F \<union> {f}))"
  proof -
    have "?X - ?F - {f} = ?X - (?F \<union> {f})" by blast
    then show ?thesis using moves_trans [OF k moves_trans [OF moves_trans [OF s1(2) [unfolded released_def, THEN conjunct1] s2(2)] s3(2) [unfolded released_def, THEN conjunct1]]]
      by (simp only: Un_empty_right Un_empty_left)
  qed
  moreover have "utables s1 r = utables s r" using tables_mem [of s r s1] s1(2) by (simp add: released_def)
  then have "pavail s3 = pavail s \<union> utables s r \<union> (?F \<union> {f})" using s1(2) s2(4) s3(2) by (auto simp: released_def)
  ultimately show ?thesis by blast
qed

text \<open>Every user page is a page of the lower half, so the areas account for all mapped frames.\<close>

lemma low_page:
  assumes "user_va va"
  shows "\<exists>x. low x \<and> page_of x = page_of va"
proof (intro exI conjI)
  let ?x = "take_bit 47 va"
  show "low ?x" unfolding low_def unsigned_take_bit_eq by (rule take_bit_nat_less_exp)
  have "unat (PML4_INDEX va) < 2 ^ 8" using assms by (simp add: user_va_def)
  then have "take_bit 8 (unat (PML4_INDEX va)) = unat (PML4_INDEX va)" by (rule take_bit_nat_eq_self)
  then have "take_bit 8 (PML4_INDEX va) = PML4_INDEX va" by (simp add: word_unat_eq_iff unsigned_take_bit_eq)
  then have "\<not> bit (PML4_INDEX va) 8" by (metis bit_take_bit_iff less_irrefl)
  moreover have "bit (0x1FF :: u64) 8" by simp
  ultimately have n: "\<not> bit va 47" by (simp add: PML4_INDEX_def bit_simps)
  show "page_of ?x = page_of va" unfolding page_of_def
  proof (rule bit_word_eqI)
    fix i assume "i < LENGTH(64)"
    have "bit va (12 + i) \<Longrightarrow> i < 36 \<Longrightarrow> 12 + i < 47" using n by (cases "i = 35") auto
    then show "bit (drop_bit 12 ?x AND mask 36) i = bit (drop_bit 12 va AND mask 36) i" by (auto simp: bit_simps)
  qed
qed

lemma leaves_cover:
  assumes "as_ok s L X r as"
  shows "leaves s r \<subseteq> frames_at s r (cover (vma_list as))"
proof
  fix f assume "f \<in> leaves s r"
  then obtain va where va: "uframe s r va = Some f" by (auto simp: leaves_def)
  then have "user_va va" by (simp add: uframe_def split: if_splits)
  then obtain x where x: "low x" "page_of x = page_of va" using low_page by blast
  then have u: "uframe s r x = Some f" using uframe_page [OF x(2)] va by simp
  then have "lookup s r x \<noteq> None" by (auto simp: uframe_def split: if_splits)
  then show "f \<in> frames_at s r (cover (vma_list as))" using as_okD(8) [OF assms x(1)] u by (auto simp: frames_at_def)
qed

subsection \<open>Creating\<close>

lemma new_space:
  assumes ok: "frames_ok (pm ps) R L X" and k: "k \<in> R" "kernel_pml4 ps = table_va (pm ps) k"
  obtains ps' where "paging_create_pml4 ps = Some (ps', 0)" "kernel_pml4 ps' = kernel_pml4 ps" "moves (pm ps) R L X {} (pm ps') R L X"
  | ps' r where "paging_create_pml4 ps = Some (ps', table_va (pm ps) r)" "table_va (pm ps) r \<noteq> 0" "kernel_pml4 ps' = kernel_pml4 ps" "r \<notin> R"
    "moves (pm ps) R L X {} (pm ps') (insert r R) (insert r L) X" "\<And>va. user_va va \<Longrightarrow> lookup (pm ps') r va = None"
proof -
  note o = frames_okD [OF ok]
  let ?s = "pm ps"
  obtain ps' v where c: "paging_create_pml4 ps = Some (ps', v)" "kernel_pml4 ps' = kernel_pml4 ps" "pmm_frame ?s (pm ps')" and
    d: "v = 0 \<and> spaces_ok (pm ps') R \<and> pavail (pm ps') = pavail ?s \<and> phys_mem (pm ps') = phys_mem ?s \<or>
     (\<exists>r. v = table_va ?s r \<and> v \<noteq> 0 \<and> r \<in> pavail ?s \<and> r < length (page_array ?s) \<and>
        pavail (pm ps') = pavail ?s - {r} \<and> (\<forall>a. a div 4096 \<noteq> r \<longrightarrow> phys_mem (pm ps') a = phys_mem ?s a) \<and>
        spaces_ok (pm ps') (insert r R) \<and> utables (pm ps') r = {r} \<and> tables (pm ps') r \<subseteq> insert r (tables ?s k) \<and>
        (\<forall>va. lookup (pm ps') r va = (if user_va va then None else lookup ?s k va)) \<and>
        (\<forall>r' \<in> R. utables (pm ps') r' = utables ?s r' \<and> (\<forall>va. lookup (pm ps') r' va = lookup ?s r' va)))"
    using create_pml4_ok [OF o(3) k] by (elim exE conjE)
  from d show ?thesis
  proof (elim disjE conjE exE)
    assume a: "v = 0" "spaces_ok (pm ps') R" "pavail (pm ps') = pavail ?s" "phys_mem (pm ps') = phys_mem ?s"
    have p: "pmm_ok (pm ps')" using tables_ok_pmm [OF spaces_okD(1) [OF a(2) k(1)]] by blast
    have "moves ?s R L X {} (pm ps') R L X" using o(5) a(3,4) by (intro frames_moves(1) [OF ok, of "{}"] p c(3)) (auto simp: usable_def)
    then show ?thesis using that(1) c(1,2) a(1) by blast
  next
    fix r assume a: "v = table_va ?s r" "v \<noteq> 0" "r \<in> pavail ?s" "r < length (page_array ?s)" "pavail (pm ps') = pavail ?s - {r}"
      "\<forall>a. a div 4096 \<noteq> r \<longrightarrow> phys_mem (pm ps') a = phys_mem ?s a" "spaces_ok (pm ps') (insert r R)" "utables (pm ps') r = {r}"
      "tables (pm ps') r \<subseteq> insert r (tables ?s k)" "\<forall>va. lookup (pm ps') r va = (if user_va va then None else lookup ?s k va)"
      "\<forall>r' \<in> R. utables (pm ps') r' = utables ?s r' \<and> (\<forall>va. lookup (pm ps') r' va = lookup ?s r' va)"
    let ?s' = "pm ps'"
    have p: "pmm_ok ?s'" "hhdm_ok ?s'" using tables_ok_pmm [OF spaces_okD(1) [OF a(7) insertI1]] by blast+
    have nr: "r \<notin> tables ?s q" if "q \<in> R" for q using tables_notin [OF spaces_okD(1) [OF o(3) that]] a(3) by blast
    have rR: "r \<notin> R" using nr tablesI [OF paths_Nil, of ?s r] by auto
    have tm: "tables ?s' q = tables ?s q" if "q \<in> R" for q using tables_mem(1) [of ?s q ?s'] a(6) nr [OF that] by fastforce
    have uf: "uframe ?s' q va = (if q = r then None else uframe ?s q va)" if "q \<in> insert r R" for q va
      using that a(10,11) rR by (auto simp: uframe_def)
    have LR: "q \<in> R" "q \<noteq> r" if "q \<in> L" for q using that o(4) rR by blast+
    have us: "usable ?s' (insert r R) f" if "usable ?s R f" for f
      using that a(3,5,9) k(1) c(3) tm by (auto simp: usable_def pmm_frame_def)
    have "frames_ok ?s' (insert r R) (insert r L) X"
    proof (rule frames_okI [OF p a(7)])
      show "insert r L \<subseteq> insert r R" using o(4) by blast
      show "usable ?s' (insert r R) f" if "f \<in> X" for f using us o(5) that by blast
      show "usable ?s' (insert r R) f \<and> f \<notin> X" if "q \<in> insert r L" "uframe ?s' q va = Some f" for q va f
        using that uf [of q va] us o(6,7) [of q va f] LR(1) by (auto split: if_splits)
      show "q = q' \<and> page_of va = page_of va'" if "q \<in> insert r L" "q' \<in> insert r L" "uframe ?s' q va = Some f" "uframe ?s' q' va' = Some f" for q q' va va' f
        using that uf [of q va] uf [of q' va'] o(8) [of q q' va f va'] LR(1) by (auto split: if_splits)
    qed
    moreover have "leaves ?s' q = (if q = r then {} else leaves ?s q)" if "q \<in> insert r L" for q
    proof -
      have "q \<in> insert r R" using that LR(1) by blast
      then show ?thesis using uf by (simp add: leaves_def)
    qed
    then have "account ?s' (insert r R) (insert r L) X = account ?s R L X"
      using a(3,5,8,11) LR by (auto simp: account_def)
    moreover have "uview ?s' q va = uview ?s q va" if "q \<in> L" for q va
      using a(6,11) LR [OF that] o(6) [OF that, of va] a(3) by (intro uview_keep) (auto simp: usable_def)
    ultimately have "moves ?s R L X {} ?s' (insert r R) (insert r L) X" using c(3) by (auto simp: moves_def)
    then show ?thesis using that(2) [of ps' r] c(1,2) a(1,2,10) rR by simp
  qed
qed

text \<open>Creation gives an empty address space, or fails and takes no memory.\<close>

lemma create_space_ok:
  assumes ok: "frames_ok (pm ps) R L X" and k: "k \<in> R" "kernel_pml4 ps = table_va (pm ps) k"
  obtains ps' where "vmm_create_address_space ps = Some (ps', None)" "moves (pm ps) R L X {} (pm ps') R L X" "kernel_pml4 ps' = kernel_pml4 ps"
  | ps' as r f where "vmm_create_address_space ps = Some (ps', Some as)" "moves (pm ps) R L X {} (pm ps') (insert r R) (insert r L) (insert f X)"
    "kernel_pml4 ps' = kernel_pml4 ps" "r \<notin> R" "f \<notin> X" "as_shape (pm ps') (insert r L) (insert f X) r as f" "vma_list as = []" "as_refs as = 1"
    "\<And>va. user_va va \<Longrightarrow> lookup (pm ps') r va = None"
proof (rule get_page_ok [OF ok])
  fix s1 assume "simple_get_free_page (pm ps) = Some (s1, 0)" "moves (pm ps) R L X {} s1 R L X"
  then show ?thesis using that(1) [of "ps\<lparr>pm := s1\<rparr>"] by (simp add: vmm_create_address_space_def)
next
  fix s1 f assume a: "simple_get_free_page (pm ps) = Some (s1, table_va (pm ps) f)" "table_va (pm ps) f \<noteq> 0" "f \<in> pavail (pm ps)" "f \<notin> X"
    "moves (pm ps) R L X {} s1 R L (insert f X)"
  let ?ps = "ps\<lparr>pm := s1\<rparr>"
  have pe: "pm ?ps = s1" by simp
  have ok1: "frames_ok (pm ?ps) R L (insert f X)" "kernel_pml4 ?ps = table_va (pm ?ps) k" using movesD(1,6) [OF a(5)] k(2) by simp_all
  show ?thesis
  proof (rule new_space [OF ok1(1) k(1) ok1(2)])
    fix ps2 assume c: "paging_create_pml4 ?ps = Some (ps2, 0)" "kernel_pml4 ps2 = kernel_pml4 ?ps" "moves (pm ?ps) R L (insert f X) {} (pm ps2) R L (insert f X)"
    obtain s3 where s3: "simple_free_page (pm ps2) (table_va (pm ps2) f) = Some s3" "moves (pm ps2) R L (insert f X) {} s3 R L (insert f X - {f})"
      using free_page_ok [OF movesD(1) [OF c(3)] insertI1] by blast
    have "moves (pm ps) R L X {} s3 R L X" using moves_trans [OF a(5) moves_trans [OF c(3) [unfolded pe] s3(2)]] a(4) by simp
    moreover have "table_va (pm ps2) f = table_va (pm ps) f" using movesD(6) [OF a(5)] movesD(6) [OF c(3)] by simp
    ultimately show ?thesis using that(1) [of "ps2\<lparr>pm := s3\<rparr>"] a(1,2) c(1,2) s3(1) by (simp add: vmm_create_address_space_def)
  next
    fix ps2 r assume c: "paging_create_pml4 ?ps = Some (ps2, table_va (pm ?ps) r)" "table_va (pm ?ps) r \<noteq> 0" "kernel_pml4 ps2 = kernel_pml4 ?ps" "r \<notin> R"
      "moves (pm ?ps) R L (insert f X) {} (pm ps2) (insert r R) (insert r L) (insert f X)" "\<And>va. user_va va \<Longrightarrow> lookup (pm ps2) r va = None"
    have m: "moves (pm ps) R L X {} (pm ps2) (insert r R) (insert r L) (insert f X)" using moves_trans [OF a(5) c(5) [unfolded pe]] by simp
    note tv = movesD(6) [OF m] and tv1 = movesD(6) [OF c(5)]
    show ?thesis using that(2) [OF _ m] a(1,2,4) c tv tv1 by (simp add: vmm_create_address_space_def as_shape_def)
  qed
qed

end
