(* ===== verification/Vmm_Clone.thy ===== *)
theory Vmm_Clone
  imports Vmm_Spaces
begin

text \<open>
  The copy of an address space for a new process: the child gets pages of its own with the contents and the
  permissions of the parent. Then the properties of the virtual memory manager.
\<close>

subsection \<open>Copying the pages of an area\<close>

lemma copy_page_mem:
  assumes "hhdm_ok s" "g < length (page_array s)" "f < length (page_array s)"
  shows "copy_page s (table_va s g) (table_va s f) =
    s\<lparr>phys_mem := \<lambda>a. if a div 4096 = g then phys_mem s (f * 4096 + a mod 4096) else phys_mem s a\<rparr>"
proof -
  have u: "unat (virt_to_phys s (table_va s p)) = p * 4096" if "p < length (page_array s)" for p
    using that assms(1) unat_PFN_TO_PHYS [of p] by (simp add: table_va_def virt_to_phys_def phys_to_virt_def hhdm_ok_def)
  have "g * 4096 \<le> a \<and> a < g * 4096 + 4096 \<longleftrightarrow> a div 4096 = g" "a div 4096 = g \<Longrightarrow> a - g * 4096 = a mod 4096" for a
    using div_mult_mod_eq [of a 4096] by linarith+
  then show ?thesis by (auto simp: copy_page_def u assms intro!: arg_cong [where f = "\<lambda>m. s\<lparr>phys_mem := m\<rparr>"])
qed

lemma clone_area_pte:
  assumes "tables_ok s r" "a < e"
  shows "clone_area s (table_va s r) p4 a e = (case lookup s r a of
      None \<Rightarrow> clone_area s (table_va s r) p4 (a + PAGE_SIZE) e
    | Some ent \<Rightarrow> Option.bind (simple_get_free_page s) (\<lambda>(s2, page).
        if page = 0 then Some (s2, False)
        else let s3 = copy_page s2 page (phys_to_virt s2 (PFN_TO_PHYS (frame_of ent)))
          in Option.bind (paging_map s3 p4 a (page - hhdm_offset s3) (ent AND NOT PTE_ADDR_MASK)) (\<lambda>(s4, c).
            if c \<noteq> 0 then Option.bind (simple_free_page s4 page) (\<lambda>s5. Some (s5, False))
            else clone_area s4 (table_va s r) p4 (a + PAGE_SIZE) e)))"
proof (rule get_pte_ok [OF assms(1), of a])
  fix f assume p: "paging_get_pte s (table_va s r) a = Some (s, table_va s f + 8 * word_of_nat (leaf a))" "tbl s r (wpath a) = Some f"
    "table_va s f + 8 * word_of_nat (leaf a) \<noteq> 0" "load64 s (table_va s f + 8 * word_of_nat (leaf a)) = entry s f (leaf a)"
  show ?thesis
  proof (cases "entry s f (leaf a) AND PTE_PRESENT = 0")
    case False
    then have l: "lookup s r a = Some (entry s f (leaf a))" using p(2) by (simp add: lookup_def)
    show ?thesis unfolding l by (subst clone_area.simps) (simp add: assms(2) p False Let_def frame_addr cong: if_cong)
  qed (subst clone_area.simps, use assms(2) p in \<open>simp add: lookup_def\<close>)
next
  assume p: "paging_get_pte s (table_va s r) a = Some (s, 0)" "lookup s r a = None"
  show ?thesis by (subst clone_area.simps) (use assms(2) p in simp)
qed

lemma lookup_present: "lookup s r va = Some e \<Longrightarrow> e AND PTE_PRESENT \<noteq> 0"
  by (auto simp: lookup_def split: option.splits if_splits)

lemma keep_present: "e AND PTE_PRESENT \<noteq> 0 \<Longrightarrow> (e AND NOT PTE_ADDR_MASK) OR PTE_PRESENT = e AND NOT PTE_ADDR_MASK"
proof -
  assume "e AND PTE_PRESENT \<noteq> 0"
  then have b: "bit e 0" by (auto simp: PTE_PRESENT_def and_one_eq odd_iff_mod_2_eq_one bit_0)
  have pr: "bit PTE_PRESENT n \<longleftrightarrow> n = 0" for n unfolding PTE_PRESENT_def by (rule bit_1_iff [THEN trans]) simp
  show ?thesis by (rule bit_word_eqI) (use b in \<open>auto simp: bit_simps pr mask_bits\<close>)
qed

text \<open>One mapped page: no memory for the copy, or the child has the page with the parent's contents.\<close>

lemma clone_page:
  assumes ok: "frames_ok s R L X" and r: "r \<in> L" and d: "d \<in> L" and va: "a < e" "user_va a" "uframe s d a = None" and l: "lookup s r a = Some ent"
  obtains s' where "clone_area s (table_va s r) (table_va s d) a e = Some (s', False)" "moves s R L X {d} s' R L X"
    "\<And>va. lookup s' d va = lookup s d va" "\<And>va. uview s' d va = uview s d va"
  | s' where "clone_area s (table_va s r) (table_va s d) a e = clone_area s' (table_va s' r) (table_va s' d) (a + PAGE_SIZE) e"
    "moves s R L X {d} s' R L X" "\<And>va. page_of va \<noteq> page_of a \<Longrightarrow> lookup s' d va = lookup s d va \<and> uview s' d va = uview s d va"
    "\<And>va. page_of va = page_of a \<Longrightarrow> uview s' d va = uview s r va"
proof -
  note o = frames_okD [OF ok]
  have rR: "r \<in> R" using r o(4) by blast
  note eq = clone_area_pte [OF spaces_okD(1) [OF o(3) rR] va(1), of "table_va s d", unfolded l option.case]
  let ?f = "frame_of ent" and ?prot = "ent AND NOT PTE_ADDR_MASK"
  have uf: "uframe s r a = Some ?f" using l va(2) by (simp add: uframe_def)
  note us = o(6) [OF r uf]
  have pm: "?prot AND PTE_ADDR_MASK = 0" by (rule bit_word_eqI) (simp add: bit_simps)
  show ?thesis
  proof (rule get_page_ok [OF ok])
    fix s1 assume a: "simple_get_free_page s = Some (s1, 0)" "moves s R L X {} s1 R L X" "\<And>r va. r \<in> L \<Longrightarrow> lookup s1 r va = lookup s r va"
    then show ?thesis using that(1) [of s1] eq d moves_mono [OF a(2), of "{d}"] movesD(5) [OF a(2) d] by simp
  next
    fix s1 g assume a: "simple_get_free_page s = Some (s1, table_va s g)" "table_va s g \<noteq> 0" "g \<in> pavail s" "g \<notin> X"
      "moves s R L X {} s1 R L (insert g X)" "phys_mem s1 = phys_mem s" "\<And>r va. r \<in> L \<Longrightarrow> lookup s1 r va = lookup s r va"
    note tv = movesD(6) [OF a(5)] and fr = movesD(3) [OF a(5)] and o1 = frames_okD [OF movesD(1) [OF a(5)]]
    have len: "g < length (page_array s1)" "?f < length (page_array s1)" using pavail_less [OF o(1) a(3)] us fr by (simp_all add: usable_def pmm_frame_def)
    define s2 where "s2 = s1\<lparr>phys_mem := \<lambda>a. if a div 4096 = g then phys_mem s1 (?f * 4096 + a mod 4096) else phys_mem s1 a\<rparr>"
    have cp: "copy_page s1 (table_va s g) (phys_to_virt s1 (PFN_TO_PHYS ?f)) = s2"
      using copy_page_mem [OF o1(2) len] tv by (simp add: s2_def table_va_def [of s1 ?f, symmetric])
    have p2: "pmm_ok s2" "pmm_frame s1 s2" "pavail s2 = pavail s1" using o1(1) by (simp_all add: s2_def pmm_ok_def zones_ok_def zone_hi_def pmm_frame_def pavail_def)
    have w2: "\<And>x. x div 4096 \<notin> {g} \<Longrightarrow> phys_mem s2 x = phys_mem s1 x" by (simp add: s2_def)
    have X2: "{g} \<subseteq> pavail s1 \<union> insert g X" "pavail s2 \<union> insert g X = pavail s1 \<union> insert g X" "pavail s2 \<inter> insert g X = {}"
      using p2(3) o1(5) by (auto simp: usable_def)
    have m2: "moves s1 R L (insert g X) {} s2 R L (insert g X)" "\<And>q va. q \<in> L \<Longrightarrow> lookup s2 q va = lookup s1 q va"
      using frames_moves [OF movesD(1) [OF a(5)], where s' = s2, OF w2 X2(1) p2(1,2) X2(2,3)] by blast+
    have m02: "moves s R L X {} s2 R L (insert g X)" using moves_trans [OF a(5) m2(1)] by simp
    have l2: "lookup s2 q va = lookup s q va" if "q \<in> L" for q va using m2(2) [OF that] a(7) [OF that] by simp
    have n2: "uframe s2 d a = None" using va(3) l2 [OF d] by (simp add: uframe_None)
    have phys: "table_va s g - hhdm_offset s2 = PFN_TO_PHYS g" using movesD(3) [OF m02] by (simp add: table_va_def phys_to_virt_def pmm_frame_def)
    note tv2 = movesD(6) [OF m02]
    have eq2: "clone_area s (table_va s r) (table_va s d) a e = Option.bind (paging_map s2 (table_va s2 d) a (PFN_TO_PHYS g) ?prot) (\<lambda>(s4, c).
        if c \<noteq> 0 then Option.bind (simple_free_page s4 (table_va s g)) (\<lambda>s5. Some (s5, False))
        else clone_area s4 (table_va s r) (table_va s d) (a + PAGE_SIZE) e)" using a(1,2) cp phys tv2 by (simp add: eq Let_def)
    show ?thesis
    proof (rule map_frame [OF movesD(1) [OF m02] d va(2) n2 insertI1 pm])
      fix s3 assume m: "paging_map s2 (table_va s2 d) a (PFN_TO_PHYS g) ?prot = Some (s3, -1)" "moves s2 R L (insert g X) {} s3 R L (insert g X)"
        "\<And>va'. lookup s3 d va' = lookup s2 d va'"
      obtain s4 where f: "simple_free_page s3 (table_va s3 g) = Some s4" "moves s3 R L (insert g X) {} s4 R L (insert g X - {g})" "phys_mem s4 = phys_mem s3"
        using free_page_ok [OF movesD(1) [OF m(2)] insertI1] by blast
      have mv: "moves s R L X {} s4 R L X" using moves_trans [OF m02 moves_trans [OF m(2) f(2)]] a(4) by simp
      have "clone_area s (table_va s r) (table_va s d) a e = Some (s4, False)" using eq2 m(1) f(1) movesD(6) [OF m(2)] tv2 by simp
      then show ?thesis using that(1) [of s4] moves_mono [OF mv, of "{d}"] movesD(5) [OF mv d] lookup_mem_eq [OF f(3)] m(3) l2 [OF d] by simp
    next
      fix s3 assume m: "paging_map s2 (table_va s2 d) a (PFN_TO_PHYS g) ?prot = Some (s3, 0)" "moves s2 R L (insert g X) {d} s3 R L (insert g X - {g})"
        "\<And>va'. lookup s3 d va' = (if page_of va' = page_of a then Some (make_pte (PFN_TO_PHYS g) ?prot) else lookup s2 d va')"
        "\<And>va'. page_of va' \<noteq> page_of a \<Longrightarrow> uview s3 d va' = uview s2 d va'" "\<And>a. a div 4096 = g \<Longrightarrow> phys_mem s3 a = phys_mem s2 a"
      have X: "insert g X - {g} = X" using a(4) by blast
      have mv: "moves s R L X {d} s3 R L X" using moves_trans [OF m02 m(2)] by (simp add: X)
      have g40: "g < 2 ^ 40" using len(1) o1(2) by (simp add: hhdm_ok_def)
      have pr: "?prot OR PTE_PRESENT = ?prot" using lookup_present [OF l] by (rule keep_present)
      have new: "uview s3 d va' = uview s r va'" if "page_of va' = page_of a" for va'
      proof -
        have u: "user_va va'" "lookup s r va' = Some ent" using page_of_user [OF that] va(2) lookup_page [OF that] l by simp_all
        have "phys_mem s3 (g * 4096 + unat va' mod 4096) = phys_mem s (?f * 4096 + unat va' mod 4096)"
          using m(5) [OF frame_div [of g va']] a(6) frame_div [of g va'] by (simp add: s2_def)
        then show ?thesis using u m(3) [of va'] that frame_make_pte [OF g40 pm] pr by (simp add: uview_def)
      qed
      have "clone_area s (table_va s r) (table_va s d) a e = clone_area s3 (table_va s3 r) (table_va s3 d) (a + PAGE_SIZE) e"
        using eq2 m(1) movesD(6) [OF mv] by simp
      then show ?thesis using that(2) [of s3] mv m(3,4) l2 [OF d] movesD(5) [OF m02 d] new by simp
    qed
  qed
qed

lemma clone_area_ok:
  assumes "frames_ok s R L X" "r \<in> L" "d \<in> L" "r \<noteq> d" "unat e \<le> 2 ^ 47" "\<forall>x \<in> addrs a e. uframe s d x = None"
  shows "\<exists>s' b. clone_area s (table_va s r) (table_va s d) a e = Some (s', b) \<and> moves s R L X {d} s' R L X \<and>
    (\<forall>va. page_of va \<notin> page_of ` addrs a e \<longrightarrow> uview s' d va = uview s d va) \<and>
    (b \<longrightarrow> (\<forall>va. page_of va \<in> page_of ` addrs a e \<longrightarrow> uview s' d va = uview s r va))"
  using assms(1,6)
proof (induction "unat e - unat a" arbitrary: s a rule: less_induct)
  case less
  show ?case
  proof (cases "a < e")
    case False
    then show ?thesis using moves_mono [OF moves_refl [OF less.prems(1)], of "{d}"] by (subst clone_area.simps) (auto simp: addrs_empty)
  next
    case True
    note step = addrs_step [OF True assms(5)] and nl = addr_not_later [OF True assms(5)] and ua = user_less [OF True assms(5)]
    have dec: "unat e - unat (a + PAGE_SIZE) < unat e - unat a" using True unat_next [OF True assms(5)] by (simp add: word_less_nat_alt)
    have n: "uframe s d a = None" using less.prems(2) step by simp
    have go: ?thesis if eq: "clone_area s (table_va s r) (table_va s d) a e = clone_area s1 (table_va s1 r) (table_va s1 d) (a + PAGE_SIZE) e"
      and m: "moves s R L X {d} s1 R L X" and other: "\<And>va. page_of va \<noteq> page_of a \<Longrightarrow> lookup s1 d va = lookup s d va \<and> uview s1 d va = uview s d va"
      and new: "\<And>va. page_of va = page_of a \<Longrightarrow> uview s1 d va = uview s r va" for s1
    proof -
      have "uframe s1 d x = None" if "x \<in> addrs (a + PAGE_SIZE) e" for x
      proof -
        have "page_of x \<noteq> page_of a" using nl imageI [OF that, of page_of] by metis
        moreover have "uframe s d x = None" using less.prems(2) step that by simp
        ultimately show ?thesis using other [of x] by (simp add: uframe_None)
      qed
      then have "\<forall>x \<in> addrs (a + PAGE_SIZE) e. uframe s1 d x = None" by blast
      from less.hyps [OF dec movesD(1) [OF m] this] obtain s' b where
        IH: "clone_area s1 (table_va s1 r) (table_va s1 d) (a + PAGE_SIZE) e = Some (s', b)" "moves s1 R L X {d} s' R L X"
        "\<forall>va. page_of va \<notin> page_of ` addrs (a + PAGE_SIZE) e \<longrightarrow> uview s' d va = uview s1 d va"
        "b \<longrightarrow> (\<forall>va. page_of va \<in> page_of ` addrs (a + PAGE_SIZE) e \<longrightarrow> uview s' d va = uview s1 r va)" by blast
      have "moves s R L X {d} s' R L X" using moves_trans [OF m IH(2)] by simp
      moreover have "uview s1 r va = uview s r va" for va using movesD(5) [OF m assms(2)] assms(4) by simp
      ultimately show ?thesis using IH(1,3,4) eq other new nl unfolding step by (intro exI [of _ s'] exI [of _ b]) auto
    qed
    show ?thesis
    proof (cases "lookup s r a")
      case None
      have rR: "r \<in> R" using assms(2) frames_okD(4) [OF less.prems(1)] by blast
      have "uview s d va = uview s r va" if "page_of va = page_of a" for va
        using that None n ua lookup_page [OF that] page_of_user [OF that] by (simp add: uview_def uframe_None)
      then show ?thesis using go [of s] clone_area_pte [OF spaces_okD(1) [OF frames_okD(3) [OF less.prems(1)] rR] True] None
        moves_mono [OF moves_refl [OF less.prems(1)], of "{d}"] by simp
    next
      case (Some ent)
      show ?thesis
      proof (rule clone_page [OF less.prems(1) assms(2,3) True ua n Some])
        fix s' assume "clone_area s (table_va s r) (table_va s d) a e = Some (s', False)" "moves s R L X {d} s' R L X"
          "\<And>va. uview s' d va = uview s d va"
        then show ?thesis by (intro exI [of _ s'] exI [of _ False]) simp
      qed (rule go)
    qed
  qed
qed

subsection \<open>Copying the areas\<close>

definition same_area :: "vm_area \<Rightarrow> vm_area \<Rightarrow> bool" where
  "same_area v w \<longleftrightarrow> va_start w = va_start v \<and> va_end w = va_end v \<and> va_flags w = va_flags v \<and> page_prot w = page_prot v \<and>
     va_file w = va_file v \<and> file_offset w = file_offset v"

definition copied :: "vm_area list \<Rightarrow> vm_area list \<Rightarrow> bool" where
  "copied = list_all2 same_area"

lemma copied_Nil [simp]: "copied [] ws \<longleftrightarrow> ws = []"
  by (simp add: copied_def)

lemma copied_Cons: "copied (v # vs) ws \<longleftrightarrow> (\<exists>w ws'. ws = w # ws' \<and> same_area v w \<and> copied vs ws')"
  by (auto simp: copied_def list_all2_Cons1)

lemma same_span: "same_area v w \<Longrightarrow> span w = span v"
  by (simp add: same_area_def span_def)

lemma copied_cover: "copied vs ws \<Longrightarrow> cover ws = cover vs"
  by (induction vs arbitrary: ws) (auto simp: copied_Cons same_span)

lemma copied_prot: "copied vs ws \<Longrightarrow> prot_at ws x = prot_at vs x"
proof (induction vs arbitrary: ws)
  case (Cons v vs)
  then obtain w ws' where "ws = w # ws'" "same_area v w" "copied vs ws'" by (auto simp: copied_Cons)
  then show ?case using Cons.IH [of ws'] same_span [of v w] by (simp add: same_area_def)
qed simp

lemma copied_snoc: "copied vs ws \<Longrightarrow> copied (vs @ [v]) (ws @ [v\<lparr>va_page := p\<rparr>])"
  by (simp add: copied_def same_area_def list_all2_appendI)

lemma copied_member: "copied vs ws \<Longrightarrow> w \<in> set ws \<Longrightarrow> \<exists>v \<in> set vs. va_start w = va_start v \<and> va_end w = va_end v"
proof (induction vs arbitrary: ws)
  case (Cons v vs)
  then obtain u ws' where u: "ws = u # ws'" "same_area v u" "copied vs ws'" by (auto simp: copied_Cons)
  then show ?case using Cons.IH [OF u(3)] Cons.prems(2) by (auto simp: same_area_def)
qed simp

lemma insert_last: "\<forall>v \<in> set vs. \<not> va_start w < va_start v \<Longrightarrow> insert_vma w vs = vs @ [w]"
  by (induction vs) auto

lemma uview_low: "low va \<Longrightarrow> uview s r va = None \<longleftrightarrow> lookup s r va = None"
  using user_low [of va] by (simp add: low_def uview_def)

lemma vmas_ok_append: "vmas_ok (vs @ ws) \<longleftrightarrow> vmas_ok vs \<and> vmas_ok ws \<and> (\<forall>v \<in> set vs. \<forall>w \<in> set ws. va_end v \<le> va_start w)"
  by (induction vs) auto

text \<open>The outcomes: a child that sees what the parent sees in its areas, or no child.\<close>

definition cloned :: "pmm_state \<Rightarrow> nat set \<Rightarrow> nat set \<Rightarrow> nat set \<Rightarrow> nat \<Rightarrow> nat \<Rightarrow> nat set \<Rightarrow> nat \<Rightarrow> vm_area list \<Rightarrow>
    (pmm_state \<times> address_space option) option \<Rightarrow> bool" where
  "cloned s R L X d f Y r vs res \<longleftrightarrow>
     (\<exists>s' das X'. res = Some (s', Some das) \<and> moves s R L X {d} s' R L X' \<and> as_shape s' L X' d das f \<and> as_refs das = 1 \<and>
        copied vs (vma_list das) \<and> Y \<subseteq> X' - holders s (vma_list das) - {f} \<and>
        (\<forall>va. low va \<longrightarrow> uview s' d va = (if va \<in> cover vs then uview s r va else None))) \<or>
     (\<exists>s' X'. res = Some (s', None) \<and> moves s R L X {d} s' (R - {d}) (L - {d}) X' \<and> Y \<subseteq> X')"

lemma cloned_fail:
  assumes m: "moves s R L X {d} s1 R L X" and sh: "as_shape s L X d das f" "as_refs das = 1" "Y \<subseteq> X - holders s (vma_list das) - {f}"
  shows "cloned s R L X d f Y r vs (do { (s2, x) \<leftarrow> vmm_destroy_address_space s1 (Some das); Some (s2, None) })"
proof -
  note fr = movesD(3) [OF m]
  have sh1: "as_shape s1 L X d das f" using as_shape_frame [OF sh(1) fr] by simp
  let ?F = "frames_at s1 d (cover (vma_list das)) \<union> holders s1 (vma_list das) \<union> {f}"
  obtain s2 where s2: "vmm_destroy_address_space s1 (Some das) = Some (s2, None)" "moves s1 R L X {d} s2 (R - {d}) (L - {d}) (X \<union> leaves s1 d - ?F)"
    using destroy_space_ok [OF movesD(1) [OF m] sh1 sh(2)] by blast
  have "frames_at s1 d (cover (vma_list das)) \<subseteq> leaves s1 d" by (auto simp: frames_at_def leaves_def)
  moreover have "leaves s1 d \<inter> X = {}" using frames_okD(7) [OF movesD(1) [OF m] as_shapeD(1) [OF sh1]] by (auto simp: leaves_def)
  ultimately have "Y \<subseteq> X \<union> leaves s1 d - ?F" using sh(3) holders_frame [OF fr] by auto
  then show ?thesis using s2(1) moves_trans [OF m s2(2)] unfolding cloned_def by auto
qed

lemma cloned_later:
  assumes m: "moves s R L X {d} s1 R L X1" and r: "r \<in> L" "r \<noteq> d" and c: "cloned s1 R L X1 d f Y r vs res"
  shows "cloned s R L X d f Y r vs res"
proof -
  have u: "uview s1 r va = uview s r va" for va using movesD(5) [OF m r(1)] r(2) by simp
  have t: "moves s R L X {d} s2 R2 L2 X2" if "moves s1 R L X1 {d} s2 R2 L2 X2" for s2 R2 L2 X2 using moves_trans [OF m that] by simp
  from c show ?thesis unfolding cloned_def u holders_frame [OF movesD(3) [OF m]] using t by blast
qed

lemma clone_vmas_ok:
  assumes r: "r \<in> L" "r \<noteq> d"
  shows "frames_ok s R L X \<Longrightarrow> as_shape s L X d das f \<Longrightarrow> as_refs das = 1 \<Longrightarrow> copied ds (vma_list das) \<Longrightarrow> vmas_ok (ds @ vs) \<Longrightarrow>
    \<forall>v \<in> set vs. bound_ok (va_start v) \<and> bound_ok (va_end v) \<Longrightarrow> Y \<subseteq> X - holders s (vma_list das) - {f} \<Longrightarrow>
    \<forall>va. low va \<longrightarrow> uview s d va = (if va \<in> cover ds then uview s r va else None) \<Longrightarrow>
    cloned s R L X d f Y r (ds @ vs) (clone_vmas s (table_va s r) das vs)"
proof (induction vs arbitrary: s X das ds)
  case Nil
  then have "cloned s R L X d f Y r ds (Some (s, Some das))" using moves_mono [OF moves_refl [OF Nil(1)], of "{d}"] unfolding cloned_def by blast
  then show ?case by simp
next
  case (Cons v vs)
  note d = as_shapeD [OF Cons.prems(2)]
  have vb: "bound_ok (va_start v)" "bound_ok (va_end v)" using Cons.prems(6) by simp_all
  have vo: "vmas_ok ds" "va_start v < va_end v" "\<forall>u \<in> set ds. va_end u \<le> va_start v" using Cons.prems(5) by (auto simp: vmas_ok_append)
  show ?case
  proof (rule vma_alloc_ok [OF Cons.prems(1)])
    fix s1 assume a: "vma_alloc s = Some (s1, None)" "moves s R L X {} s1 R L X"
    show ?thesis using cloned_fail [OF moves_mono [OF a(2)] Cons.prems(2,3,7)] a(1) by simp
  next
    fix s1 g let ?w = "\<lparr>va_page = table_va s g, va_start = 0, va_end = 0, va_flags = 0, page_prot = 0, va_file = 0, file_offset = 0\<rparr>"
    assume a: "vma_alloc s = Some (s1, Some ?w)" "moves s R L X {} s1 R L (insert g X)" "g \<notin> X" "g < length (page_array s)" "phys_mem s1 = phys_mem s"
    let ?v = "v\<lparr>va_page := table_va s g\<rparr>"
    have tv: "table_va s1 q = table_va s q" for q by (rule movesD(6) [OF a(2)])
    have uv: "uview s1 q va = uview s q va" if "q \<in> L" for q va by (rule movesD(5) [OF a(2) that]) simp
    have "\<forall>x \<in> addrs (va_start v) (va_end v). uframe s1 d x = None"
    proof
      fix x assume "x \<in> addrs (va_start v) (va_end v)"
      note x = addrs_low [OF this vb]
      have "x \<notin> cover ds" using x(2) vo(3) by (fastforce simp: cover_def span_def)
      then have "uview s1 d x = None" using Cons.prems(8) x(1) uv [OF d(1)] by simp
      then show "uframe s1 d x = None" using uview_low [OF x(1)] by (simp add: uframe_None)
    qed
    then obtain s2 b where c: "clone_area s1 (table_va s1 r) (table_va s1 d) (va_start v) (va_end v) = Some (s2, b)" "moves s1 R L (insert g X) {d} s2 R L (insert g X)"
      "\<forall>va. page_of va \<notin> page_of ` addrs (va_start v) (va_end v) \<longrightarrow> uview s2 d va = uview s1 d va"
      "b \<longrightarrow> (\<forall>va. page_of va \<in> page_of ` addrs (va_start v) (va_end v) \<longrightarrow> uview s2 d va = uview s1 r va)"
      using clone_area_ok [OF movesD(1) [OF a(2)] r(1) d(1) r(2), of "va_end v" "va_start v"] vb(2) by (auto simp: bound_ok_def)
    have m2: "moves s R L X {d} s2 R L (insert g X)" using moves_trans [OF a(2) c(2)] by simp
    show ?thesis
    proof (cases b)
      case True
      have free: "\<forall>u \<in> set (vma_list das). va_end ?v \<le> va_start u \<or> va_end u \<le> va_start ?v" "\<forall>u \<in> set (vma_list das). \<not> va_start ?v < va_start u"
        using copied_member [OF Cons.prems(4)] vo by (fastforce simp: vmas_ok_def)+
      have l2: "vma_list (vma_insert das ?v) = vma_list das @ [?v]" using insert_last [OF free(2)] by (simp add: vma_insert_def)
      have sh: "as_shape s2 L (insert g X) d (vma_insert das ?v) f"
        by (rule as_shape_frame [OF insert_shape [OF frames_okD(2) [OF Cons.prems(1)] Cons.prems(2) a(3,4)] movesD(3) [OF m2]]) (use vb vo(2) free(1) in simp_all)
      have "holders s (vma_list das @ [?v]) = insert g (holders s (vma_list das))"
        using holders_Cons [OF frames_okD(2) [OF Cons.prems(1)] a(4), of ?v "vma_list das"] by (simp add: holders_def)
      then have Y: "Y \<subseteq> insert g X - holders s2 (vma_list (vma_insert das ?v)) - {f}" using Cons.prems(7) a(3) by (auto simp: l2 holders_frame [OF movesD(3) [OF m2]])
      have "uview s2 d va = (if va \<in> cover (ds @ [v]) then uview s2 r va else None)" if "low va" for va
        using that c(3,4) True page_in [OF _ vb(2) that, of "va_start v"] vb(1) Cons.prems(8) uv [OF d(1)] uv [OF r(1)] movesD(5) [OF m2 r(1)] r(2)
        by (auto simp: bound_ok_def cover_def span_def)
      then have "cloned s2 R L (insert g X) d f Y r ((ds @ [v]) @ vs) (clone_vmas s2 (table_va s2 r) (vma_insert das ?v) vs)"
        using Cons.prems(3,5,6) copied_snoc [OF Cons.prems(4)] by (intro Cons.IH [OF movesD(1) [OF m2] sh _ _ _ _ Y]) (simp_all add: l2, simp add: vma_insert_def)
      from cloned_later [OF m2 r this] show ?thesis using a(1) c(1) True tv d(2) movesD(6) [OF m2] by simp
    next
      case False
      obtain s3 where s3: "vma_free s2 ?v = Some s3" "moves s2 R L (insert g X) {} s3 R L (insert g X - {g})"
        using vma_free_ok [OF movesD(1) [OF m2] insertI1, of ?v] movesD(6) [OF m2] by auto
      have m3: "moves s R L X {d} s3 R L X" using moves_trans [OF m2 s3(2)] a(3) by simp
      from cloned_fail [OF m3 Cons.prems(2,3,7)] show ?thesis using a(1) c(1) False s3(1) tv d(2) by simp
    qed
  qed
qed

lemma moves_fresh: "moves s R L X A s' R' L' X' \<Longrightarrow> A \<inter> L = {} \<Longrightarrow> moves s R L X {} s' R' L' X'"
  unfolding moves_def by blast

lemma as_ok_later:
  assumes as: "as_ok s L X r as" and m: "moves s R L X {} s' R' L' X'" and X: "X \<subseteq> X'"
  shows "as_ok s' L' X' r as"
proof -
  note a = as_okD [OF as]
  obtain f where "as_shape s L X r as f" using as by (auto simp: as_ok_shape)
  then have "as_shape s' L' X' r as f" using as_shape_frame movesD(3,4) [OF m] X by blast
  moreover have "va \<in> cover (vma_list as)" if "low va" "lookup s' r va \<noteq> None" for va
    using that a(8) [OF that(1)] uview_low [OF that(1)] movesD(5) [OF m a(1)] by (metis empty_iff)
  ultimately show ?thesis by (auto simp: as_ok_shape)
qed

lemma clone_space_ok:
  assumes ok: "frames_ok (pm ps) R L X" and k: "k \<in> R" "kernel_pml4 ps = table_va (pm ps) k" and as: "as_ok (pm ps) L X r as"
  shows "\<exists>ps' X' out. vmm_clone_address_space ps as = Some (ps', out) \<and> X \<subseteq> X' \<and>
    (case out of
       None \<Rightarrow> moves (pm ps) R L X {} (pm ps') R L X'
     | Some das \<Rightarrow> \<exists>d. d \<notin> R \<and> moves (pm ps) R L X {} (pm ps') (insert d R) (insert d L) X' \<and> as_ok (pm ps') (insert d L) X' d das \<and>
         copied (vma_list as) (vma_list das) \<and> (\<forall>va. low va \<longrightarrow> uview (pm ps') d va = uview (pm ps) r va))"
proof (rule create_space_ok [OF ok k])
  fix ps' assume "vmm_create_address_space ps = Some (ps', None)" "moves (pm ps) R L X {} (pm ps') R L X"
  then show ?thesis by (intro exI [of _ ps'] exI [of _ X] exI [of _ None]) (simp add: vmm_clone_address_space_def)
next
  note a = as_okD [OF as]
  fix ps1 das d f assume c: "vmm_create_address_space ps = Some (ps1, Some das)" "moves (pm ps) R L X {} (pm ps1) (insert d R) (insert d L) (insert f X)"
    "d \<notin> R" "f \<notin> X" "as_shape (pm ps1) (insert d L) (insert f X) d das f" "vma_list das = []" "as_refs das = 1"
    "\<And>va. user_va va \<Longrightarrow> lookup (pm ps1) d va = None"
  have rd: "r \<in> insert d L" "r \<noteq> d" "d \<notin> L" using a(1) c(3) frames_okD(4) [OF ok] by blast+
  have u1: "uview (pm ps1) r va = uview (pm ps) r va" for va by (rule movesD(5) [OF c(2) a(1)]) simp
  have z: "\<forall>va. low va \<longrightarrow> uview (pm ps1) d va = (if va \<in> cover [] then uview (pm ps1) r va else None)"
    using c(8) user_low by (simp add: uview_def low_def)
  have Y: "X \<subseteq> insert f X - holders (pm ps1) (vma_list das) - {f}" using c(4,6) by auto
  have cp: "copied [] (vma_list das)" by (simp add: c(6))
  have "vmas_ok ([] @ vma_list as)" using a(3) by simp
  from clone_vmas_ok [OF rd(1,2) movesD(1) [OF c(2)] c(5,7) cp this a(4) Y z]
  have "cloned (pm ps1) (insert d R) (insert d L) (insert f X) d f X r (vma_list as) (clone_vmas (pm ps1) (pml4 as) das (vma_list as))"
    using a(2) movesD(6) [OF c(2)] by simp
  then show ?thesis unfolding cloned_def
  proof (elim disjE exE conjE)
    fix s' das' X' assume b: "clone_vmas (pm ps1) (pml4 as) das (vma_list as) = Some (s', Some das')"
      "moves (pm ps1) (insert d R) (insert d L) (insert f X) {d} s' (insert d R) (insert d L) X'" "as_shape s' (insert d L) X' d das' f" "as_refs das' = 1"
      "copied (vma_list as) (vma_list das')" "X \<subseteq> X' - holders (pm ps1) (vma_list das') - {f}"
      "\<forall>va. low va \<longrightarrow> uview s' d va = (if va \<in> cover (vma_list as) then uview (pm ps1) r va else None)"
    let ?das = "das'\<lparr>brk := brk as, start_brk := start_brk as, start_stack := start_stack as, total_vm := total_vm as\<rparr>"
    have m: "moves (pm ps) R L X {} s' (insert d R) (insert d L) X'" using moves_fresh [OF moves_trans [OF c(2) b(2)]] rd(3) by simp
    have view: "uview s' d va = uview (pm ps) r va" if "low va" for va
    proof (cases "va \<in> cover (vma_list as)")
      case False
      then have "lookup (pm ps) r va = None" using a(8) [OF that] by blast
      then show ?thesis using b(7) that False uview_None by simp
    qed (use b(7) that u1 in simp)
    have "as_shape s' (insert d L) X' d ?das f" using b(3) by (simp add: as_shape_def)
    moreover have "va \<in> cover (vma_list ?das)" if "low va" "lookup s' d va \<noteq> None" for va
    proof -
      have "uview s' d va \<noteq> None" using that(2) unfolding uview_low [OF that(1)] .
      then have "lookup (pm ps) r va \<noteq> None" using view [OF that(1)] uview_None by metis
      then show ?thesis using a(8) [OF that(1)] copied_cover [OF b(5)] by simp
    qed
    ultimately have "as_ok s' (insert d L) X' d ?das" unfolding as_ok_shape by blast
    then show ?thesis using m view b(1,5,6) c(1,3)
      by (intro exI [of _ "ps1\<lparr>pm := s'\<rparr>"] exI [of _ X'] exI [of _ "Some ?das"]) (auto simp: vmm_clone_address_space_def)
  next
    fix s' X' assume b: "clone_vmas (pm ps1) (pml4 as) das (vma_list as) = Some (s', None)" "X \<subseteq> X'"
      "moves (pm ps1) (insert d R) (insert d L) (insert f X) {d} s' (insert d R - {d}) (insert d L - {d}) X'"
    have "insert d R - {d} = R" "insert d L - {d} = L" using c(3) rd(3) by blast+
    then have "moves (pm ps) R L X {} s' R L X'" using moves_fresh [OF moves_trans [OF c(2) b(3)]] rd(3) by simp
    then show ?thesis using b(1,2) c(1) by (intro exI [of _ "ps1\<lparr>pm := s'\<rparr>"] exI [of _ X'] exI [of _ None]) (simp add: vmm_clone_address_space_def)
  qed
qed

subsection \<open>Properties\<close>


text \<open>A machine after boot with one address space without areas.\<close>

definition ex_as :: "pmm_state \<Rightarrow> nat \<Rightarrow> address_space" where
  "ex_as s k = \<lparr>as_page = table_va s 0, pml4 = table_va s k, pml4_phys = PFN_TO_PHYS k, vma_list = [], vma_count = 0, brk = 0,
     start_brk = 0, start_stack = 0, total_vm = 0, shared_vm = 0, as_refs = 1\<rparr>"

lemma ex_machine:
  obtains s k where "frames_ok s {k} {k} {0}" "as_ok s {k} {0} k (ex_as s k)" "vma_list (ex_as s k) = []" "as_refs (ex_as s k) = 1"
proof (rule ex_space)
  fix s0 s k assume a: "pmm_init pmm_bss (Some ex_memmap) = Some s0" "spaces_ok s {k}" "tables s k = {k}" "\<forall>va. lookup s k va = None"
    "k \<in> pavail s0" "pavail s = pavail s0 - {k}" "length (page_array s) = 1024"
  have z: "0 \<notin> pavail s0" using pmm_init_ok [OF ex_memmap_ok ex_scan, of pmm_bss] a(1) by auto
  then have k: "k \<noteq> 0" using a(5) by metis
  note p = tables_ok_pmm [OF spaces_okD(1) [OF a(2) singletonI]]
  have n: "uframe s k va = None" for va using a(4) by (simp add: uframe_None)
  have "frames_ok s {k} {k} {0}"
    by (rule frames_okI [OF p a(2)]) (use z k a(3,6,7) n in \<open>simp_all add: usable_def\<close>)
  moreover have "as_ok s {k} {0} k (ex_as s k)" using a(4) by (simp add: as_ok_def ex_as_def)
  ultimately show ?thesis using that by (simp add: ex_as_def)
qed

text \<open>The frames of the structures of an address space.\<close>

definition structures :: "pmm_state \<Rightarrow> address_space \<Rightarrow> nat set" where
  "structures s as = {f. f < length (page_array s) \<and> table_va s f \<in> insert (as_page as) (va_page ` set (vma_list as))}"

lemma structures_shape:
  assumes ok: "frames_ok s R L X" and sh: "as_shape s L X r as f"
  shows "structures s as = holders s (vma_list as) \<union> {f}"
proof -
  have f: "f < length (page_array s)" using frames_okD(5) [OF ok as_shapeD(6) [OF sh]] by (simp add: usable_def)
  then have "f' = f" if "f' < length (page_array s)" "table_va s f' = table_va s f" for f'
    using table_va_inj [OF frames_okD(2) [OF ok]] that by blast
  then show ?thesis using f as_shapeD(8) [OF sh] by (auto simp: structures_def holders_def)
qed




text \<open>
  C8: Cloning an address space, as \<^verbatim>\<open>fork\<close> does, gives a new address space in which user code sees at every address the same byte with the
  same permissions as in the original, with the same areas, in frames of its own, so that later writes of one
  are not seen by the other; or it fails. In both cases it returns without a fault, the original and all other address spaces see no change and keep their structures, and
  no frame gets lost to the kernel's accounts; after a failure the kernel may hold frames that it no longer uses.
\<close>

theorem vmm_clone_exact:
  assumes "frames_ok (pm ps) R L X" "k \<in> R" "kernel_pml4 ps = table_va (pm ps) k" "as_ok (pm ps) L X r as"
  shows "\<exists>ps' X' out. vmm_clone_address_space ps as = Some (ps', out) \<and> X \<subseteq> X' \<and>
    (case out of
       None \<Rightarrow> moves (pm ps) R L X {} (pm ps') R L X' \<and> as_ok (pm ps') L X' r as
     | Some das \<Rightarrow> \<exists>d. d \<notin> R \<and> moves (pm ps) R L X {} (pm ps') (insert d R) (insert d L) X' \<and>
         as_ok (pm ps') (insert d L) X' r as \<and> as_ok (pm ps') (insert d L) X' d das \<and>
         (\<forall>x. prot_at (vma_list das) x = prot_at (vma_list as) x) \<and>
         (\<forall>va. unat va < 2 ^ 47 \<longrightarrow> uview (pm ps') d va = uview (pm ps) r va \<and> uview (pm ps') r va = uview (pm ps) r va) \<and>
         leaves (pm ps') d \<inter> leaves (pm ps') r = {})"
proof -
  obtain ps' X' out where c: "vmm_clone_address_space ps as = Some (ps', out)" "X \<subseteq> X'" and
    d: "case out of None \<Rightarrow> moves (pm ps) R L X {} (pm ps') R L X'
     | Some das \<Rightarrow> \<exists>d. d \<notin> R \<and> moves (pm ps) R L X {} (pm ps') (insert d R) (insert d L) X' \<and> as_ok (pm ps') (insert d L) X' d das \<and>
         copied (vma_list as) (vma_list das) \<and> (\<forall>va. low va \<longrightarrow> uview (pm ps') d va = uview (pm ps) r va)"
    using clone_space_ok [OF assms] by (elim exE conjE)
  show ?thesis
  proof (cases out)
    case None
    then show ?thesis using c d as_ok_later [OF assms(4) _ c(2)] by (intro exI [of _ ps'] exI [of _ X'] exI [of _ None]) simp
  next
    case (Some das)
    then obtain d where a: "d \<notin> R" "moves (pm ps) R L X {} (pm ps') (insert d R) (insert d L) X'" "as_ok (pm ps') (insert d L) X' d das"
      "copied (vma_list as) (vma_list das)" "\<forall>va. low va \<longrightarrow> uview (pm ps') d va = uview (pm ps) r va" using d by auto
    have rL: "r \<in> L" by (rule as_okD(1) [OF assms(4)])
    have "r \<noteq> d" using rL a(1) frames_okD(4) [OF assms(1)] by blast
    then have "leaves (pm ps') d \<inter> leaves (pm ps') r = {}"
      using frames_okD(8) [OF movesD(1) [OF a(2)], of d r] rL by (auto simp: leaves_def)
    then show ?thesis using c Some a(1,2,3) copied_prot [OF a(4)] a(5) as_ok_later [OF assms(4) a(2) c(2)] movesD(5) [OF a(2) rL]
      by (intro exI [of _ ps'] exI [of _ X'] exI [of _ out]) (auto simp: low_def intro!: exI [of _ d])
  qed
qed

theorem vmm_clone_exact_witness:
  "\<exists>(ps :: paging_state) k ps' out. frames_ok (pm ps) {k} {k} {0} \<and> as_ok (pm ps) {k} {0} k (ex_as (pm ps) k) \<and>
     kernel_pml4 ps = table_va (pm ps) k \<and> vmm_clone_address_space ps (ex_as (pm ps) k) = Some (ps', out) \<and>
     (out = None \<or> (\<exists>d. uview (pm ps') d 0x400000 = uview (pm ps) k 0x400000))"
proof -
  obtain s k where s: "frames_ok s {k} {k} {0}" "as_ok s {k} {0} k (ex_as s k)" by (rule ex_machine)
  let ?ps = "\<lparr>pm = s, kernel_pml4 = table_va s k, kernel_pml4_phys = PFN_TO_PHYS k\<rparr>"
  have ps: "frames_ok (pm ?ps) {k} {k} {0}" "kernel_pml4 ?ps = table_va (pm ?ps) k" "as_ok (pm ?ps) {k} {0} k (ex_as (pm ?ps) k)" using s by simp_all
  from vmm_clone_exact [OF ps(1) singletonI ps(2,3)] obtain ps' out where
    c: "vmm_clone_address_space ?ps (ex_as (pm ?ps) k) = Some (ps', out)"
    "case out of None \<Rightarrow> True | Some das \<Rightarrow> \<exists>d. \<forall>va. unat va < 2 ^ 47 \<longrightarrow> uview (pm ps') d va = uview (pm ?ps) k va"
    by (fastforce split: option.splits)
  have "out = None \<or> (\<exists>d. uview (pm ps') d 0x400000 = uview (pm ?ps) k 0x400000)"
  proof (cases out)
    case (Some das)
    then obtain d where d: "\<forall>va. unat va < 2 ^ 47 \<longrightarrow> uview (pm ps') d va = uview (pm ?ps) k va" using c(2) by auto
    have "uview (pm ps') d 0x400000 = uview (pm ?ps) k 0x400000" by (rule d [rule_format]) simp
    then show ?thesis by blast
  qed simp
  then show ?thesis using ps c(1) by blast
qed

text \<open>
  C10: The life of an address space. Creating one gives an empty one in a new top-level table and takes a frame for its structure, or fails and
  takes no memory. Destroying one whose last reference is dropped returns without a fault and gives back exactly the frames mapped in it, its page
  tables, and the pages of its structures, and no other frame; otherwise only the count of references drops. The other
  address spaces see no change.
\<close>

theorem vmm_create_destroy:
  assumes "frames_ok (pm ps) R L X" "k \<in> R" "kernel_pml4 ps = table_va (pm ps) k"
  shows "(\<exists>ps' out. vmm_create_address_space ps = Some (ps', out) \<and>
      (case out of
         None \<Rightarrow> moves (pm ps) R L X {} (pm ps') R L X
       | Some as \<Rightarrow> \<exists>r f. r \<notin> R \<and> f \<notin> X \<and> moves (pm ps) R L X {} (pm ps') (insert r R) (insert r L) (insert f X) \<and>
           as_ok (pm ps') (insert r L) (insert f X) r as \<and> vma_list as = [] \<and> as_refs as = 1)) \<and>
    (\<forall>r as. as_ok (pm ps) L X r as \<longrightarrow>
      (if as_refs as = 1
       then \<exists>s'. vmm_destroy_address_space (pm ps) (Some as) = Some (s', None) \<and>
         moves (pm ps) R L X {r} s' (R - {r}) (L - {r}) (X - structures (pm ps) as) \<and>
         pavail s' = pavail (pm ps) \<union> leaves (pm ps) r \<union> utables (pm ps) r \<union> structures (pm ps) as
       else vmm_destroy_address_space (pm ps) (Some as) = Some (pm ps, Some (as\<lparr>as_refs := as_refs as - 1\<rparr>))))"
proof (intro conjI allI impI)
  show "\<exists>ps' out. vmm_create_address_space ps = Some (ps', out) \<and>
      (case out of
         None \<Rightarrow> moves (pm ps) R L X {} (pm ps') R L X
       | Some as \<Rightarrow> \<exists>r f. r \<notin> R \<and> f \<notin> X \<and> moves (pm ps) R L X {} (pm ps') (insert r R) (insert r L) (insert f X) \<and>
           as_ok (pm ps') (insert r L) (insert f X) r as \<and> vma_list as = [] \<and> as_refs as = 1)"
  proof (rule create_space_ok [OF assms])
    fix ps' as r f assume c: "vmm_create_address_space ps = Some (ps', Some as)" "moves (pm ps) R L X {} (pm ps') (insert r R) (insert r L) (insert f X)"
      "r \<notin> R" "f \<notin> X" "as_shape (pm ps') (insert r L) (insert f X) r as f" "vma_list as = []" "as_refs as = 1"
      "\<And>va. user_va va \<Longrightarrow> lookup (pm ps') r va = None"
    have "as_ok (pm ps') (insert r L) (insert f X) r as" using c(5,8) user_low by (auto simp: as_ok_shape low_def)
    then show ?thesis using c by (intro exI [of _ ps'] exI [of _ "Some as"]) auto
  qed auto
  fix r as assume as: "as_ok (pm ps) L X r as"
  let ?s = "pm ps"
  obtain f where sh: "as_shape ?s L X r as f" using as by (auto simp: as_ok_shape)
  note st = structures_shape [OF assms(1) sh] and o = frames_okD [OF assms(1)]
  show "if as_refs as = 1
       then \<exists>s'. vmm_destroy_address_space ?s (Some as) = Some (s', None) \<and>
         moves ?s R L X {r} s' (R - {r}) (L - {r}) (X - structures ?s as) \<and>
         pavail s' = pavail ?s \<union> leaves ?s r \<union> utables ?s r \<union> structures ?s as
       else vmm_destroy_address_space ?s (Some as) = Some (?s, Some (as\<lparr>as_refs := as_refs as - 1\<rparr>))"
  proof (cases "as_refs as = 1")
    case True
    have at: "frames_at ?s r (cover (vma_list as)) = leaves ?s r" using leaves_cover [OF as] by (auto simp: frames_at_def leaves_def)
    have "leaves ?s r \<inter> X = {}" using o(7) [OF as_okD(1) [OF as]] by (auto simp: leaves_def)
    then have "X \<union> leaves ?s r - (leaves ?s r \<union> holders ?s (vma_list as) \<union> {f}) = X - structures ?s as" unfolding st by blast
    with destroy_space_ok [OF assms(1) sh True, unfolded at] obtain s' where
      "vmm_destroy_address_space ?s (Some as) = Some (s', None)" "moves ?s R L X {r} s' (R - {r}) (L - {r}) (X - structures ?s as)"
      "pavail s' = pavail ?s \<union> utables ?s r \<union> (leaves ?s r \<union> holders ?s (vma_list as) \<union> {f})" by auto
    then show ?thesis unfolding if_P [OF True] st by (intro exI [of _ s']) auto
  next
    case False
    then have "as_refs as - 1 > 0" by (simp add: word_gt_0)
    then show ?thesis unfolding if_not_P [OF False] by (simp add: vmm_destroy_address_space_def)
  qed
qed

theorem vmm_create_destroy_witness:
  "\<exists>(ps :: paging_state) k s'. frames_ok (pm ps) {k} {k} {0} \<and> as_ok (pm ps) {k} {0} k (ex_as (pm ps) k) \<and>
     vmm_destroy_address_space (pm ps) (Some (ex_as (pm ps) k)) = Some (s', None) \<and> 0 \<in> pavail s' \<and> k \<in> pavail s'"
proof -
  obtain s k where s: "frames_ok s {k} {k} {0}" "as_ok s {k} {0} k (ex_as s k)" "as_refs (ex_as s k) = 1" by (rule ex_machine)
  let ?ps = "\<lparr>pm = s, kernel_pml4 = table_va s k, kernel_pml4_phys = PFN_TO_PHYS k\<rparr>"
  have ps: "frames_ok (pm ?ps) {k} {k} {0}" "kernel_pml4 ?ps = table_va (pm ?ps) k" "as_ok (pm ?ps) {k} {0} k (ex_as (pm ?ps) k)" using s by simp_all
  have u: "k \<in> utables s k" by (rule utablesI [OF paths_Nil]) simp_all
  have "0 < length (page_array s)" using frames_okD(5) [OF s(1), of 0] by (simp add: usable_def)
  then have z: "0 \<in> structures s (ex_as s k)" by (simp add: structures_def ex_as_def)
  from conjunct2 [OF vmm_create_destroy [OF ps(1) singletonI ps(2)], rule_format, OF ps(3)] s(3) obtain s' where
    "vmm_destroy_address_space s (Some (ex_as s k)) = Some (s', None)" "pavail s' = pavail s \<union> leaves s k \<union> utables s k \<union> structures s (ex_as s k)" by auto
  then show ?thesis using ps u z by (intro exI [of _ ?ps] exI [of _ k] exI [of _ s']) auto
qed

end
